(* ===== verification/Prelude.thy ===== *)
theory Prelude
  imports Main "HOL-Library.Word"
begin

text \<open>
  Shared base of the development: the widths of the C++ integer types the virtual
  machine uses, the error enumeration of the string layer, and arithmetic facts that
  turn the bit operations of the code into \<open>div\<close> and \<open>mod\<close> on natural
  numbers (collection \<open>word_arith\<close>).
\<close>

unbundle bit_operations_syntax

section \<open>Machine types\<close>

text \<open>
  A \<open>char\<close> is a byte, \<open>char16_t\<close> and \<open>char32_t\<close> are 16 and 32 bits wide, and
  \<open>nativeint\<close> (\<open>intptr_t\<close>) and \<open>size_t\<close> are 64 bits wide. A \<open>nativeint\<close> is
  kept as a word and read with \<open>sint\<close> where it can overflow (arithmetic), and is an
  \<open>int\<close> or a \<open>nat\<close> where it is a length, an index or a count.
\<close>

type_synonym u8 = "8 word"
type_synonym char16 = "16 word"
type_synonym char32 = "32 word"
type_synonym u64 = "64 word"
type_synonym nativeint = "64 word"

section \<open>Bit operations as arithmetic\<close>

named_theorems word_arith
  \<comment> \<open>bit operations on words, read with \<open>unat\<close>\<close>

lemma unat_and_mask: "unat (x AND mask n) = unat (x::'a::len word) mod 2 ^ n"
proof -
  have "unat (take_bit n x) = take_bit n (unat x)" by (rule unsigned_take_bit_eq)
  then show ?thesis by (simp only: take_bit_eq_mask[symmetric] take_bit_eq_mod)
qed

lemma nat_or_add:
  fixes a b :: nat
  assumes "2 ^ n dvd a" and "b < 2 ^ n"
  shows "a OR b = a + b"
proof -
  have "a AND b = 0"
  proof (rule bit_eqI)
    fix m
    show "bit (a AND b) m = bit (0::nat) m"
    proof (cases "m < n")
      case True
      have "take_bit n a = 0" using assms(1) by (simp add: take_bit_eq_0_iff)
      then have "\<not> bit (take_bit n a) m" by simp
      then have "\<not> bit a m" using True by (simp add: bit_take_bit_iff)
      then show ?thesis by (simp add: bit_and_iff)
    next
      case False
      have "take_bit n b = b" using assms(2) by (simp add: take_bit_nat_eq_self)
      then have "\<not> bit b m" using False by (metis bit_take_bit_iff)
      then show ?thesis by (simp add: bit_and_iff)
    qed
  qed
  then show ?thesis by (simp add: disjunctive_add_eq_or)
qed

lemma unat_or_add:
  fixes a b :: "'a::len word"
  assumes "2 ^ n dvd unat a" and "unat b < 2 ^ n"
  shows "unat (a OR b) = unat a + unat b"
  using nat_or_add [OF assms] by (simp add: unsigned_or_eq)

lemma unat_push_bit:
  "unat (push_bit n (w::'a::len word)) = (unat w * 2 ^ n) mod 2 ^ LENGTH('a)"
proof -
  have "unat (push_bit n w) = take_bit LENGTH('a) (push_bit n (unat w))"
    by (rule unsigned_push_bit_eq)
  then show ?thesis by (simp only: take_bit_eq_mod push_bit_eq_mult)
qed

lemma unat_drop_bit: "unat (drop_bit n (w::'a::len word)) = unat w div 2 ^ n"
proof -
  have "unat (drop_bit n w) = drop_bit n (unat w)" by (rule unat_drop_bit_eq)
  then show ?thesis by (simp only: drop_bit_eq_div)
qed

text \<open>The masks the code uses.\<close>

lemma unat_and_masks [word_arith]:
  fixes x :: "'a::len word"
  shows "unat (x AND 0x7) = unat x mod 8"
    and "unat (x AND 0xf) = unat x mod 16"
    and "unat (x AND 0x1f) = unat x mod 32"
    and "unat (x AND 0x3f) = unat x mod 64"
    and "unat (x AND 0xff) = unat x mod 256"
    and "unat (x AND 0x3ff) = unat x mod 1024"
    and "unat (x AND 0xffff) = unat x mod 65536"
  using unat_and_mask[of x 3] unat_and_mask[of x 4] unat_and_mask[of x 5]
    unat_and_mask[of x 6] unat_and_mask[of x 8] unat_and_mask[of x 10] unat_and_mask[of x 16]
  by (simp_all add: mask_eq_exp_minus_1)

lemma unat_and_masks' [word_arith]:
  fixes x :: "'a::len word"
  shows "unat (0x3f AND x) = unat x mod 64"
  using unat_and_masks(4)[of x] by (simp add: and.commute)

lemma unat_ucast_mod: "unat (ucast (w::'a::len word) :: 'b::len word) = unat w mod 2 ^ LENGTH('b)"
  by (simp add: unsigned_ucast_eq take_bit_eq_mod)

lemma unat_bounds [word_arith]:
  "unat (b::8 word) < 256" "unat (h::16 word) < 65536" "unat (w::32 word) < 4294967296"
proof -
  have "unat b < 2 ^ LENGTH(8)" "unat h < 2 ^ LENGTH(16)" "unat w < 2 ^ LENGTH(32)"
    by (rule unsigned_less)+
  then show "unat (b::8 word) < 256" "unat (h::16 word) < 65536" "unat (w::32 word) < 4294967296"
    by simp_all
qed

lemma word_eq_unatI: "unat x = unat y \<Longrightarrow> x = (y::'a::len word)"
  by (simp add: word_unat_eq_iff)

section \<open>Results\<close>

text \<open>
  A fallible computation returns a sum: an exception of the virtual machine on the left, a
  value on the right. \<open>and_then\<close> sequences two of them.
\<close>

fun and_then :: "'e + 'a \<Rightarrow> ('a \<Rightarrow> 'e + 'b) \<Rightarrow> 'e + 'b" where
  "and_then (Inl e) f = Inl e"
| "and_then (Inr x) f = f x"

lemma and_then_Inr_iff: "and_then r f = Inr y \<longleftrightarrow> (\<exists>x. r = Inr x \<and> f x = Inr y)"
  by (cases r) auto

lemma and_then_Inl_iff: "and_then r f = Inl e \<longleftrightarrow> r = Inl e \<or> (\<exists>x. r = Inr x \<and> f x = Inl e)"
  by (cases r) auto

lemma and_then_assoc: "and_then (and_then r f) g = and_then r (\<lambda>x. and_then (f x) g)"
  by (cases r) auto

section \<open>Lists\<close>

lemma take_append_exact [simp]: "n = length xs \<Longrightarrow> take n (xs @ ys) = xs"
  by simp

lemma drop_append_exact [simp]: "n = length xs \<Longrightarrow> drop n (xs @ ys) = ys"
  by simp

lemma list_all_in_set: "list_all P xs \<Longrightarrow> x \<in> set xs \<Longrightarrow> P x"
  by (simp add: list_all_iff)

end
