(* ===== verification/LString.thy ===== *)
theory LString
  imports Prelude
begin

text \<open>
  Length-prefixed strings (\<open>vm/vm/main/lstring-decl.hh\<close>, \<open>lstring.hh\<close>). The union of
  \<open>length\<close> and \<open>error\<close> in \<open>BaseLString\<close> is a datatype: a non-negative length is
  the list of its code units, a negative one is the error it encodes. The pointer itself is
  not part of the value; where the code compares pointers, the definition takes the outcome
  of that comparison as an argument.
\<close>

section \<open>Errors and strings\<close>

datatype unicode_error =
    OutOfRange | Surrogate | InvalidUTF8 | InvalidUTF16 | Truncated | IndexOutOfBounds

text \<open>The enumerators of \<open>UnicodeErrorReason\<close>; \<open>empty\<close> (0) is the empty string.\<close>

fun error_code :: "unicode_error \<Rightarrow> int" where
  "error_code OutOfRange = -1"
| "error_code Surrogate = -2"
| "error_code InvalidUTF8 = -3"
| "error_code InvalidUTF16 = -4"
| "error_code Truncated = -5"
| "error_code IndexOutOfBounds = -6"

datatype 'c lstring = LErr unicode_error | LStr "'c list"

fun ls_length :: "'c lstring \<Rightarrow> int" where
  "ls_length (LErr e) = error_code e"
| "ls_length (LStr s) = int (length s)"

definition isError :: "'c lstring \<Rightarrow> bool" where
  "isError s \<longleftrightarrow> ls_length s < 0"

definition isErrorOrEmpty :: "'c lstring \<Rightarrow> bool" where
  "isErrorOrEmpty s \<longleftrightarrow> ls_length s \<le> 0"

lemma error_code_neg: "error_code e < 0"
  by (cases e) auto

lemma error_code_inj: "error_code e = error_code f \<longleftrightarrow> e = f"
  by (cases e; cases f) auto

lemma isError_simps [simp]: "isError (LErr e)" "\<not> isError (LStr s)"
  by (auto simp: isError_def error_code_neg)

lemma isErrorOrEmpty_simps [simp]:
  "isErrorOrEmpty (LErr e)" "isErrorOrEmpty (LStr s) \<longleftrightarrow> s = []"
  using error_code_neg[of e] by (auto simp: isErrorOrEmpty_def)

text \<open>
  Propagating \<open>input.error\<close> of a string for which \<open>isErrorOrEmpty\<close> holds builds a string
  of the target code unit type with the same error, or the empty one.
\<close>

fun ls_error :: "'a lstring \<Rightarrow> 'b lstring" where
  "ls_error (LErr e) = LErr e"
| "ls_error (LStr s) = LStr []"

section \<open>Construction and comparison\<close>

text \<open>A C string: the units up to the first zero unit (the null pointer is the empty string).\<close>

fun from_c_string :: "'c::zero list \<Rightarrow> 'c list" where
  "from_c_string [] = []"
| "from_c_string (c # cs) = (if c = 0 then [] else c # from_c_string cs)"

text \<open>
  \<open>operator==\<close>: lengths first, then identical pointers, then \<open>memcmp\<close> of the bytes. Two
  erroneous strings with the same error have equal lengths and null pointers.
\<close>

definition ls_equal :: "bool \<Rightarrow> 'c lstring \<Rightarrow> 'c lstring \<Rightarrow> bool" where
  "ls_equal same_ptr a b =
     (if ls_length a \<noteq> ls_length b then False
      else if same_ptr then True
      else (case (a, b) of (LStr s, LStr t) \<Rightarrow> s = t | _ \<Rightarrow> True))"

text \<open>
  \<open>slice(from, to)\<close> does no validation: it shifts the pointer. \<open>None\<close> stands for a slice
  outside of the buffer, whose contents the language leaves undefined.
\<close>

definition ls_slice :: "'c lstring \<Rightarrow> nat \<Rightarrow> nat \<Rightarrow> 'c lstring option" where
  "ls_slice s from to =
     (if isErrorOrEmpty s then Some (ls_error s)
      else (case s of
              LErr e \<Rightarrow> Some (LErr e)
            | LStr u \<Rightarrow> if from \<le> to \<and> to \<le> length u
                        then Some (LStr (take (to - from) (drop from u))) else None))"

definition ls_slice_from :: "'c lstring \<Rightarrow> nat \<Rightarrow> 'c lstring option" where
  "ls_slice_from s from = ls_slice s from (nat (ls_length s))"

text \<open>The constructor that copies another string into memory of the virtual machine.\<close>

definition ls_copy :: "'c lstring \<Rightarrow> 'c lstring" where
  "ls_copy other = (if isErrorOrEmpty other then ls_error other else other)"

definition insertPrefix :: "'c lstring \<Rightarrow> 'c lstring \<Rightarrow> 'c lstring" where
  "insertPrefix container p =
     (case (container, p) of (LStr c, LStr s) \<Rightarrow> LStr (s @ c) | _ \<Rightarrow> container)"

text \<open>
  \<open>concatLString\<close>: when the second string starts where the first one ends, the result is
  a longer slice of the first buffer (\<open>adjacent\<close>), which holds both.
\<close>

definition concatLString :: "bool \<Rightarrow> 'c lstring \<Rightarrow> 'c lstring \<Rightarrow> 'c lstring" where
  "concatLString adjacent a b =
     (if isErrorOrEmpty b then a
      else if isErrorOrEmpty a then b
      else (case (a, b) of
              (LStr s, LStr t) \<Rightarrow> LStr (if adjacent then take (length s + length t) (s @ t) else s @ t)
            | _ \<Rightarrow> a))"

section \<open>Facts\<close>

lemma ls_equal_iff:
  assumes "same_ptr \<Longrightarrow> ls_length a = ls_length b \<Longrightarrow> a = b"
  shows "ls_equal same_ptr a b \<longleftrightarrow> a = b"
proof (cases a; cases b)
  fix e f assume "a = LErr e" "b = LErr f"
  then show ?thesis by (auto simp: ls_equal_def error_code_inj)
next
  fix e t assume "a = LErr e" "b = LStr t"
  then show ?thesis using error_code_neg[of e] by (auto simp: ls_equal_def)
next
  fix s f assume "a = LStr s" "b = LErr f"
  then show ?thesis using error_code_neg[of f] by (auto simp: ls_equal_def)
next
  fix s t assume "a = LStr s" "b = LStr t"
  then show ?thesis using assms by (auto simp: ls_equal_def)
qed

lemma ls_slice_LStr [simp]:
  "from \<le> to \<Longrightarrow> to \<le> length s \<Longrightarrow> ls_slice (LStr s) from to = Some (LStr (take (to - from) (drop from s)))"
  by (auto simp: ls_slice_def)

lemma ls_slice_from_LStr [simp]:
  "from \<le> length s \<Longrightarrow> ls_slice_from (LStr s) from = Some (LStr (drop from s))"
  by (auto simp: ls_slice_from_def)

lemma concatLString_LStr [simp]: "concatLString adj (LStr s) (LStr t) = LStr (s @ t)"
  by (auto simp: concatLString_def)

lemma ls_copy_id [simp]: "ls_copy s = s"
  by (cases s) (auto simp: ls_copy_def)

end
