(* ===== verification/Utf.thy ===== *)
theory Utf
  imports LString
begin

text \<open>
  Unicode encodings (\<open>vm/vm/main/utf.hh\<close>): the UTF-8, UTF-16 and UTF-32 coders of one code
  point, and the algorithms over whole strings that are templates over the code unit type.
  A template parameter is a \<open>codec\<close> record; the laws the algorithms rely on are the locale
  \<open>unicode_codec\<close>, which all three codecs interpret.
\<close>

section \<open>One code point\<close>

definition isValidCodePoint :: "char32 \<Rightarrow> bool" where
  "isValidCodePoint codePoint \<longleftrightarrow>
     codePoint < 0xd800 \<or> (codePoint \<ge> 0xe000 \<and> codePoint < 0x110000)"

text \<open>The overload for \<open>nativeint\<close>.\<close>

definition isValidCodePoint_native :: "int \<Rightarrow> bool" where
  "isValidCodePoint_native codePoint \<longleftrightarrow>
     (codePoint \<ge> 0 \<and> codePoint < 0xd800) \<or> (codePoint \<ge> 0xe000 \<and> codePoint < 0x110000)"

definition to_utf8 :: "char32 \<Rightarrow> unicode_error + u8 list" where
  "to_utf8 character =
     (if character < 0x80 then Inr [ucast character]
      else if character < 0x800 then
        Inr [ucast (0xc0 OR drop_bit 6 character),
             ucast (0x80 OR (character AND 0x3f))]
      else if character < 0x10000 then
        (if 0xd800 \<le> character \<and> character < 0xe000 then Inl Surrogate
         else Inr [ucast (0xe0 OR drop_bit 12 character),
                   ucast (0x80 OR (drop_bit 6 character AND 0x3f)),
                   ucast (0x80 OR (character AND 0x3f))])
      else if character < 0x110000 then
        Inr [ucast (0xf0 OR drop_bit 18 character),
             ucast (0x80 OR (drop_bit 12 character AND 0x3f)),
             ucast (0x80 OR (drop_bit 6 character AND 0x3f)),
             ucast (0x80 OR (character AND 0x3f))]
      else Inl OutOfRange)"

definition to_utf16 :: "char32 \<Rightarrow> unicode_error + char16 list" where
  "to_utf16 character =
     (if character < 0x10000 then
        (if 0xd800 \<le> character \<and> character < 0xe000 then Inl Surrogate
         else Inr [ucast character])
      else if character < 0x110000 then
        (let character = character - 0x10000
         in Inr [ucast (0xd800 OR drop_bit 10 character),
                 ucast (0xdc00 OR (character AND 0x3ff))])
      else Inl OutOfRange)"

definition to_utf32 :: "char32 \<Rightarrow> unicode_error + char32 list" where
  "to_utf32 character =
     (if 0xd800 \<le> character \<and> character < 0xe000 then Inl Surrogate
      else if character \<ge> 0x110000 then Inl OutOfRange
      else Inr [character])"

text \<open>
  The loop of \<open>fromUTF8ContSeq\<close> over the continuation units: \<open>None\<close> is the early return
  on a unit that is not a continuation unit.
\<close>

fun contUnits :: "u8 list \<Rightarrow> char32 \<Rightarrow> char32 option" where
  "contUnits [] val = Some val"
| "contUnits (u # us) val =
     (if u AND 0xc0 \<noteq> 0x80 then None
      else contUnits us (push_bit 6 val OR (0x3f AND ucast u)))"

definition fromUTF8ContSeq ::
  "u8 list \<Rightarrow> char32 \<Rightarrow> nat \<Rightarrow> char32 \<Rightarrow> char32 \<times> (unicode_error + nat)" where
  "fromUTF8ContSeq utf val len lowerLimit =
     (case contUnits (take (len - 1) (drop 1 utf)) val of
        None \<Rightarrow> (0xfffd, Inl InvalidUTF8)
      | Some val \<Rightarrow> (val, if val < lowerLimit then Inl InvalidUTF8 else Inr len))"

text \<open>\<open>fromUTF\<close> of a non-empty buffer; its second component is the stride or the error.\<close>

definition from_utf8 :: "u8 list \<Rightarrow> char32 \<times> (unicode_error + nat)" where
  "from_utf8 utf =
     (let leadingByte = hd utf; len = length utf in
      if leadingByte < 0x80 then (ucast leadingByte, Inr 1)
      else if leadingByte < 0xc2 then (0xfffd, Inl InvalidUTF8)
      else if leadingByte > 0xf4 then (0xfffd, Inl OutOfRange)
      else if leadingByte < 0xe0 then
        (if len \<ge> 2 then fromUTF8ContSeq utf (ucast (leadingByte AND 0x1f)) 2 0x80
         else (0xfffd, Inl Truncated))
      else if leadingByte < 0xf0 then
        (if len < 3 then (0xfffd, Inl Truncated)
         else (case fromUTF8ContSeq utf (ucast (leadingByte AND 0xf)) 3 0x800 of
                 (first, second) \<Rightarrow>
                   if 0xd800 \<le> first \<and> first < 0xe000 then (first, Inl Surrogate)
                   else (first, second)))
      else
        (if len < 4 then (0xfffd, Inl Truncated)
         else (case fromUTF8ContSeq utf (ucast (leadingByte AND 7)) 4 0x10000 of
                 (first, second) \<Rightarrow>
                   if first \<ge> 0x110000 then (first, Inl OutOfRange)
                   else (first, second))))"

definition from_utf16 :: "char16 list \<Rightarrow> char32 \<times> (unicode_error + nat)" where
  "from_utf16 utf =
     (let lead = hd utf; len = length utf in
      if lead < 0xd800 \<or> lead \<ge> 0xe000 then (ucast lead, Inr 1)
      else if lead < 0xdc00 then
        (if len < 2 then (0xfffd, Inl Truncated)
         else (let trail = utf ! 1 in
               if 0xdc00 \<le> trail \<and> trail < 0xe000 then
                 (0x10000 + (push_bit 10 (ucast (lead AND 0x3ff)) OR ucast (trail AND 0x3ff)), Inr 2)
               else (0xfffd, Inl InvalidUTF16)))
      else (0xfffd, Inl InvalidUTF16))"

definition from_utf32 :: "char32 list \<Rightarrow> char32 \<times> (unicode_error + nat)" where
  "from_utf32 utf =
     (let c = hd utf in
      (c, if 0xd800 \<le> c \<and> c < 0xe000 then Inl Surrogate
          else if c \<ge> 0x110000 then Inl OutOfRange
          else Inr 1))"

definition getUTFStride8 :: "u8 list \<Rightarrow> unicode_error + nat" where
  "getUTFStride8 utf =
     (let leadingByte = hd utf in
      if leadingByte < 0x80 then Inr 1
      else if leadingByte < 0xc2 then Inl InvalidUTF8
      else if leadingByte > 0xf4 then Inl OutOfRange
      else if leadingByte < 0xe0 then Inr 2
      else if leadingByte < 0xf0 then Inr 3
      else Inr 4)"

definition getUTFStride16 :: "char16 list \<Rightarrow> unicode_error + nat" where
  "getUTFStride16 utf =
     (let lead = hd utf in
      if lead < 0xd800 \<or> lead \<ge> 0xe000 then Inr 1
      else if lead < 0xdc00 then Inr 2
      else Inl InvalidUTF16)"

definition getUTFStride32 :: "char32 list \<Rightarrow> unicode_error + nat" where
  "getUTFStride32 utf = Inr 1"

definition isLeading8 :: "u8 \<Rightarrow> bool" where
  "isLeading8 c \<longleftrightarrow> (0x00 \<le> c \<and> c \<le> 0x7f) \<or> (0xc2 \<le> c \<and> c \<le> 0xf4)"

definition isLeading16 :: "char16 \<Rightarrow> bool" where
  "isLeading16 c \<longleftrightarrow> \<not> (0xdc00 \<le> c \<and> c < 0xe000)"

definition isLeading32 :: "char32 \<Rightarrow> bool" where
  "isLeading32 c \<longleftrightarrow> True"

section \<open>UTF-8: arithmetic of the bytes\<close>

text \<open>
  The bit operations of the coders, read as digits in base 64 of the code point.
\<close>

lemma mod_base: "m = k * b \<Longrightarrow> x < b \<Longrightarrow> (m + x) mod b = (x::nat)" by simp

lemma div_chain: "(n::nat) div (a * b) * b + n div a mod b = n div a"
  by (simp add: div_mult2_eq mult.commute)

lemma low6: "((128::nat) + x mod 64) mod 64 = x mod 64" by (rule mod_base[where k=2]) auto

lemma cont_div [simp]: "((128::nat) + x mod 64) div 64 = 2"
proof -
  have "(128 + x mod 64) = x mod 64 + 2 * 64" by simp
  then show ?thesis by (simp only: div_mult_self1)
qed

lemma l2: "128 \<le> n \<Longrightarrow> n < 2048 \<Longrightarrow> (192 + n div 64) mod 32 * 64 + (128 + n mod 64) mod 64 = (n::nat)" 
proof -
  assume "n < 2048" 
  then have "(192 + n div 64) mod 32 = n div 64" by (intro mod_base[where k=6]) auto
  then show ?thesis by (simp only: low6) simp
qed

lemma l3: "n < 65536 \<Longrightarrow> ((224 + n div 4096) mod 16 * 64 mod 4294967296 + n div 64 mod 64) * 64 mod 4294967296 + n mod 64 = (n::nat)" 
proof -
  assume n: "n < 65536" then have "(224 + n div 4096) mod 16 = n div 4096" by (intro mod_base[where k=14]) auto
  moreover have "n div 4096 * 64 + n div 64 mod 64 = n div 64" using div_chain[of n 64 64] by simp
  ultimately show ?thesis using n by simp
qed

lemma l4: "n < 1114112 \<Longrightarrow> (((240 + n div 262144) mod 8 * 64 mod 4294967296 + n div 4096 mod 64) * 64 mod 4294967296 + n div 64 mod 64) * 64 mod 4294967296 + n mod 64 = (n::nat)" 
proof -
  assume n: "n < 1114112" then have a: "(240 + n div 262144) mod 8 = n div 262144" by (intro mod_base[where k=30]) auto
  have m: "n div 262144 * 64 mod 4294967296 = n div 262144 * 64" "n div 4096 * 64 mod 4294967296 = n div 4096 * 64" "n div 64 * 64 mod 4294967296 = n div 64 * 64" using n by simp_all
  have b: "n div 262144 * 64 + n div 4096 mod 64 = n div 4096" using div_chain[of n 4096 64] by simp
  have c: "n div 4096 * 64 + n div 64 mod 64 = n div 64" using div_chain[of n 64 64] by simp
  show ?thesis by (simp only: a m b c div_mult_mod_eq)
qed

lemma lead2: "unat (c::char32) < 2048 \<Longrightarrow> unat (ucast (0xc0 OR drop_bit 6 c) :: u8) = 192 + unat c div 64"
  by (simp add: unat_ucast_mod unat_or_add[of 6 "0xc0"] unat_drop_bit)

lemma lead3: "unat (c::char32) < 65536 \<Longrightarrow> unat (ucast (0xe0 OR drop_bit 12 c) :: u8) = 224 + unat c div 4096"
  by (simp add: unat_ucast_mod unat_or_add[of 5 "0xe0"] unat_drop_bit)

lemma lead4: "unat (c::char32) < 1114112 \<Longrightarrow> unat (ucast (0xf0 OR drop_bit 18 c) :: u8) = 240 + unat c div 262144"
  by (simp add: unat_ucast_mod unat_or_add[of 4 "0xf0"] unat_drop_bit)

lemma cont: "unat (ucast (0x80 OR ((x::char32) AND 0x3f)) :: u8) = 128 + unat x mod 64"
  by (simp add: unat_ucast_mod unat_or_add[of 7 "0x80"] word_arith)

lemma and_c0: "(u::u8) AND 0xc0 = push_bit 6 (drop_bit 6 u)"
proof (rule bit_word_eqI)
  fix n assume "n < LENGTH(8)"
  then have "n \<in> {0,1,2,3,4,5,6,7}" by auto
  then show "bit (u AND 0xc0) n = bit (push_bit 6 (drop_bit 6 u)) n"
    by (auto simp: bit_simps)
qed

lemma is_cont: "(u AND 0xc0 = 0x80) \<longleftrightarrow> unat (u::u8) div 64 = 2"
proof -
  have "unat (u AND 0xc0) = unat u div 64 * 64"
    unfolding and_c0 by (simp only: unat_push_bit unat_drop_bit) (use unat_bounds(1)[of u] in simp)
  moreover have "(u AND 0xc0 = 0x80) \<longleftrightarrow> unat (u AND 0xc0) = 128"
    unfolding word_unat_eq_iff by simp
  ultimately show ?thesis by auto
qed

lemma cont_step: "unat (push_bit 6 val OR (0x3f AND ucast (u::u8)) :: char32) = (unat val * 64) mod 4294967296 + unat u mod 64"
proof -
  have a: "unat (push_bit 6 val) = (unat val * 64) mod 4294967296" by (simp only: unat_push_bit) simp
  have b: "unat (0x3f AND ucast u :: char32) = unat u mod 64" using unat_bounds(1)[of u] by (simp only: unat_and_masks' unat_ucast_mod) simp
  have "unat (push_bit 6 val OR (0x3f AND ucast u) :: char32) = unat (push_bit 6 val) + unat (0x3f AND ucast u :: char32)"
   apply (rule unat_or_add[of 6]) unfolding a b by (auto simp: dvd_mod_iff) 
  then show ?thesis unfolding a b .
qed

definition push6 :: "char32 \<Rightarrow> u8 \<Rightarrow> char32" where
 "push6 val u = push_bit 6 val OR (0x3f AND ucast u)"

lemma unat_push6: "unat (push6 val u) = (unat val * 64) mod 4294967296 + unat u mod 64"
  by (simp only: push6_def cont_step)

lemma contUnits_push6 [simp]: "contUnits (u # us) val = (if unat u div 64 = 2 then contUnits us (push6 val u) else None)"
  by (simp add: is_cont push6_def)

declare contUnits.simps(2) [simp del]

lemmas word_cmp = word_less_nat_alt word_le_nat_alt

lemma unat_cont_div [simp]: "unat x = 128 + m mod 64 \<Longrightarrow> unat (x::u8) div 64 = 2" by simp

lemma unat_ucast8: "unat (ucast (w::u8) :: char32) = unat w"
  using unat_bounds(1)[of w] by (simp add: unat_ucast_mod)

lemma from_to_utf8_1:
  assumes "unat c < 128" "to_utf8 c = Inr us" shows "us \<noteq> [] \<and> from_utf8 (us @ rest) = (c, Inr (length us))"
proof -
  have us: "us = [ucast c]" using assms by (simp add: to_utf8_def word_cmp)
  have "unat (ucast c :: u8) = unat c" using assms by (simp add: unat_ucast_mod)
  then show ?thesis using assms unfolding us
      by (simp add: from_utf8_def Let_def word_cmp word_unat_eq_iff unat_ucast_mod)
qed

lemma from_to_utf8_2:
  assumes n: "128 \<le> unat c" "unat c < 2048" and to: "to_utf8 c = Inr us" shows "us \<noteq> [] \<and> from_utf8 (us @ rest) = (c, Inr (length us))"
proof -
  obtain b0 b1 where us: "us = [b0, b1]" and b: "unat b0 = 192 + unat c div 64" "unat b1 = 128 + unat c mod 64" 
    using n to lead2[of c] cont[of c] by (auto simp add: to_utf8_def word_cmp)
  have v: "push6 (ucast (b0 AND 0x1f)) b1 = c"
    apply (rule word_eq_unatI) unfolding unat_push6 unat_ucast_mod unat_and_masks b using l2[OF n] by simp
  have "unat c div 64 < 32" "2 \<le> unat c div 64" using n by auto
  then have "\<not> b0 < 0x80" "\<not> b0 < 0xc2" "\<not> b0 > 0xf4" "b0 < 0xe0" using b by (simp_all add: word_cmp)
  moreover have "\<not> c < 0x80" using n by (simp add: word_cmp)
  ultimately show ?thesis unfolding us
      by (simp add: from_utf8_def Let_def fromUTF8ContSeq_def b v)
qed

lemma from_to_utf8_3:
  assumes n: "2048 \<le> unat c" "unat c < 65536" "unat c < 55296 \<or> 57344 \<le> unat c" and to: "to_utf8 c = Inr us" shows "us \<noteq> [] \<and> from_utf8 (us @ rest) = (c, Inr (length us))"
proof -
  have d: "unat (drop_bit 6 c) = unat c div 64" using unat_drop_bit[of 6 c] by simp
  obtain b0 b1 b2 where us: "us = [b0, b1, b2]" and b: "unat b0 = 224 + unat c div 4096" "unat b1 = 128 + (unat c div 64) mod 64" "unat b2 = 128 + unat c mod 64" 
    using n to lead3[of c] cont[of c] cont[of "drop_bit 6 c"] unfolding d by (auto simp add: to_utf8_def word_cmp)
  have v: "push6 (push6 (ucast (b0 AND 0xf)) b1) b2 = c"
    apply (rule word_eq_unatI) unfolding unat_push6 unat_ucast8 unat_and_masks b low6 by (rule l3[OF n(2)])
  have "unat c div 4096 < 16"  using n by auto
  then have "\<not> b0 < 0x80" "\<not> b0 < 0xc2" "\<not> b0 > 0xf4" "\<not> b0 < 0xe0" "b0 < 0xf0" using b by (simp_all add: word_cmp)
  moreover have "\<not> c < 0x800" "\<not> (0xd800 \<le> c \<and> c < 0xe000)" using n by (auto simp add: word_cmp)
  ultimately show ?thesis unfolding us
      by (simp add: from_utf8_def Let_def fromUTF8ContSeq_def b v)
qed

lemma from_to_utf8_4:
  assumes n: "65536 \<le> unat c" "unat c < 1114112" and to: "to_utf8 c = Inr us" shows "us \<noteq> [] \<and> from_utf8 (us @ rest) = (c, Inr (length us))"
proof -
  have d: "unat (drop_bit 6 c) = unat c div 64" "unat (drop_bit 12 c) = unat c div 4096" using unat_drop_bit[of 6 c] unat_drop_bit[of 12 c] by auto
  obtain b0 b1 b2 b3 where us: "us = [b0, b1, b2, b3]" and b: "unat b0 = 240 + unat c div 262144" "unat b1 = 128 + (unat c div 4096) mod 64" "unat b2 = 128 + (unat c div 64) mod 64" "unat b3 = 128 + unat c mod 64" 
    using n to lead4[of c] cont[of c] cont[of "drop_bit 6 c"] cont[of "drop_bit 12 c"] unfolding d by (auto simp add: to_utf8_def word_cmp)
  have v: "push6 (push6 (push6 (ucast (b0 AND 7)) b1) b2) b3 = c"
    apply (rule word_eq_unatI) unfolding unat_push6 unat_ucast8 unat_and_masks b low6 by (rule l4[OF n(2)])
  have "unat c div 262144 < 5"  using n by auto
  then have "\<not> b0 < 0x80" "\<not> b0 < 0xc2" "\<not> b0 > 0xf4" "\<not> b0 < 0xe0" "\<not> b0 < 0xf0" using b by (simp_all add: word_cmp)
  moreover have "\<not> c < 0x10000" "\<not> 0x110000 \<le> c" using n by (auto simp add: word_cmp)
  ultimately show ?thesis unfolding us
      by (simp add: from_utf8_def Let_def fromUTF8ContSeq_def b v)
qed

lemma from_to_utf8:
  assumes to: "to_utf8 c = Inr us" shows "us \<noteq> [] \<and> from_utf8 (us @ rest) = (c, Inr (length us))"
proof -
  let ?n = "unat c"
  have "?n < 128 \<or> 128 \<le> ?n \<and> ?n < 2048 \<or> 2048 \<le> ?n \<and> ?n < 65536 \<and> (?n < 55296 \<or> 57344 \<le> ?n) \<or> 65536 \<le> ?n \<and> ?n < 1114112"
    using assms by (auto simp: to_utf8_def word_cmp not_less not_le split: if_splits) 
  then show ?thesis using from_to_utf8_1[OF _ to] from_to_utf8_2[OF _ _ to] from_to_utf8_3[OF _ _ _ to] from_to_utf8_4[OF _ _ to] by blast
qed

section \<open>UTF-8: what decodes is what encodes\<close>

lemma contUnits_0 [simp]: "contUnits [] v = Some v" by simp

lemma cont_byte: "unat (u::u8) div 64 = 2 \<Longrightarrow> unat u = 128 + unat u mod 64"
  using div_mult_mod_eq[of "unat u" 64] by simp

lemma lead_byte: "m = k * b \<Longrightarrow> m \<le> x \<Longrightarrow> x < m + b \<Longrightarrow> x = m + x mod (b::nat)"
proof -
  assume a: "m = k * b" "m \<le> x" "x < m + b"
  then obtain y where y: "x = m + y" "y < b" by (metis add_less_cancel_left le_Suc_ex)
  then have "x mod b = y" using a(1) by simp
  with y show ?thesis by simp
qed

lemma digit64: "l < 64 \<Longrightarrow> (q * 64 + l) div 64 = (q::nat)" "l < 64 \<Longrightarrow> (q * 64 + l) mod 64 = (l::nat)"
  by simp_all

lemma to_from_utf8_2:
  assumes b0: "194 \<le> unat b0" "unat b0 < 224" and b1: "unat (b1::u8) div 64 = 2" and c: "c = push6 (ucast ((b0::u8) AND 0x1f)) b1"
  shows "to_utf8 c = Inr [b0, b1] \<and> 128 \<le> unat c \<and> unat c < 2048"
proof -
  define h l where "h = unat b0 mod 32" and "l = unat b1 mod 64"
  have hl: "unat b0 = 192 + h" "unat b1 = 128 + l" "l < 64" "h < 32" "2 \<le> h"
    using b0 lead_byte[of 192 6 32 "unat b0"] cont_byte[OF b1] by (simp_all add: h_def l_def)
  have n: "unat c = h * 64 + l"
    unfolding c unat_push6 unat_ucast8 unat_and_masks h_def l_def by simp
  have "unat c div 64 = h" "unat c mod 64 = l" unfolding n by (rule digit64, rule hl)+
  then have "ucast (0xc0 OR drop_bit 6 c) = b0" "ucast (0x80 OR (c AND 0x3f)) = b1"
    using lead2[of c] cont[of c] hl n by (auto intro!: word_eq_unatI)
  moreover have "128 \<le> unat c" "unat c < 2048" using n hl by auto
  ultimately show ?thesis by (auto simp: to_utf8_def word_cmp)
qed

lemma to_from_utf8_3:
  assumes b0: "224 \<le> unat b0" "unat b0 < 240" and b1: "unat (b1::u8) div 64 = 2" and b2: "unat (b2::u8) div 64 = 2" 
    and c: "c = push6 (push6 (ucast ((b0::u8) AND 0xf)) b1) b2"
    and r: "2048 \<le> unat c" "\<not> (55296 \<le> unat c \<and> unat c < 57344)"
  shows "to_utf8 c = Inr [b0, b1, b2] \<and> unat c < 65536"
proof -
  define h m l where "h = unat b0 mod 16" and "m = unat b1 mod 64" and "l = unat b2 mod 64"
  have hl: "unat b0 = 224 + h" "unat b1 = 128 + m" "unat b2 = 128 + l" "l < 64" "m < 64" "h < 16" 
    using b0 lead_byte[of 224 14 16 "unat b0"] cont_byte[OF b1] cont_byte[OF b2] by (simp_all add: h_def l_def m_def)
  have n: "unat c = (h * 64 + m) * 64 + l"
    unfolding c unat_push6 unat_ucast8 unat_and_masks h_def[symmetric] l_def[symmetric] m_def[symmetric] using hl by simp
  have d: "unat c div 64 = h * 64 + m" "unat c mod 64 = l" unfolding n by (rule digit64, rule hl)+
  have d2: "unat c div 4096 = h"
    using hl div_mult2_eq[of "unat c" 64 64] unfolding d by simp
  have d3: "unat (drop_bit 6 c) mod 64 = m" using unat_drop_bit[of 6 c] d hl by simp
  have "unat c < 65536" using n hl by auto
  then have "ucast (0xe0 OR drop_bit 12 c) = b0" "ucast (0x80 OR (drop_bit 6 c AND 0x3f)) = b1" "ucast (0x80 OR (c AND 0x3f)) = b2"
    using lead3[of c] cont[of c] cont[of "drop_bit 6 c"] hl d d2 d3 by (auto intro!: word_eq_unatI)
  then show ?thesis using r \<open>unat c < 65536\<close> by (auto simp: to_utf8_def word_cmp)
qed

lemma to_from_utf8_4:
  assumes b0: "240 \<le> unat b0" "unat b0 \<le> 244" and b1: "unat (b1::u8) div 64 = 2" and b2: "unat (b2::u8) div 64 = 2" and b3: "unat (b3::u8) div 64 = 2" 
    and c: "c = push6 (push6 (push6 (ucast ((b0::u8) AND 7)) b1) b2) b3"
    and r: "65536 \<le> unat c" "unat c < 1114112"
  shows "to_utf8 c = Inr [b0, b1, b2, b3]"
proof -
  define h k m l where "h = unat b0 mod 8" and "k = unat b1 mod 64" and "m = unat b2 mod 64" and "l = unat b3 mod 64"
  have hl: "unat b0 = 240 + h" "unat b1 = 128 + k" "unat b2 = 128 + m" "unat b3 = 128 + l" "l < 64" "m < 64" "k < 64" "h < 8" 
    using b0 lead_byte[of 240 30 8 "unat b0"] cont_byte[OF b1] cont_byte[OF b2] cont_byte[OF b3] by (simp_all add: h_def l_def m_def k_def)
  have n: "unat c = ((h * 64 + k) * 64 + m) * 64 + l"
    unfolding c unat_push6 unat_ucast8 unat_and_masks h_def[symmetric] l_def[symmetric] m_def[symmetric] k_def[symmetric] using hl by simp
  have d: "unat c div 64 = (h * 64 + k) * 64 + m" "unat c mod 64 = l" unfolding n by (rule digit64, rule hl)+
  have d2: "unat c div 4096 = h * 64 + k"
    using hl div_mult2_eq[of "unat c" 64 64] unfolding d by simp
  have d4: "unat c div 262144 = h"
    using hl div_mult2_eq[of "unat c" 4096 64] unfolding d2 by simp
  have "unat (drop_bit 6 c) = (h * 64 + k) * 64 + m" "unat (drop_bit 12 c) = h * 64 + k"
    using unat_drop_bit[of 6 c] unat_drop_bit[of 12 c] d d2 by simp_all
  then have d3: "unat (drop_bit 6 c) mod 64 = m" "unat (drop_bit 12 c) mod 64 = k"
    using digit64(2)[OF hl(6)] digit64(2)[OF hl(7)] by (simp_all only:)
  have "ucast (0xf0 OR drop_bit 18 c) = b0" "ucast (0x80 OR (drop_bit 12 c AND 0x3f)) = b1" "ucast (0x80 OR (drop_bit 6 c AND 0x3f)) = b2" "ucast (0x80 OR (c AND 0x3f)) = b3"
    by (rule word_eq_unatI, simp only: lead4[OF r(2)] cont hl d d3 d4)+
  then show ?thesis using r by (auto simp: to_utf8_def word_cmp)
qed

lemma to_from_utf8:
  assumes "us \<noteq> []" and f: "from_utf8 us = (c, Inr n)"
  shows "n \<le> length us \<and> to_utf8 c = Inr (take n us)"
proof -
  obtain b0 rest where us: "us = b0 # rest" using assms(1) by (cases us) auto
  consider (1) "unat b0 < 128" | (2) "194 \<le> unat b0" "unat b0 < 224" "2 \<le> length us" | (3) "224 \<le> unat b0" "unat b0 < 240" "3 \<le> length us"  | (4) "240 \<le> unat b0" "unat b0 \<le> 244" "4 \<le> length us"
    using f unfolding us by (fastforce simp: from_utf8_def Let_def word_cmp split: if_splits)
  then show ?thesis
  proof cases
    case 1
    then have "c = ucast b0" "n = 1" using f unfolding us by (auto simp: from_utf8_def Let_def word_cmp)
    moreover have "ucast (ucast b0 :: char32) = b0" by (rule word_eq_unatI) (use 1 in \<open>simp add: unat_ucast_mod\<close>)
    ultimately show ?thesis using 1 unfolding us by (simp add: to_utf8_def word_cmp unat_ucast8)
  next
    case 2
    then obtain b1 r where us: "us = b0 # b1 # r" using us by (cases rest) auto
    from 2 f have "unat b1 div 64 = 2" "c = push6 (ucast (b0 AND 0x1f)) b1" "n = 2" unfolding us
      by (auto simp: from_utf8_def Let_def word_cmp fromUTF8ContSeq_def split: if_splits)
    with to_from_utf8_2[of b0 b1 c] 2 show ?thesis unfolding us by auto
  next
    case 3
    then obtain b1 b2 r where us: "us = b0 # b1 # b2 # r" using us by (cases rest; cases "tl rest") auto
    from 3 f have "unat b1 div 64 = 2" "unat b2 div 64 = 2" "c = push6 (push6 (ucast (b0 AND 0xf)) b1) b2" "n = 3" 
      "2048 \<le> unat c" "\<not> (55296 \<le> unat c \<and> unat c < 57344)" unfolding us
      by (auto simp: from_utf8_def Let_def word_cmp fromUTF8ContSeq_def split: if_splits)
    with to_from_utf8_3[of b0 b1 b2 c] 3 show ?thesis unfolding us by auto
  next
    case 4
    then obtain b1 b2 b3 r where us: "us = b0 # b1 # b2 # b3 # r" using us by (cases rest; cases "tl rest"; cases "tl (tl rest)") auto
    from 4 f have "unat b1 div 64 = 2" "unat b2 div 64 = 2" "unat b3 div 64 = 2" "c = push6 (push6 (push6 (ucast (b0 AND 7)) b1) b2) b3" "n = 4" 
      "65536 \<le> unat c" "unat c < 1114112" unfolding us
      by (auto simp: from_utf8_def Let_def word_cmp fromUTF8ContSeq_def split: if_splits)
    with to_from_utf8_4[of b0 b1 b2 b3 c] 4 show ?thesis unfolding us by auto
  qed
qed

section \<open>UTF-16 and UTF-32\<close>

lemma unat_ucast16: "unat (ucast (w::char16) :: char32) = unat w"
  using unat_bounds(2)[of w] by (simp add: unat_ucast_mod)

lemma unat_pair16: "unat (0x10000 + (push_bit 10 (ucast ((a::char16) AND 0x3ff)) OR ucast ((b::char16) AND 0x3ff)) :: char32)
   = 65536 + (unat a mod 1024 * 1024 + unat b mod 1024)"
proof -
  have "unat (push_bit 10 (ucast (a AND 0x3ff)) OR ucast (b AND 0x3ff) :: char32) = unat a mod 1024 * 1024 + unat b mod 1024"
    by (subst unat_or_add[of 10]) (simp_all only: unat_push_bit unat_ucast16 unat_and_masks, simp_all)
  then show ?thesis by (subst unat_add_lem[THEN iffD1]) simp_all
qed

lemma lead16: "unat (c::char32) < 1048576 \<Longrightarrow> unat (ucast (0xd800 OR drop_bit 10 c) :: char16) = 55296 + unat c div 1024"
  by (simp add: unat_ucast_mod unat_or_add[of 10 "0xd800"] unat_drop_bit)

lemma trail16: "unat (ucast (0xdc00 OR ((c::char32) AND 0x3ff)) :: char16) = 56320 + unat c mod 1024"
  by (simp add: unat_ucast_mod unat_or_add[of 10 "0xdc00"] word_arith)

lemma from_to_utf16:
  assumes "to_utf16 c = Inr us"
  shows "us \<noteq> [] \<and> from_utf16 (us @ rest) = (c, Inr (length us))"
proof (cases "unat c < 65536")
  case True
  then have us: "us = [ucast c]" and r: "\<not> (55296 \<le> unat c \<and> unat c < 57344)"
    using assms by (auto simp add: to_utf16_def word_cmp split: if_splits)
  have "unat (ucast c :: char16) = unat c" using True by (simp add: unat_ucast_mod)
  then show ?thesis using r unfolding us
    by (auto simp: from_utf16_def Let_def word_cmp word_unat_eq_iff unat_ucast_mod)
next
  case False
  define d where "d = c - 0x10000"
  have r: "unat c < 1114112" using assms False by (auto simp add: to_utf16_def word_cmp split: if_splits)
  have d: "unat d = unat c - 65536" unfolding d_def using False by (simp add: unat_sub word_cmp)
  obtain a b where us: "us = [a, b]" and ab: "unat a = 55296 + unat d div 1024" "unat b = 56320 + unat d mod 1024"
    using assms False r lead16[of d] trail16[of d] d
    by (auto simp add: to_utf16_def word_cmp Let_def d_def)
  have "unat a mod 1024 = unat d div 1024" "unat b mod 1024 = unat d mod 1024" 
    unfolding ab using d r mod_base[of 55296 54 1024 "unat d div 1024"] mod_base[of 56320 55 1024 "unat d mod 1024"] by auto
  then have v: "0x10000 + (push_bit 10 (ucast (a AND 0x3ff)) OR ucast (b AND 0x3ff)) = c"
    using d r False by (intro word_eq_unatI) (simp only: unat_pair16, simp)
  have "unat d div 1024 < 1024" using d r by auto
  moreover have "unat d mod 1024 < 1024" by simp
  ultimately show ?thesis using ab unfolding us
    by (auto simp add: from_utf16_def Let_def word_cmp v)
qed

lemma to_from_utf16:
  assumes "us \<noteq> []" and f: "from_utf16 us = (c, Inr n)"
  shows "n \<le> length us \<and> to_utf16 c = Inr (take n us)"
proof -
  obtain a rest where us: "us = a # rest" using assms(1) by (cases us) auto
  show ?thesis
  proof (cases "unat a < 55296 \<or> 57344 \<le> unat a")
    case True
    then have "c = ucast a" "n = 1" using f unfolding us by (auto simp: from_utf16_def Let_def word_cmp)
    moreover have "ucast (ucast a :: char32) = a" by (rule word_eq_unatI) (use unat_bounds(2)[of a] in \<open>simp add: unat_ucast_mod\<close>)
    ultimately show ?thesis using True unat_bounds(2)[of a] unfolding us by (auto simp: to_utf16_def word_cmp unat_ucast16)
  next
    case False
    then obtain b r where us: "us = a # b # r" using f us by (cases rest) (auto simp: from_utf16_def Let_def word_cmp split: if_splits)
    have c: "c = 0x10000 + (push_bit 10 (ucast (a AND 0x3ff)) OR ucast (b AND 0x3ff))" "n = 2" and ab: "55296 \<le> unat a" "unat a < 56320" "56320 \<le> unat b" "unat b < 57344"
      using f False unfolding us by (auto simp: from_utf16_def Let_def word_cmp split: if_splits)
    define h l where "h = unat a mod 1024" and "l = unat b mod 1024"
    have hl: "unat a = 55296 + h" "unat b = 56320 + l" "h < 1024" "l < 1024"
      using ab lead_byte[of 55296 54 1024 "unat a"] lead_byte[of 56320 55 1024 "unat b"] by (simp_all add: h_def l_def)
    have n: "unat c = 65536 + (h * 1024 + l)" unfolding c unat_pair16 h_def l_def by simp
    define d where "d = c - 0x10000"
    have d: "unat d = h * 1024 + l" unfolding d_def using n by (simp add: unat_sub word_cmp)
    have "unat d div 1024 = h" "unat d mod 1024 = l" unfolding d using hl by simp_all
    then have "ucast (0xd800 OR drop_bit 10 d) = a" "ucast (0xdc00 OR (d AND 0x3ff)) = b"
      using lead16[of d] trail16[of d] hl d by (auto intro!: word_eq_unatI)
    then show ?thesis using n hl c(2) unfolding us by (simp add: to_utf16_def word_cmp Let_def d_def)
  qed
qed

lemma from_to_utf32: "to_utf32 c = Inr us \<Longrightarrow> us \<noteq> [] \<and> from_utf32 (us @ rest) = (c, Inr (length us))"
  by (auto simp: to_utf32_def from_utf32_def Let_def split: if_splits)

lemma to_from_utf32: "us \<noteq> [] \<Longrightarrow> from_utf32 us = (c, Inr n) \<Longrightarrow> n \<le> length us \<and> to_utf32 c = Inr (take n us)"
  by (cases us) (auto simp: to_utf32_def from_utf32_def Let_def split: if_splits)

section \<open>The interface of a codec\<close>

text \<open>
  \<open>unicode_codec\<close> states what the templates over code unit types rely on: encoding is
  defined exactly on the valid code points, decoding inverts it on any buffer that starts
  with the encoding, accepts nothing but encodings, and the leading unit of an encoding is
  the only one that is a leading unit.
\<close>

locale unicode_codec =
  fixes to_utf :: "char32 \<Rightarrow> unicode_error + 'c list"
    and from_utf :: "'c list \<Rightarrow> char32 \<times> (unicode_error + nat)"
    and stride :: "'c list \<Rightarrow> unicode_error + nat"
    and is_leading :: "'c \<Rightarrow> bool"
  assumes to_utf_valid: "isValidCodePoint c \<longleftrightarrow> (\<exists>us. to_utf c = Inr us)"
    and from_to_utf: "to_utf c = Inr us \<Longrightarrow> us \<noteq> [] \<and> from_utf (us @ rest) = (c, Inr (length us))"
    and to_from_utf: "us \<noteq> [] \<Longrightarrow> from_utf us = (c, Inr n) \<Longrightarrow>
      n \<le> length us \<and> to_utf c = Inr (take n us)"
    and stride_to_utf: "to_utf c = Inr us \<Longrightarrow> stride (us @ rest) = Inr (length us)"
    and leading_to_utf: "to_utf c = Inr us \<Longrightarrow>
      is_leading (hd us) \<and> (\<forall>u \<in> set (tl us). \<not> is_leading u)"
begin

lemma to_utf_Cons: "to_utf c = Inr us \<Longrightarrow> \<exists>u r. us = u # r"
  using from_to_utf[of c us "[]"] by (cases us) auto

lemma from_utf_stride_pos: "us \<noteq> [] \<Longrightarrow> from_utf us = (c, Inr n) \<Longrightarrow> 0 < n"
proof (rule ccontr)
  assume us: "us \<noteq> []" "from_utf us = (c, Inr n)" and "\<not> 0 < n"
  then have "to_utf c = Inr []" using to_from_utf[OF us] by simp
  then show False using to_utf_Cons by blast
qed

lemma from_utf_valid: "us \<noteq> [] \<Longrightarrow> from_utf us = (c, Inr n) \<Longrightarrow> isValidCodePoint c"
  using to_from_utf to_utf_valid by blast

lemma to_utf_inj: "to_utf c = Inr us \<Longrightarrow> to_utf d = Inr us \<Longrightarrow> c = d"
  using from_to_utf[of c us "[]"] from_to_utf[of d us "[]"] by simp

text \<open>No encoding is a proper prefix of another one.\<close>

lemma to_utf_prefix_free:
  "to_utf c = Inr us \<Longrightarrow> to_utf d = Inr vs \<Longrightarrow> us @ r = vs @ s \<Longrightarrow> c = d \<and> us = vs \<and> r = s"
  by (drule from_to_utf[of c us r], drule from_to_utf[of d vs s]) simp

end

lemma valid_to_utf8: "isValidCodePoint c \<longleftrightarrow> (\<exists>us. to_utf8 c = Inr us)"
  by (auto simp: isValidCodePoint_def to_utf8_def word_cmp)

lemma valid_to_utf16: "isValidCodePoint c \<longleftrightarrow> (\<exists>us. to_utf16 c = Inr us)"
  by (auto simp: isValidCodePoint_def to_utf16_def word_cmp Let_def)

lemma valid_to_utf32: "isValidCodePoint c \<longleftrightarrow> (\<exists>us. to_utf32 c = Inr us)"
  by (auto simp: isValidCodePoint_def to_utf32_def word_cmp)

text \<open>The shape of an encoding, read as numbers.\<close>

lemma to_utf8_shape:
  assumes "to_utf8 c = Inr us"
  shows "\<exists>b r. us = b # r \<and> (\<forall>u \<in> set r. unat u div 64 = 2) \<and>
    (length r = 0 \<and> unat b < 128 \<or> length r = 1 \<and> 194 \<le> unat b \<and> unat b < 224 \<or>
     length r = 2 \<and> 224 \<le> unat b \<and> unat b < 240 \<or> length r = 3 \<and> 240 \<le> unat b \<and> unat b \<le> 244)"
proof -
  have b1: "unat c < 128 \<Longrightarrow> unat (ucast c :: u8) < 128"
    by (simp add: unat_ucast_mod)
  have b2: "128 \<le> unat c \<Longrightarrow> unat c < 2048 \<Longrightarrow>
      194 \<le> unat (ucast (0xc0 OR drop_bit 6 c) :: u8) \<and> unat (ucast (0xc0 OR drop_bit 6 c) :: u8) < 224"
    by (simp only: lead2) auto
  have b3: "unat c < 65536 \<Longrightarrow>
      224 \<le> unat (ucast (0xe0 OR drop_bit 12 c) :: u8) \<and> unat (ucast (0xe0 OR drop_bit 12 c) :: u8) < 240"
    by (simp only: lead3) auto
  have b4: "unat c < 1114112 \<Longrightarrow>
      240 \<le> unat (ucast (0xf0 OR drop_bit 18 c) :: u8) \<and> unat (ucast (0xf0 OR drop_bit 18 c) :: u8) \<le> 244"
    by (simp only: lead4) auto
  have k: "unat (ucast (0x80 OR (x AND 0x3f)) :: u8) div 64 = 2" for x :: char32
    by (simp only: cont cont_div)
  show ?thesis
    using assms b1 b2 b3 b4 k unfolding to_utf8_def word_cmp
    by (auto split: if_splits)
qed

lemma stride_to_utf8: "to_utf8 c = Inr us \<Longrightarrow> getUTFStride8 (us @ rest) = Inr (length us)"
  by (drule to_utf8_shape) (auto simp: getUTFStride8_def Let_def word_cmp)

lemma leading_to_utf8:
  assumes "to_utf8 c = Inr us"
  shows "isLeading8 (hd us) \<and> (\<forall>u \<in> set (tl us). \<not> isLeading8 u)"
proof -
  have "unat u div 64 = 2 \<Longrightarrow> \<not> isLeading8 u" for u
    using cont_byte[of u] by (auto simp: isLeading8_def word_cmp)
  then show ?thesis using to_utf8_shape[OF assms] by (auto simp: isLeading8_def word_cmp)
qed

lemma to_utf16_shape:
  assumes "to_utf16 c = Inr us"
  shows "(\<exists>u. us = [u] \<and> (unat u < 55296 \<or> 57344 \<le> unat u)) \<or>
    (\<exists>u v. us = [u, v] \<and> 55296 \<le> unat u \<and> unat u < 56320 \<and> 56320 \<le> unat v \<and> unat v < 57344)"
proof (cases "unat c < 65536")
  case True
  then have "us = [ucast c]" "unat (ucast c :: char16) = unat c" "unat c < 55296 \<or> 57344 \<le> unat c"
    using assms by (auto simp: to_utf16_def word_cmp unat_ucast_mod split: if_splits)
  then show ?thesis by simp
next
  case False
  define d where "d = c - 0x10000"
  have "unat c < 1114112" using assms False by (auto simp: to_utf16_def word_cmp split: if_splits)
  then have d: "unat d < 1048576" unfolding d_def using False by (simp add: unat_sub word_cmp)
  have "us = [ucast (0xd800 OR drop_bit 10 d), ucast (0xdc00 OR (d AND 0x3ff))]"
    using assms False by (auto simp: to_utf16_def word_cmp Let_def d_def split: if_splits)
  moreover have "unat d div 1024 < 1024" using d by auto
  ultimately show ?thesis using lead16[OF d] trail16[of d] by simp
qed

lemma stride_to_utf16: "to_utf16 c = Inr us \<Longrightarrow> getUTFStride16 (us @ rest) = Inr (length us)"
  by (drule to_utf16_shape) (auto simp: getUTFStride16_def Let_def word_cmp)

lemma leading_to_utf16: "to_utf16 c = Inr us \<Longrightarrow> isLeading16 (hd us) \<and> (\<forall>u \<in> set (tl us). \<not> isLeading16 u)"
  by (drule to_utf16_shape) (auto simp: isLeading16_def word_cmp)

interpretation utf8: unicode_codec to_utf8 from_utf8 getUTFStride8 isLeading8
  by unfold_locales (rule valid_to_utf8 from_to_utf8 to_from_utf8 stride_to_utf8 leading_to_utf8; assumption)+

interpretation utf16: unicode_codec to_utf16 from_utf16 getUTFStride16 isLeading16
  by unfold_locales (rule valid_to_utf16 from_to_utf16 to_from_utf16 stride_to_utf16 leading_to_utf16; assumption)+

lemma stride_to_utf32: "to_utf32 c = Inr us \<Longrightarrow> getUTFStride32 (us @ rest) = Inr (length us)"
  by (auto simp: to_utf32_def getUTFStride32_def split: if_splits)

lemma leading_to_utf32: "to_utf32 c = Inr us \<Longrightarrow> isLeading32 (hd us) \<and> (\<forall>u \<in> set (tl us). \<not> isLeading32 u)"
  by (auto simp: to_utf32_def isLeading32_def split: if_splits)

interpretation utf32: unicode_codec to_utf32 from_utf32 getUTFStride32 isLeading32
  by unfold_locales (rule valid_to_utf32 from_to_utf32 to_from_utf32 stride_to_utf32 leading_to_utf32; assumption)+

end
