(* ===== verification/UtfStrings.thy ===== *)
theory UtfStrings
  imports Utf
begin

text \<open>
  The algorithms of \<open>vm/vm/main/utf.hh\<close> over whole strings: iteration by code points,
  conversion and validation, comparison by code point, counting and slicing by code points.
  They are templates over the code unit type: the coders of that type are arguments, and the
  lemmas are proved once in \<open>unicode_codec\<close>.
\<close>

section \<open>Iteration\<close>

text \<open>
  \<open>forEachCodePoint\<close> walks the string and threads the state \<open>'s\<close> its two callbacks
  capture by reference; each callback also says whether to continue. Every turn of the loop
  consumes at least one unit, so the length of the string is enough fuel
  (\<open>forEachLoop_fuel\<close>).
\<close>

fun forEachLoop ::
  "nat \<Rightarrow> ('c list \<Rightarrow> char32 \<times> (unicode_error + nat)) \<Rightarrow> (char32 \<Rightarrow> 's \<Rightarrow> bool \<times> 's) \<Rightarrow>
   ('c \<Rightarrow> unicode_error \<Rightarrow> 's \<Rightarrow> bool \<times> 's) \<Rightarrow> 'c list \<Rightarrow> 's \<Rightarrow> 's" where
  "forEachLoop 0 from_utf onChar onError cur s = s"
| "forEachLoop (Suc fuel) from_utf onChar onError cur s =
     (if cur = [] then s
      else (case from_utf cur of
              (_, Inl e) \<Rightarrow>
                (case onError (hd cur) e s of
                   (cont, s) \<Rightarrow>
                     if cont then forEachLoop fuel from_utf onChar onError (tl cur) s else s)
            | (codePoint, Inr n) \<Rightarrow>
                (case onChar codePoint s of
                   (cont, s) \<Rightarrow>
                     if cont then forEachLoop fuel from_utf onChar onError (drop n cur) s else s)))"

definition forEachCodePoint ::
  "('c list \<Rightarrow> char32 \<times> (unicode_error + nat)) \<Rightarrow> (char32 \<Rightarrow> 's \<Rightarrow> bool \<times> 's) \<Rightarrow>
   ('c \<Rightarrow> unicode_error \<Rightarrow> 's \<Rightarrow> bool \<times> 's) \<Rightarrow> 'c list \<Rightarrow> 's \<Rightarrow> 's" where
  "forEachCodePoint from_utf onChar onError str s =
     forEachLoop (length str) from_utf onChar onError str s"

section \<open>Conversion\<close>

text \<open>
  \<open>UTFConvertor<To, From>\<close>: the state of the two lambdas is the vector of encoded units
  and the current error (\<open>None\<close> for \<open>empty\<close>).
\<close>

definition toUTF_convert ::
  "('a list \<Rightarrow> char32 \<times> (unicode_error + nat)) \<Rightarrow> (char32 \<Rightarrow> unicode_error + 'b list) \<Rightarrow>
   'a lstring \<Rightarrow> 'b lstring" where
  "toUTF_convert from_utf to_utf input =
     (if isErrorOrEmpty input then ls_error input
      else (case input of
          LErr e \<Rightarrow> LErr e
        | LStr str \<Rightarrow>
            (case forEachCodePoint from_utf
                    (\<lambda>codePoint (tempVector, curError).
                       case to_utf codePoint of
                         Inl e \<Rightarrow> (False, (tempVector, Some e))
                       | Inr encoded \<Rightarrow> (True, (tempVector @ encoded, curError)))
                    (\<lambda>_ reason (tempVector, curError). (False, (tempVector, Some reason)))
                    str ([], None) of
               (tempVector, Some e) \<Rightarrow> LErr e
             | (tempVector, None) \<Rightarrow> LStr tempVector)))"

text \<open>\<open>UTFConvertor<To, To>\<close> only validates and returns a copy.\<close>

definition toUTF_validate ::
  "('a list \<Rightarrow> char32 \<times> (unicode_error + nat)) \<Rightarrow> 'a lstring \<Rightarrow> 'a lstring" where
  "toUTF_validate from_utf input =
     (if isErrorOrEmpty input then ls_error input
      else (case input of
          LErr e \<Rightarrow> LErr e
        | LStr str \<Rightarrow>
            (case forEachCodePoint from_utf (\<lambda>_ curError. (True, curError))
                    (\<lambda>_ reason curError. (False, Some reason)) str None of
               Some e \<Rightarrow> LErr e
             | None \<Rightarrow> LStr str)))"

section \<open>Comparison\<close>

text \<open>
  \<open>std::char_traits<C>::compare\<close> of the first \<open>n\<close> units, as unsigned values; only the
  sign of its result is specified, and it is normalised to -1, 0 or 1 here.
\<close>

fun units_compare :: "nat \<Rightarrow> 'c::linorder list \<Rightarrow> 'c list \<Rightarrow> int" where
  "units_compare (Suc n) (a # as) (b # bs) =
     (if a < b then -1 else if b < a then 1 else units_compare n as bs)"
| "units_compare _ _ _ = 0"

definition length_compare :: "'c list \<Rightarrow> 'c list \<Rightarrow> int" where
  "length_compare a b =
     (if length a < length b then -1 else if length a > length b then 1 else 0)"

definition compareByCodePoint :: "bool \<Rightarrow> 'c::linorder list \<Rightarrow> 'c list \<Rightarrow> int" where
  "compareByCodePoint same_ptr a b =
     (if same_ptr then length_compare a b
      else (let compareRes = units_compare (min (length a) (length b)) a b
            in if compareRes \<noteq> 0 then compareRes else length_compare a b))"

text \<open>The UTF-16 specialisation: surrogates rank above the rest of the units.\<close>

fun compareLoop16 :: "nat \<Rightarrow> char16 list \<Rightarrow> char16 list \<Rightarrow> int option" where
  "compareLoop16 (Suc minLength) (aa # as) (bb # bs) =
     (if aa = bb then compareLoop16 minLength as bs
      else (let aIsSurrogate = (0xd800 \<le> aa \<and> aa < 0xe000);
                bIsSurrogate = (0xd800 \<le> bb \<and> bb < 0xe000)
            in if aIsSurrogate = bIsSurrogate then Some (if aa < bb then -1 else 1)
               else Some (if aIsSurrogate then 1 else -1)))"
| "compareLoop16 _ _ _ = None"

definition compareByCodePoint16 :: "bool \<Rightarrow> char16 list \<Rightarrow> char16 list \<Rightarrow> int" where
  "compareByCodePoint16 same_ptr a b =
     (if same_ptr then length_compare a b
      else (case compareLoop16 (min (length a) (length b)) a b of
              Some r \<Rightarrow> r
            | None \<Rightarrow> length_compare a b))"

section \<open>Counting and slicing\<close>

definition codePointCount :: "bool \<Rightarrow> ('c \<Rightarrow> bool) \<Rightarrow> 'c lstring \<Rightarrow> int" where
  "codePointCount is_char32 is_leading input =
     (if is_char32 \<or> isErrorOrEmpty input then ls_length input
      else (case input of
              LErr e \<Rightarrow> ls_length input
            | LStr s \<Rightarrow> int (length (filter is_leading s))))"

text \<open>
  \<open>skipCodePoints\<close> moves \<open>iter\<close> (an index into the buffer) over \<open>count\<close> code points. The
  loop reads the unit it has just moved to, which is the one past the end of the string when
  \<open>iter\<close> reaches \<open>end\<close>: that unit is the argument \<open>past\<close>.
\<close>

function skipCodePoints ::
  "('c \<Rightarrow> bool) \<Rightarrow> 'c list \<Rightarrow> 'c \<Rightarrow> nat \<Rightarrow> int \<Rightarrow> nat \<times> bool" where
  "skipCodePoints is_leading str past iter count =
     (if count > 0 \<and> iter < length str then
        skipCodePoints is_leading str past (Suc iter)
          (if is_leading (if Suc iter < length str then str ! Suc iter else past)
           then count - 1 else count)
      else (iter, count = 0))"
  by pat_completeness auto
termination
  by (relation "measure (\<lambda>(_, str, _, iter, _). length str - iter)") auto

declare skipCodePoints.simps [simp del]

definition sliceByCodePointsFromTo ::
  "bool \<Rightarrow> ('c \<Rightarrow> bool) \<Rightarrow> 'c \<Rightarrow> 'c list \<Rightarrow> int \<Rightarrow> int \<Rightarrow> 'c lstring option" where
  "sliceByCodePointsFromTo is_char32 is_leading past input from to =
     (if from < 0 \<or> to < from then Some (LErr IndexOutOfBounds)
      else if is_char32 then
        (if to > int (length input) then Some (LErr IndexOutOfBounds)
         else ls_slice (LStr input) (nat from) (nat to))
      else
        (case skipCodePoints is_leading input past 0 from of
           (begin, ok) \<Rightarrow>
             if \<not> ok then Some (LErr IndexOutOfBounds)
             else (case skipCodePoints is_leading input past begin (to - from) of
                     (end, ok) \<Rightarrow>
                       if \<not> ok then Some (LErr IndexOutOfBounds)
                       else ls_slice (LStr input) begin end)))"

definition sliceByCodePointsFrom ::
  "bool \<Rightarrow> ('c \<Rightarrow> bool) \<Rightarrow> 'c \<Rightarrow> 'c list \<Rightarrow> int \<Rightarrow> 'c lstring option" where
  "sliceByCodePointsFrom is_char32 is_leading past input from =
     (if from < 0 then Some (LErr IndexOutOfBounds)
      else if is_char32 then
        (if from > int (length input) then Some (LErr IndexOutOfBounds)
         else ls_slice_from (LStr input) (nat from))
      else
        (case skipCodePoints is_leading input past 0 from of
           (begin, ok) \<Rightarrow>
             if \<not> ok then Some (LErr IndexOutOfBounds)
             else ls_slice_from (LStr input) begin))"

section \<open>Code point sequences\<close>

text \<open>The specification: a well-formed string is the encoding of a sequence of code points.\<close>

definition enc :: "(char32 \<Rightarrow> unicode_error + 'c list) \<Rightarrow> char32 \<Rightarrow> 'c list" where
  "enc to_utf c = (case to_utf c of Inr us \<Rightarrow> us | Inl _ \<Rightarrow> [])"

definition encode_all :: "(char32 \<Rightarrow> unicode_error + 'c list) \<Rightarrow> char32 list \<Rightarrow> 'c list" where
  "encode_all to_utf cps = concat (map (enc to_utf) cps)"

lemma encode_all_simps [simp]:
  "encode_all to_utf [] = []"
  "encode_all to_utf (c # cs) = enc to_utf c @ encode_all to_utf cs"
  "encode_all to_utf (cs @ ds) = encode_all to_utf cs @ encode_all to_utf ds"
  by (simp_all add: encode_all_def)

text \<open>The loop over code points, without the encoding.\<close>

fun each_code_point :: "(char32 \<Rightarrow> 's \<Rightarrow> bool \<times> 's) \<Rightarrow> char32 list \<Rightarrow> 's \<Rightarrow> 's" where
  "each_code_point onChar [] s = s"
| "each_code_point onChar (c # cs) s =
     (case onChar c s of (cont, s) \<Rightarrow> if cont then each_code_point onChar cs s else s)"

context unicode_codec
begin

lemma valid_enc: "isValidCodePoint c \<Longrightarrow> to_utf c = Inr (enc to_utf c)"
  using to_utf_valid[of c] by (auto simp: enc_def)

lemma enc_nonempty: "isValidCodePoint c \<Longrightarrow> enc to_utf c \<noteq> []"
  using from_to_utf[OF valid_enc] by blast

lemma from_enc: "isValidCodePoint c \<Longrightarrow> from_utf (enc to_utf c @ rest) = (c, Inr (length (enc to_utf c)))"
  using from_to_utf[OF valid_enc] by blast

lemma forEachLoop_fuel:
  "length cur \<le> fuel \<Longrightarrow> length cur \<le> fuel' \<Longrightarrow>
   forEachLoop fuel from_utf f g cur s = forEachLoop fuel' from_utf f g cur s"
proof (induction fuel arbitrary: fuel' cur s)
  case 0
  then show ?case by (cases fuel') auto
next
  case (Suc fuel)
  show ?case
  proof (cases "cur = []")
    case True
    then show ?thesis by (cases fuel') auto
  next
    case False
    then obtain k where k: "fuel' = Suc k" using Suc.prems by (cases fuel') auto
    have "length (tl cur) \<le> fuel" "length (tl cur) \<le> k" using Suc.prems k False by (auto simp: Suc_le_eq)
    moreover have "length (drop n cur) \<le> fuel \<and> length (drop n cur) \<le> k" if "from_utf cur = (c, Inr n)" for c n
      using from_utf_stride_pos[OF False that] Suc.prems k by auto
    ultimately show ?thesis using False k Suc.IH[of _ k]
      by (auto split: prod.splits sum.splits)
  qed
qed

text \<open>The equation of the loop in \<open>forEachCodePoint\<close>.\<close>

lemma forEachCodePoint_unfold:
  "forEachCodePoint from_utf f g cur s =
     (if cur = [] then s
      else (case from_utf cur of
              (_, Inl e) \<Rightarrow> (case g (hd cur) e s of
                 (cont, s) \<Rightarrow> if cont then forEachCodePoint from_utf f g (tl cur) s else s)
            | (c, Inr n) \<Rightarrow> (case f c s of
                 (cont, s) \<Rightarrow> if cont then forEachCodePoint from_utf f g (drop n cur) s else s)))"
proof (cases "cur = []")
  case True
  then show ?thesis by (simp add: forEachCodePoint_def)
next
  case False
  then obtain k where k: "length cur = Suc k" by (cases cur) auto
  have "length (drop n cur) \<le> k" if "from_utf cur = (c, Inr n)" for c n
    using from_utf_stride_pos[OF False that] k by auto
  then show ?thesis using False k
    by (auto simp: forEachCodePoint_def split: prod.splits sum.splits intro!: forEachLoop_fuel)
qed

lemma forEachCodePoint_Nil [simp]: "forEachCodePoint from_utf f g [] s = s"
  by (simp add: forEachCodePoint_def)

lemma forEachCodePoint_enc:
  "isValidCodePoint c \<Longrightarrow> forEachCodePoint from_utf f g (enc to_utf c @ rest) s =
     (case f c s of (cont, s) \<Rightarrow> if cont then forEachCodePoint from_utf f g rest s else s)"
  by (subst forEachCodePoint_unfold) (simp add: from_enc enc_nonempty split: prod.split)

lemma forEachCodePoint_encode_all:
  "list_all isValidCodePoint cps \<Longrightarrow>
   forEachCodePoint from_utf f g (encode_all to_utf cps) s = each_code_point f cps s"
  by (induction cps arbitrary: s) (auto simp: forEachCodePoint_enc split: prod.splits)


lemma forEachCodePoint_stop:
  "list_all isValidCodePoint cps \<Longrightarrow> rest \<noteq> [] \<Longrightarrow> from_utf rest = (c, Inl e) \<Longrightarrow>
   (\<And>c s. fst (f c s)) \<Longrightarrow>
   forEachCodePoint from_utf f g (encode_all to_utf cps @ rest) s =
     (case g (hd rest) e (each_code_point f cps s) of
        (cont, s) \<Rightarrow> if cont then forEachCodePoint from_utf f g (tl rest) s else s)"
proof (induction cps arbitrary: s)
  case Nil
  then show ?case by (simp add: forEachCodePoint_unfold [of f g rest])
next
  case (Cons d ds)
  obtain s' where "f d s = (True, s')"
    using Cons.prems(4)[of d s] by (cases "f d s") auto
  with Cons show ?case by (simp add: forEachCodePoint_enc)
qed

text \<open>Every string is an encoding, or an encoding followed by the first ill-formed place.\<close>

lemma well_formed_or_stuck:
  "(\<exists>cps. list_all isValidCodePoint cps \<and> str = encode_all to_utf cps) \<or>
   (\<exists>cps rest c e. list_all isValidCodePoint cps \<and> str = encode_all to_utf cps @ rest \<and>
      rest \<noteq> [] \<and> from_utf rest = (c, Inl e))"
proof (induction str rule: length_induct)
  case (1 str)
  show ?case
  proof (cases "str = []")
    case True
    then show ?thesis by (auto intro: exI[of _ "[]"])
  next
    case False
    show ?thesis
    proof (cases "from_utf str")
      case (Pair c r)
      show ?thesis
      proof (cases r)
        case (Inl e)
        then show ?thesis using False Pair
          by (intro disjI2 exI[of _ "[]"] exI[of _ str]) auto
      next
        case (Inr n)
        have n: "n \<le> length str" "to_utf c = Inr (take n str)" "0 < n"
          using to_from_utf[OF False] from_utf_stride_pos[OF False] Pair Inr by auto
        then have c: "isValidCodePoint c" "enc to_utf c = take n str"
          using to_utf_valid by (auto simp: enc_def)
        have str: "str = enc to_utf c @ drop n str" using c by simp
        have "length (drop n str) < length str" using n by auto
        with "1.IH" consider
          cps where "list_all isValidCodePoint cps" "drop n str = encode_all to_utf cps"
          | cps rest d e where "list_all isValidCodePoint cps" "drop n str = encode_all to_utf cps @ rest"
             "rest \<noteq> []" "from_utf rest = (d, Inl e)"
          by blast
        then show ?thesis
        proof cases
          case 1
          then have "list_all isValidCodePoint (c # cps) \<and> str = encode_all to_utf (c # cps)"
            using c str by simp
          then show ?thesis by blast
        next
          case 2
          then have "list_all isValidCodePoint (c # cps) \<and> str = encode_all to_utf (c # cps) @ rest"
            using c str by simp
          then show ?thesis using 2 by blast
        qed
      qed
    qed
  qed
qed

lemma encode_all_empty_iff:
  "list_all isValidCodePoint cps \<Longrightarrow> encode_all to_utf cps = [] \<longleftrightarrow> cps = []"
  by (cases cps) (auto simp: enc_nonempty)

lemma validate_well_formed:
  assumes "list_all isValidCodePoint cps"
  shows "toUTF_validate from_utf (LStr (encode_all to_utf cps)) = LStr (encode_all to_utf cps)"
proof -
  have "each_code_point (\<lambda>_ curError. (True, curError)) cps s = s" for s :: "unicode_error option"
    by (induction cps arbitrary: s) auto
  then show ?thesis using assms
    by (auto simp: toUTF_validate_def forEachCodePoint_encode_all)
qed

lemma validate_stuck:
  assumes "list_all isValidCodePoint cps" "rest \<noteq> []" "from_utf rest = (c, Inl e)"
  shows "toUTF_validate from_utf (LStr (encode_all to_utf cps @ rest)) = LErr e"
proof -
  have "forEachCodePoint from_utf (\<lambda>_ curError. (True, curError)) (\<lambda>_ reason curError. (False, Some reason))
      (encode_all to_utf cps @ rest) None = Some e"
    by (subst forEachCodePoint_stop[OF assms]) auto
  then show ?thesis using assms(2) by (simp add: toUTF_validate_def)
qed

text \<open>Validation accepts exactly the encodings.\<close>

lemma validate_iff:
  "toUTF_validate from_utf (LStr str) = LStr str \<longleftrightarrow>
   (\<exists>cps. list_all isValidCodePoint cps \<and> str = encode_all to_utf cps)"
  using well_formed_or_stuck[of str] validate_well_formed validate_stuck by fastforce

lemma convert_well_formed:
  assumes "list_all isValidCodePoint cps" and "\<And>c. isValidCodePoint c \<Longrightarrow> to' c = Inr (enc to' c)"
  shows "toUTF_convert from_utf to' (LStr (encode_all to_utf cps)) = LStr (encode_all to' cps)"
proof -
  let ?f = "\<lambda>codePoint (tempVector, curError). case to' codePoint of
      Inl e \<Rightarrow> (False, (tempVector, Some e)) | Inr encoded \<Rightarrow> (True, (tempVector @ encoded, curError))"
  have "each_code_point ?f cps (v, None) = (v @ encode_all to' cps, None)" for v
    using assms(1)
  proof (induction cps arbitrary: v)
    case (Cons c cs)
    have "to' c = Inr (enc to' c)" using Cons.prems assms(2) by simp
    with Cons show ?case by simp
  qed simp
  from this[of "[]"] show ?thesis using assms(1)
    by (auto simp: toUTF_convert_def forEachCodePoint_encode_all encode_all_empty_iff)
qed

lemma convert_stuck:
  assumes "list_all isValidCodePoint cps" "rest \<noteq> []" "from_utf rest = (c, Inl e)"
    and to': "\<And>c. isValidCodePoint c \<Longrightarrow> to' c = Inr (enc to' c)"
  shows "toUTF_convert from_utf to' (LStr (encode_all to_utf cps @ rest)) = LErr e"
proof -
  let ?f = "\<lambda>codePoint (tempVector, curError). case to' codePoint of
      Inl e \<Rightarrow> (False, (tempVector, Some e)) | Inr encoded \<Rightarrow> (True, (tempVector @ encoded, curError))"
  let ?g = "\<lambda>_ reason (tempVector, curError). (False, (tempVector, Some reason))"
  have "snd (forEachCodePoint from_utf ?f ?g (encode_all to_utf cps @ rest) (v, None)) = Some e" for v
    using assms(1)
  proof (induction cps arbitrary: v)
    case Nil
    then show ?case using assms(2,3) by (simp add: forEachCodePoint_unfold [of ?f ?g rest])
  next
    case (Cons d ds)
    then show ?case using to'[of d] by (simp add: forEachCodePoint_enc)
  qed
  from this[of "[]"] show ?thesis using assms(2)
    by (auto simp: toUTF_convert_def split: prod.splits)
qed

subsection \<open>Counting and slicing\<close>

lemma filter_leading_enc:
  "isValidCodePoint c \<Longrightarrow> length (filter is_leading (enc to_utf c)) = 1"
  using leading_to_utf[OF valid_enc, of c] enc_nonempty[of c]
  by (cases "enc to_utf c") auto

lemma count_encode_all:
  "list_all isValidCodePoint cps \<Longrightarrow>
   codePointCount False is_leading (LStr (encode_all to_utf cps)) = int (length cps)"
proof -
  assume "list_all isValidCodePoint cps"
  then have "length (filter is_leading (encode_all to_utf cps)) = length cps"
    by (induction cps) (auto simp: filter_leading_enc)
  then show ?thesis by (auto simp: codePointCount_def)
qed

text \<open>
  Skipping: inside an encoding the loop only passes units that do not lead, so it stops at
  the boundaries of code points; at the end of the string it needs the unit past the end to
  be a leading one.
\<close>

lemma skip_0: "skipCodePoints is_leading str past i 0 = (i, True)"
  by (subst skipCodePoints.simps) simp

lemma skip_trailing:
  "list_all (\<lambda>u. \<not> is_leading u) vs \<Longrightarrow> str = pre @ u # vs @ post \<Longrightarrow> count > 0 \<Longrightarrow>
   (if post = [] then is_leading past else is_leading (hd post)) \<Longrightarrow>
   skipCodePoints is_leading str past (length pre) count =
     skipCodePoints is_leading str past (length pre + Suc (length vs)) (count - 1)"
proof (induction vs arbitrary: pre u)
  case Nil
  then show ?case
    by (subst skipCodePoints.simps) (cases post; simp add: nth_append)
next
  case (Cons v vs)
  have "str ! Suc (length pre) = v" using Cons.prems(2) by (simp add: nth_append)
  then have "skipCodePoints is_leading str past (length pre) count =
      skipCodePoints is_leading str past (length (pre @ [u])) count"
    using Cons.prems by (subst skipCodePoints.simps) simp
  also have "\<dots> = skipCodePoints is_leading str past (length (pre @ [u]) + Suc (length vs)) (count - 1)"
    using Cons.prems by (intro Cons.IH[of "pre @ [u]" v]) auto
  finally show ?case by simp
qed

lemma skip_enc:
  assumes c: "isValidCodePoint c" and str: "str = pre @ enc to_utf c @ post" and "count > 0"
    and "if post = [] then is_leading past else is_leading (hd post)"
  shows "skipCodePoints is_leading str past (length pre) count =
    skipCodePoints is_leading str past (length (pre @ enc to_utf c)) (count - 1)"
proof -
  obtain u vs where us: "enc to_utf c = u # vs" using enc_nonempty[OF c] by (cases "enc to_utf c") auto
  then have "list_all (\<lambda>u. \<not> is_leading u) vs"
    using leading_to_utf[OF valid_enc[OF c]] by (simp add: list_all_iff)
  from skip_trailing[OF this, of str pre u post count past] assms us show ?thesis by simp
qed

lemma hd_encode_all:
  "list_all isValidCodePoint cps \<Longrightarrow> cps \<noteq> [] \<Longrightarrow> is_leading (hd (encode_all to_utf cps))"
  using leading_to_utf[OF valid_enc] enc_nonempty by (cases cps) auto

lemma skip_encode_all:
  assumes "list_all isValidCodePoint (cs @ ds)" and "is_leading past"
    and "str = pre @ encode_all to_utf (cs @ ds)" and "int (length cs) \<le> count"
  shows "skipCodePoints is_leading str past (length pre) count =
    skipCodePoints is_leading str past (length (pre @ encode_all to_utf cs)) (count - int (length cs))"
  using assms
proof (induction cs arbitrary: pre count)
  case Nil
  then show ?case by simp
next
  case (Cons c cs)
  let ?post = "encode_all to_utf (cs @ ds)"
  have "if ?post = [] then is_leading past else is_leading (hd ?post)"
  proof (cases "cs @ ds = []")
    case False
    then have "?post \<noteq> []" using Cons.prems(1) encode_all_empty_iff[of "cs @ ds"] by simp
    moreover have "is_leading (hd ?post)" using False Cons.prems(1) hd_encode_all[of "cs @ ds"] by simp
    ultimately show ?thesis by (simp del: encode_all_simps)
  qed (use Cons.prems in simp)
  then have "skipCodePoints is_leading str past (length pre) count =
      skipCodePoints is_leading str past (length (pre @ enc to_utf c)) (count - 1)"
    using Cons.prems by (intro skip_enc[of c _ _ ?post]) auto
  also have "\<dots> = skipCodePoints is_leading str past
      (length ((pre @ enc to_utf c) @ encode_all to_utf cs)) (count - 1 - int (length cs))"
    using Cons.prems by (intro Cons.IH) auto
  finally show ?case by (simp add: algebra_simps)
qed

lemma skip_at_end: "iter \<ge> length str \<Longrightarrow> skipCodePoints is_leading str past iter count = (iter, count = 0)"
  by (subst skipCodePoints.simps) simp

lemma skip_result:
  assumes "list_all isValidCodePoint (cs @ ds)" "is_leading past" "0 \<le> count"
  shows "skipCodePoints is_leading (encode_all to_utf (cs @ ds)) past (length (encode_all to_utf cs)) count =
    (if count \<le> int (length ds)
     then (length (encode_all to_utf (cs @ take (nat count) ds)), True)
     else (length (encode_all to_utf (cs @ ds)), False))"
proof (cases "count \<le> int (length ds)")
  case True
  define es where "es = take (nat count) ds"
  have l: "int (length es) = count" using True assms(3) by (simp add: es_def)
  have v: "list_all isValidCodePoint (es @ drop (nat count) ds)"
    using assms(1) unfolding es_def append_take_drop_id by simp
  have "skipCodePoints is_leading (encode_all to_utf (cs @ ds)) past (length (encode_all to_utf cs)) count
    = skipCodePoints is_leading (encode_all to_utf (cs @ ds)) past
        (length (encode_all to_utf cs @ encode_all to_utf es)) (count - int (length es))"
    using l by (intro skip_encode_all[OF v assms(2)])
      (simp_all add: es_def flip: encode_all_simps(3))
  then show ?thesis using True l by (simp add: skip_0 es_def)
next
  case False
  have "list_all isValidCodePoint (ds @ [])" using assms(1) by simp
  then have "skipCodePoints is_leading (encode_all to_utf (cs @ ds)) past (length (encode_all to_utf cs)) count
    = skipCodePoints is_leading (encode_all to_utf (cs @ ds)) past
        (length (encode_all to_utf cs @ encode_all to_utf ds)) (count - int (length ds))"
    using False by (intro skip_encode_all[OF _ assms(2), where ds = "[]"]) simp_all
  then show ?thesis using False by (simp add: skip_at_end)
qed

lemma ls_slice_middle: "ls_slice (LStr (a @ b @ c)) (length a) (length (a @ b)) = Some (LStr b)"
  by simp

lemma ls_slice_from_suffix: "ls_slice_from (LStr (a @ b)) (length a) = Some (LStr b)"
  by simp

lemma slice_encode_all:
  assumes "list_all isValidCodePoint cps" and "is_leading past"
  shows "sliceByCodePointsFromTo False is_leading past (encode_all to_utf cps) from to =
    Some (if 0 \<le> from \<and> from \<le> to \<and> to \<le> int (length cps)
          then LStr (encode_all to_utf (take (nat (to - from)) (drop (nat from) cps)))
          else LErr IndexOutOfBounds)"
proof (cases "from < 0 \<or> to < from")
  case True
  then show ?thesis by (auto simp: sliceByCodePointsFromTo_def)
next
  case False
  then have ft: "0 \<le> from" "0 \<le> to - from" by auto
  have 1: "skipCodePoints is_leading (encode_all to_utf cps) past 0 from =
    (if from \<le> int (length cps) then (length (encode_all to_utf (take (nat from) cps)), True)
     else (length (encode_all to_utf cps), False))"
    using skip_result[of "[]" cps past "from"] assms ft by simp
  have 2: "skipCodePoints is_leading (encode_all to_utf cps) past
      (length (encode_all to_utf (take (nat from) cps))) (to - from) =
    (if to - from \<le> int (length (drop (nat from) cps))
     then (length (encode_all to_utf (take (nat from) cps @ take (nat (to - from)) (drop (nat from) cps))), True)
     else (length (encode_all to_utf cps), False))"
    using skip_result[of "take (nat from) cps" "drop (nat from) cps" past "to - from"] assms ft by simp
  have 3: "encode_all to_utf cps = encode_all to_utf (take (nat from) cps) @
      encode_all to_utf (take (nat (to - from)) (drop (nat from) cps)) @
      encode_all to_utf (drop (nat (to - from)) (drop (nat from) cps))"
    by (simp only: encode_all_simps(3)[symmetric] append_take_drop_id)
  have 4: "ls_slice (LStr (encode_all to_utf cps)) (length (encode_all to_utf (take (nat from) cps)))
      (length (encode_all to_utf (take (nat from) cps @ take (nat (to - from)) (drop (nat from) cps)))) =
    Some (LStr (encode_all to_utf (take (nat (to - from)) (drop (nat from) cps))))"
    unfolding encode_all_simps(3) by (subst 3) (rule ls_slice_middle)
  show ?thesis
    unfolding sliceByCodePointsFromTo_def
    using ft False by (auto simp add: 1 2 4 [unfolded encode_all_simps(3) length_append])
qed

lemma slice_from_encode_all:
  assumes "list_all isValidCodePoint cps" and "is_leading past"
  shows "sliceByCodePointsFrom False is_leading past (encode_all to_utf cps) from =
    Some (if 0 \<le> from \<and> from \<le> int (length cps)
          then LStr (encode_all to_utf (drop (nat from) cps))
          else LErr IndexOutOfBounds)"
proof (cases "from < 0")
  case True
  then show ?thesis by (simp add: sliceByCodePointsFrom_def)
next
  case False
  have 1: "skipCodePoints is_leading (encode_all to_utf cps) past 0 from =
    (if from \<le> int (length cps) then (length (encode_all to_utf (take (nat from) cps)), True)
     else (length (encode_all to_utf cps), False))"
    using skip_result[of "[]" cps past "from"] assms False by simp
  have 3: "encode_all to_utf cps = encode_all to_utf (take (nat from) cps) @
      encode_all to_utf (drop (nat from) cps)"
    by (simp only: encode_all_simps(3)[symmetric] append_take_drop_id)
  have 4: "ls_slice_from (LStr (encode_all to_utf cps)) (length (encode_all to_utf (take (nat from) cps))) =
    Some (LStr (encode_all to_utf (drop (nat from) cps)))"
    by (subst 3) (rule ls_slice_from_suffix)
  show ?thesis
    unfolding sliceByCodePointsFrom_def
    using False by (auto simp add: 1 4)
qed

end

section \<open>Order\<close>

text \<open>The lexicographic order with the shorter string first.\<close>

fun lex_cmp :: "'c::linorder list \<Rightarrow> 'c list \<Rightarrow> int" where
  "lex_cmp [] [] = 0"
| "lex_cmp [] (_ # _) = -1"
| "lex_cmp (_ # _) [] = 1"
| "lex_cmp (a # as) (b # bs) = (if a < b then -1 else if b < a then 1 else lex_cmp as bs)"

lemma lex_cmp_swap: "lex_cmp b a = - lex_cmp a b"
  by (induction a b rule: lex_cmp.induct) auto

lemma lex_cmp_refl [simp]: "lex_cmp a a = 0"
  by (induction a) auto

lemma lex_cmp_append_same [simp]: "lex_cmp (us @ a) (us @ b) = lex_cmp a b"
  by (induction us) auto

lemma compareByCodePoint_lex: "compareByCodePoint False a b = lex_cmp a b"
proof -
  have "(let r = units_compare (min (length a) (length b)) a b
         in if r \<noteq> 0 then r else length_compare a b) = lex_cmp a b"
    by (induction a b rule: lex_cmp.induct) (auto simp: length_compare_def Let_def)
  then show ?thesis by (simp add: compareByCodePoint_def)
qed

lemma length_compare_Cons [simp]: "length_compare (a # as) (b # bs) = length_compare as bs"
  by (simp add: length_compare_def)

lemma compareByCodePoint16_Cons:
  "compareByCodePoint16 False (a # as) (b # bs) =
     (if a = b then compareByCodePoint16 False as bs
      else (let s = (0xd800 \<le> a \<and> a < 0xe000); t = (0xd800 \<le> b \<and> b < 0xe000)
            in if s = t then (if a < b then -1 else 1) else (if s then 1 else -1)))"
  by (auto simp: compareByCodePoint16_def Let_def split: option.split)

lemma compareByCodePoint16_Nil:
  "compareByCodePoint16 False [] [] = 0"
  "compareByCodePoint16 False [] (b # bs) = -1"
  "compareByCodePoint16 False (a # as) [] = 1"
  by (auto simp: compareByCodePoint16_def length_compare_def)

text \<open>
  UTF-8. Lead bytes grow with the length of the encoding, and an encoding of a given length
  is the code point written in base 64, so the byte order is the code point order.
\<close>

definition digits_val :: "nat \<Rightarrow> nat list \<Rightarrow> nat" where
  "digits_val h ds = foldl (\<lambda>v d. v * 64 + d) h ds"

lemma digits_val_simps [simp]:
  "digits_val h [] = h" "digits_val h (d # ds) = digits_val (h * 64 + d) ds"
  by (simp_all add: digits_val_def)

lemma digits_val_less:
  "length ds = length es \<Longrightarrow> list_all (\<lambda>d. d < 64) ds \<Longrightarrow> h < k \<Longrightarrow> digits_val h ds < digits_val k es"
proof (induction ds es arbitrary: h k rule: list_induct2)
  case (Cons d ds e es)
  then have "h * 64 + d < k * 64 + e" by simp
  with Cons show ?case by simp
qed simp

lemma digits_val_order:
  assumes "length us = length (vs :: u8 list)"
    and "list_all (\<lambda>u. unat u div 64 = 2) us" "list_all (\<lambda>u. unat u div 64 = 2) vs"
    and "digits_val h (map (\<lambda>u. unat u mod 64) us) < digits_val h (map (\<lambda>u. unat u mod 64) vs)"
  shows "lex_cmp (us @ a) (vs @ b) = -1"
  using assms
proof (induction us vs arbitrary: h rule: list_induct2)
  case (Cons u us v vs)
  have m: "list_all (\<lambda>d. d < 64) (map (\<lambda>u. unat u mod 64) xs)" for xs :: "u8 list"
    by (simp add: list_all_iff)
  have uv: "unat u = 128 + unat u mod 64" "unat v = 128 + unat v mod 64"
    using Cons.prems cont_byte by auto
  consider "unat u < unat v" | "unat u = unat v" | "unat v < unat u" by linarith
  then show ?case
  proof cases
    case 1
    then show ?thesis by (simp add: word_cmp)
  next
    case 2
    then have "u = v" by (simp add: word_unat_eq_iff)
    with Cons show ?thesis by simp
  next
    case 3
    then have "h * 64 + unat v mod 64 < h * 64 + unat u mod 64" using uv by linarith
    from digits_val_less[OF _ m this, of vs "map (\<lambda>u. unat u mod 64) us"] Cons
    show ?thesis by simp
  qed
qed simp

definition lead_base :: "nat \<Rightarrow> nat" where
  "lead_base n = (if n = 1 then 192 else if n = 2 then 224 else if n = 3 then 240 else 0)"

text \<open>The shape of an encoding together with the number it stands for.\<close>

lemma to_utf8_digits:
  assumes "to_utf8 c = Inr us"
  shows "\<exists>b r. us = b # r \<and> list_all (\<lambda>u. unat u div 64 = 2) r \<and> lead_base (length r) \<le> unat b \<and>
    unat c = digits_val (unat b - lead_base (length r)) (map (\<lambda>u. unat u mod 64) r)"
proof -
  obtain b r where us: "us = b # r" and r: "\<forall>u \<in> set r. unat u div 64 = 2"
    and l: "length r = 0 \<and> unat b < 128 \<or> length r = 1 \<and> 194 \<le> unat b \<and> unat b < 224 \<or>
      length r = 2 \<and> 224 \<le> unat b \<and> unat b < 240 \<or> length r = 3 \<and> 240 \<le> unat b \<and> unat b \<le> 244"
    using to_utf8_shape[OF assms] by blast
  have f: "from_utf8 us = (c, Inr (length us))" using from_to_utf8[OF assms, of "[]"] by simp
  have "unat c = digits_val (unat b - lead_base (length r)) (map (\<lambda>u. unat u mod 64) r)"
    using l
  proof (elim disjE)
    assume "length r = 0 \<and> unat b < 128"
    then show ?thesis using f unfolding us
      by (auto simp: from_utf8_def Let_def word_cmp unat_ucast8 lead_base_def)
  next
    assume a: "length r = 1 \<and> 194 \<le> unat b \<and> unat b < 224"
    then obtain b1 where b1: "r = [b1]" by (cases r) auto
    have "c = push6 (ucast (b AND 0x1f)) b1" using f a r unfolding us b1
      by (auto simp: from_utf8_def Let_def word_cmp fromUTF8ContSeq_def split: if_splits)
    moreover have "unat b mod 32 = unat b - 192" using a lead_byte[of 192 6 32 "unat b"] by simp
    ultimately show ?thesis using a
      by (simp add: b1 unat_push6 unat_ucast8 unat_and_masks lead_base_def)
  next
    assume a: "length r = 2 \<and> 224 \<le> unat b \<and> unat b < 240"
    then obtain b1 b2 where b1: "r = [b1, b2]" by (cases r; cases "tl r") auto
    have "c = push6 (push6 (ucast (b AND 0xf)) b1) b2" using f a r unfolding us b1
      by (auto simp: from_utf8_def Let_def word_cmp fromUTF8ContSeq_def split: if_splits)
    moreover have "unat b mod 16 = unat b - 224" using a lead_byte[of 224 14 16 "unat b"] by simp
    ultimately show ?thesis using a
      by (simp add: b1 unat_push6 unat_ucast8 unat_and_masks lead_base_def)
  next
    assume a: "length r = 3 \<and> 240 \<le> unat b \<and> unat b \<le> 244"
    then obtain b1 b2 b3 where b1: "r = [b1, b2, b3]" by (cases r; cases "tl r"; cases "tl (tl r)") auto
    have "c = push6 (push6 (push6 (ucast (b AND 7)) b1) b2) b3" using f a r unfolding us b1
      by (auto simp: from_utf8_def Let_def word_cmp fromUTF8ContSeq_def split: if_splits)
    moreover have "unat b mod 8 = unat b - 240" using a lead_byte[of 240 30 8 "unat b"] by simp
    ultimately show ?thesis using a
      by (simp add: b1 unat_push6 unat_ucast8 unat_and_masks lead_base_def)
  qed
  then show ?thesis using us r l by (auto simp: list_all_iff lead_base_def)
qed

lemma to_utf8_length_mono:
  assumes "to_utf8 c = Inr us" "to_utf8 d = Inr vs" "unat c < unat d"
  shows "length us \<le> length vs"
proof -
  have "length us = (if unat c < 128 then 1 else if unat c < 2048 then 2 else if unat c < 65536 then 3 else 4)"
    using assms(1) by (auto simp: to_utf8_def word_cmp split: if_splits)
  moreover have "length vs = (if unat d < 128 then 1 else if unat d < 2048 then 2 else if unat d < 65536 then 3 else 4)"
    using assms(2) by (auto simp: to_utf8_def word_cmp split: if_splits)
  ultimately show ?thesis using assms(3) by auto
qed

lemma lex_cmp_utf8_less:
  assumes "to_utf8 c = Inr us" "to_utf8 d = Inr vs" "c < d"
  shows "lex_cmp (us @ a) (vs @ b) = -1"
proof -
  obtain x r where us: "us = x # r" "list_all (\<lambda>u. unat u div 64 = 2) r" "lead_base (length r) \<le> unat x"
      "unat c = digits_val (unat x - lead_base (length r)) (map (\<lambda>u. unat u mod 64) r)"
    using to_utf8_digits[OF assms(1)] by blast
  obtain y q where vs: "vs = y # q" "list_all (\<lambda>u. unat u div 64 = 2) q" "lead_base (length q) \<le> unat y"
      "unat d = digits_val (unat y - lead_base (length q)) (map (\<lambda>u. unat u mod 64) q)"
    using to_utf8_digits[OF assms(2)] by blast
  have cd: "unat c < unat d" using assms(3) by (simp add: word_cmp)
  have m: "list_all (\<lambda>d. d < 64) (map (\<lambda>u. unat u mod 64) xs)" for xs :: "u8 list"
    by (simp add: list_all_iff)
  show ?thesis
  proof (cases "length r = length q")
    case True
    consider "unat x < unat y" | "unat x = unat y" | "unat y < unat x" by linarith
    then show ?thesis
    proof cases
      case 1
      then show ?thesis by (simp add: us vs word_cmp)
    next
      case 2
      then have "x = y" by (simp add: word_unat_eq_iff)
      with digits_val_order[OF True us(2) vs(2)] cd us vs True show ?thesis by simp
    next
      case 3
      then have "unat y - lead_base (length q) < unat x - lead_base (length r)" using True vs(3) by simp
      from digits_val_less[OF _ m this, of q "map (\<lambda>u. unat u mod 64) r"] True cd us vs
      show ?thesis by simp
    qed
  next
    case False
    then have "length us < length vs"
      using to_utf8_length_mono[OF assms(1,2)] cd us(1) vs(1) by simp
    then have "unat x < unat y"
      using to_utf8_shape[OF assms(1)] to_utf8_shape[OF assms(2)] us(1) vs(1) by auto
    then show ?thesis by (simp add: us vs word_cmp)
  qed
qed

lemma lex_cmp_utf8_enc:
  assumes "isValidCodePoint c" "isValidCodePoint d"
  shows "lex_cmp (enc to_utf8 c @ a) (enc to_utf8 d @ b) =
    (if c < d then -1 else if d < c then 1 else lex_cmp a b)"
proof -
  note c = utf8.valid_enc[OF assms(1)] and d = utf8.valid_enc[OF assms(2)]
  have "d < c \<Longrightarrow> lex_cmp (enc to_utf8 c @ a) (enc to_utf8 d @ b) = 1"
    using lex_cmp_utf8_less[OF d c, of b a] lex_cmp_swap[of "enc to_utf8 c @ a"] by simp
  moreover have "\<not> c < d \<Longrightarrow> \<not> d < c \<Longrightarrow> c = d" by simp
  ultimately show ?thesis using lex_cmp_utf8_less[OF c d] by auto
qed

lemma lex_cmp_encode_utf8:
  "list_all isValidCodePoint cs \<Longrightarrow> list_all isValidCodePoint ds \<Longrightarrow>
   lex_cmp (encode_all to_utf8 cs) (encode_all to_utf8 ds) = lex_cmp cs ds"
proof (induction cs ds rule: lex_cmp.induct)
  case (2 d ds)
  then show ?case using utf8.enc_nonempty[of d] by (cases "enc to_utf8 d") auto
next
  case (3 c cs)
  then show ?case using utf8.enc_nonempty[of c] by (cases "enc to_utf8 c") auto
next
  case (4 c cs d ds)
  then show ?case by (auto simp: lex_cmp_utf8_enc)
qed simp

text \<open>
  UTF-16. A supplementary code point starts with a surrogate, which the loop ranks above
  every unit of the basic plane.
\<close>

lemma to_utf16_value:
  assumes "to_utf16 c = Inr us"
  shows "(\<exists>u. us = [u] \<and> unat u = unat c \<and> unat c < 65536 \<and> (unat u < 55296 \<or> 57344 \<le> unat u)) \<or>
    (\<exists>u v h l. us = [u, v] \<and> unat u = 55296 + h \<and> unat v = 56320 + l \<and> h < 1024 \<and> l < 1024 \<and>
       unat c = 65536 + h * 1024 + l)"
proof (cases "unat c < 65536")
  case True
  then show ?thesis using assms by (auto simp: to_utf16_def word_cmp unat_ucast_mod split: if_splits)
next
  case False
  define d where "d = c - 0x10000"
  have c: "unat c < 1114112" using assms False by (auto simp: to_utf16_def word_cmp split: if_splits)
  have e: "unat d = unat c - 65536" unfolding d_def using False by (simp add: unat_sub word_cmp)
  then have d: "unat d < 1048576" using c by simp
  have us: "us = [ucast (0xd800 OR drop_bit 10 d), ucast (0xdc00 OR (d AND 0x3ff))]"
    using assms False by (auto simp: to_utf16_def word_cmp Let_def d_def split: if_splits)
  have "unat d div 1024 < 1024" "unat d mod 1024 < 1024" using d by auto
  moreover have "unat c = 65536 + (unat d div 1024) * 1024 + unat d mod 1024"
    using e False by simp
  ultimately show ?thesis using lead16[OF d] trail16[of d] us by blast
qed

lemma compare16_swap: "compareByCodePoint16 False b a = - compareByCodePoint16 False a b"
  by (induction a b rule: lex_cmp.induct)
    (auto simp: compareByCodePoint16_Nil compareByCodePoint16_Cons Let_def)

lemma compare16_less:
  assumes "to_utf16 c = Inr us" "to_utf16 d = Inr vs" "c < d"
  shows "compareByCodePoint16 False (us @ a) (vs @ b) = -1"
proof -
  have cd: "unat c < unat d" using assms(3) by (simp add: word_cmp)
  consider (bb) u v where "us = [u]" "vs = [v]" "unat u = unat c" "unat v = unat d"
      "unat u < 55296 \<or> 57344 \<le> unat u" "unat v < 55296 \<or> 57344 \<le> unat v"
    | (bs) u v w where "us = [u]" "vs = [v, w]" "unat u < 55296 \<or> 57344 \<le> unat u"
        "55296 \<le> unat v" "unat v < 57344"
    | (ss) u v h l u' v' h' l' where "us = [u, v]" "vs = [u', v']"
        "unat u = 55296 + h" "unat v = 56320 + l" "h < 1024" "l < 1024"
        "unat u' = 55296 + h'" "unat v' = 56320 + l'" "h' < 1024" "l' < 1024"
        "h * 1024 + l < h' * 1024 + l'"
    using to_utf16_value[OF assms(1)] to_utf16_value[OF assms(2)] cd by fastforce
  then show ?thesis
  proof cases
    case bb
    then show ?thesis using cd by (auto simp: compareByCodePoint16_Cons word_cmp Let_def)
  next
    case bs
    then show ?thesis by (auto simp: compareByCodePoint16_Cons word_cmp Let_def)
  next
    case ss
    consider "h < h'" | "h = h'" "l < l'" using ss by (cases h h' rule: linorder_cases) auto
    then show ?thesis
    proof cases
      case 1
      then show ?thesis using ss by (auto simp: compareByCodePoint16_Cons word_cmp Let_def)
    next
      case 2
      then have "u = u'" using ss by (simp add: word_unat_eq_iff)
      then show ?thesis using ss 2 by (auto simp: compareByCodePoint16_Cons word_cmp Let_def)
    qed
  qed
qed

lemma compare16_greater:
  assumes "to_utf16 c = Inr us" "to_utf16 d = Inr vs" "d < c"
  shows "compareByCodePoint16 False (us @ a) (vs @ b) = 1"
  using compare16_less[OF assms(2,1,3), of b a] compare16_swap[of "us @ a" "vs @ b"] by simp

lemma compare16_same: "compareByCodePoint16 False (us @ a) (us @ b) = compareByCodePoint16 False a b"
  by (induction us) (auto simp: compareByCodePoint16_Cons)

lemma compare16_encode_all:
  "list_all isValidCodePoint cs \<Longrightarrow> list_all isValidCodePoint ds \<Longrightarrow>
   compareByCodePoint16 False (encode_all to_utf16 cs) (encode_all to_utf16 ds) = lex_cmp cs ds"
proof (induction cs ds rule: lex_cmp.induct)
  case 1
  then show ?case by (simp add: compareByCodePoint16_Nil)
next
  case (2 d ds)
  then show ?case using utf16.enc_nonempty[of d]
    by (cases "enc to_utf16 d") (auto simp: compareByCodePoint16_Nil)
next
  case (3 c cs)
  then show ?case using utf16.enc_nonempty[of c]
    by (cases "enc to_utf16 c") (auto simp: compareByCodePoint16_Nil)
next
  case (4 c cs d ds)
  then show ?case
    using compare16_less[OF utf16.valid_enc utf16.valid_enc, of c d]
      compare16_greater[OF utf16.valid_enc utf16.valid_enc, of c d]
    by (cases c d rule: linorder_cases) (auto simp: compare16_same)
qed

section \<open>Properties\<close>

text \<open>C31. UTF-8 decoding accepts exactly the shortest encodings of valid code points: on a
  non-empty buffer, \<open>fromUTF\<close> returns code point \<open>c\<close> and stride \<open>n\<close> if and only if the
  first \<open>n\<close> units are what \<open>toUTF\<close> produces for \<open>c\<close>. Overlong forms, surrogates,
  values above 0x10ffff and truncated sequences are all refused.\<close>

theorem utf8_decode_exact:
  assumes "us \<noteq> []"
  shows "from_utf8 us = (c, Inr n) \<longleftrightarrow> n \<le> length us \<and> to_utf8 c = Inr (take n us)"
proof
  show "n \<le> length us \<and> to_utf8 c = Inr (take n us)" if "from_utf8 us = (c, Inr n)"
    by (rule to_from_utf8[OF assms that])
next
  assume a: "n \<le> length us \<and> to_utf8 c = Inr (take n us)"
  from from_to_utf8[OF a[THEN conjunct2], of "drop n us"] show "from_utf8 us = (c, Inr n)"
    using a by (simp only: append_take_drop_id length_take min_absorb2)
qed

theorem utf8_decode_exact_witness:
  "[0xe2, 0x82, 0xac, 0x41] \<noteq> ([] :: u8 list) \<and> from_utf8 [0xe2, 0x82, 0xac, 0x41] = (0x20ac, Inr 3)"
proof -
  have "to_utf8 0x20ac = Inr [0xe2, 0x82, 0xac]" by (simp add: to_utf8_def)
  then have "3 \<le> length [0xe2, 0x82, 0xac, 0x41 :: u8] \<and>
      to_utf8 0x20ac = Inr (take 3 [0xe2, 0x82, 0xac, 0x41])" by simp
  then show ?thesis
    by (blast intro: utf8_decode_exact[THEN iffD2, OF list.distinct(2)])
qed

text \<open>The same for UTF-16: a unit outside of the surrogate range, or a high surrogate
  followed by a low one, and nothing else, decodes.\<close>

lemma utf16_decode_exact:
  assumes "us \<noteq> []"
  shows "from_utf16 us = (c, Inr n) \<longleftrightarrow> n \<le> length us \<and> to_utf16 c = Inr (take n us)"
proof
  show "n \<le> length us \<and> to_utf16 c = Inr (take n us)" if "from_utf16 us = (c, Inr n)"
    by (rule to_from_utf16[OF assms that])
next
  assume a: "n \<le> length us \<and> to_utf16 c = Inr (take n us)"
  from from_to_utf16[OF a[THEN conjunct2], of "drop n us"] show "from_utf16 us = (c, Inr n)"
    using a by (simp only: append_take_drop_id length_take min_absorb2)
qed

text \<open>C16. Converting a UTF-8 string to UTF-16 succeeds exactly on the encodings of sequences
  of valid code points, and then yields the UTF-16 encoding of the same sequence.\<close>

theorem utf8_to_utf16_spec:
  "toUTF_convert from_utf8 to_utf16 (LStr s) = LStr t \<longleftrightarrow>
   (\<exists>cps. list_all isValidCodePoint cps \<and> s = encode_all to_utf8 cps \<and> t = encode_all to_utf16 cps)"
  (is "?L \<longleftrightarrow> ?R")
proof -
  note good = utf8.convert_well_formed[OF _ utf16.valid_enc]
  have "?R" if L: "?L"
    using utf8.well_formed_or_stuck[of s]
  proof (elim disjE exE conjE)
    fix cps assume "list_all isValidCodePoint cps" "s = encode_all to_utf8 cps"
    then show ?R using L good[of cps] by (intro exI[of _ cps]) simp
  next
    fix cps rest c e
    assume "list_all isValidCodePoint cps" "rest \<noteq> []" "from_utf8 rest = (c, Inl e)"
      and s: "s = encode_all to_utf8 cps @ rest"
    from utf8.convert_stuck[OF this(1-3) utf16.valid_enc] show ?R using L by (simp add: s)
  qed
  moreover have "?L" if "?R" using that good by (elim exE conjE) simp
  ultimately show ?thesis by blast
qed



text \<open>When the unit past the end is not a leading one, slicing up to the end of the string
  fails: the loop of \<open>skipCodePoints\<close> reads the unit at \<open>end\<close> and does not count the last
  code point, so the result depends on memory outside of the string.\<close>

theorem utf8_slice_depends_on_past:
  "sliceByCodePointsFromTo False isLeading8 0 [0x41] 0 1 = Some (LStr [0x41]) \<and>
   sliceByCodePointsFromTo False isLeading8 0x80 [0x41] 0 1 = Some (LErr IndexOutOfBounds)"
  by (simp add: sliceByCodePointsFromTo_def skipCodePoints.simps isLeading8_def)

text \<open>C19. On well-formed strings the byte order of UTF-8 and the adjusted unit order of
  UTF-16 are both the lexicographic order of the code points.\<close>

theorem compare_by_code_point_spec:
  assumes "list_all isValidCodePoint cs" and "list_all isValidCodePoint ds"
  shows "compareByCodePoint False (encode_all to_utf8 cs) (encode_all to_utf8 ds) = lex_cmp cs ds \<and>
    compareByCodePoint16 False (encode_all to_utf16 cs) (encode_all to_utf16 ds) = lex_cmp cs ds"
  using assms by (simp add: compareByCodePoint_lex lex_cmp_encode_utf8 compare16_encode_all)

theorem compare_by_code_point_spec_witness:
  "compareByCodePoint16 False (encode_all to_utf16 [0xffff]) (encode_all to_utf16 [0x10000]) = -1"
proof -
  have "list_all isValidCodePoint [0xffff]" "list_all isValidCodePoint [0x10000]"
    by (simp_all add: isValidCodePoint_def)
  from compare_by_code_point_spec[OF this] show ?thesis by simp
qed

end
