(* ===== verification/Coders.thy ===== *)
theory Coders
  imports UtfStrings
begin

text \<open>
  The encodings of byte strings (\<open>vm/vm/main/coders-decl.hh\<close>, \<open>coders.cc\<close>): Latin-1,
  UTF-8, UTF-16 and UTF-32, the last two in either byte order, and all three Unicode ones with or
  without a byte order mark. A variant is the bit mask of the code. Strings of the machine are
  UTF-8 (\<open>char\<close>), byte strings are lists of bytes (\<open>unsigned char\<close>).
\<close>

section \<open>Data\<close>

datatype ByteStringEncoding = latin1 | utf8 | utf16 | utf32

type_synonym EncodingVariant = u64

definition littleEndian :: "EncodingVariant \<Rightarrow> bool" where
  "littleEndian variant \<longleftrightarrow> variant AND 1 \<noteq> 0"

definition hasBOM :: "EncodingVariant \<Rightarrow> bool" where
  "hasBOM variant \<longleftrightarrow> variant AND 2 \<noteq> 0"

section \<open>Encoders\<close>

text \<open>
  An encoder that iterates over an erroneous string (a null pointer with a negative length)
  reserves a negative size, which throws, or walks outside of any buffer: \<open>None\<close>.
\<close>

definition encodeLatin1 :: "u8 lstring \<Rightarrow> EncodingVariant \<Rightarrow> u8 lstring option" where
  "encodeLatin1 input variant =
     (if isErrorOrEmpty input then Some (ls_error input)
      else (case input of
          LErr e \<Rightarrow> Some (LErr e)
        | LStr str \<Rightarrow>
            (case forEachCodePoint from_utf8
                    (\<lambda>codePoint (tempVector, curError).
                       (True, (tempVector @ [if codePoint > 0xff then 0x3f else ucast codePoint], curError)))
                    (\<lambda>_ error (tempVector, curError). (False, (tempVector, Some error)))
                    str ([], None) of
               (tempVector, Some e) \<Rightarrow> Some (LErr e)
             | (tempVector, None) \<Rightarrow> Some (LStr tempVector))))"

definition encodeUTF8 :: "u8 lstring \<Rightarrow> EncodingVariant \<Rightarrow> u8 lstring option" where
  "encodeUTF8 input variant =
     (case input of
        LErr e \<Rightarrow> None
      | LStr str \<Rightarrow> Some (LStr ((if hasBOM variant then [0xef, 0xbb, 0xbf] else []) @ str)))"

definition bytes16 :: "bool \<Rightarrow> char16 \<Rightarrow> u8 list" where
  "bytes16 isLittleEndian ch =
     (let low = ucast (ch AND 0xff); high = ucast (drop_bit 8 ch)
      in if isLittleEndian then [low, high] else [high, low])"

definition encodeUTF16 :: "u8 lstring \<Rightarrow> EncodingVariant \<Rightarrow> u8 lstring option" where
  "encodeUTF16 input variant =
     (case toUTF_convert from_utf8 to_utf16 input of
        LErr e \<Rightarrow> Some (LErr e)
      | LStr utf16Result \<Rightarrow>
          Some (LStr ((if hasBOM variant
                       then (if littleEndian variant then [0xff, 0xfe] else [0xfe, 0xff]) else [])
                      @ concat (map (bytes16 (littleEndian variant)) utf16Result))))"

definition bytes32 :: "bool \<Rightarrow> char32 \<Rightarrow> u8 list" where
  "bytes32 isLittleEndian ch =
     (let a = ucast (ch AND 0xff); b = ucast (drop_bit 8 ch AND 0xff);
          c = ucast (drop_bit 16 ch AND 0xff); d = ucast (drop_bit 24 ch)
      in if isLittleEndian then [a, b, c, d] else [d, c, b, a])"

definition encodeUTF32 :: "u8 lstring \<Rightarrow> EncodingVariant \<Rightarrow> u8 lstring option" where
  "encodeUTF32 input variant =
     (case toUTF_convert from_utf8 to_utf32 input of
        LErr e \<Rightarrow> Some (LErr e)
      | LStr utf32Result \<Rightarrow>
          Some (LStr ((if hasBOM variant
                       then (if littleEndian variant then [0xff, 0xfe, 0, 0] else [0, 0, 0xfe, 0xff]) else [])
                      @ concat (map (bytes32 (littleEndian variant)) utf32Result))))"

fun encodeGeneric :: "u8 lstring \<Rightarrow> ByteStringEncoding \<Rightarrow> EncodingVariant \<Rightarrow> u8 lstring option" where
  "encodeGeneric input latin1 variant = encodeLatin1 input variant"
| "encodeGeneric input utf8 variant = encodeUTF8 input variant"
| "encodeGeneric input utf16 variant = encodeUTF16 input variant"
| "encodeGeneric input utf32 variant = encodeUTF32 input variant"

section \<open>Decoders\<close>

text \<open>
  \<open>toUTF\<close> on a byte is always valid; the code inserts the units it writes.
\<close>

definition decodeLatin1 :: "u8 lstring \<Rightarrow> EncodingVariant \<Rightarrow> u8 lstring option" where
  "decodeLatin1 input variant =
     (case input of
        LErr e \<Rightarrow> None
      | LStr str \<Rightarrow>
          Some (LStr (concat (map (\<lambda>c. case to_utf8 (ucast c) of Inr encoded \<Rightarrow> encoded | Inl _ \<Rightarrow> []) str))))"

definition decodeUTF8 :: "u8 lstring \<Rightarrow> EncodingVariant \<Rightarrow> u8 lstring option" where
  "decodeUTF8 input variant =
     (let start = (case input of
                     LErr _ \<Rightarrow> 0
                   | LStr s \<Rightarrow>
                       if hasBOM variant \<and> 3 \<le> length s \<and> take 3 s = [0xef, 0xbb, 0xbf] then 3 else 0)
      in map_option (toUTF_validate from_utf8) (ls_slice_from input start))"

text \<open>The loop over the pairs of bytes; it runs on an even number of bytes.\<close>

fun units16 :: "bool \<Rightarrow> u8 list \<Rightarrow> char16 list" where
  "units16 isLittleEndian (x # y # bytes) =
     (let low = (if isLittleEndian then x else y); high = (if isLittleEndian then y else x)
      in (ucast low OR push_bit 8 (ucast high)) # units16 isLittleEndian bytes)"
| "units16 isLittleEndian _ = []"

definition decodeUTF16 :: "u8 lstring \<Rightarrow> EncodingVariant \<Rightarrow> u8 lstring option" where
  "decodeUTF16 input variant =
     (case input of
        LErr e \<Rightarrow> Some (LErr e)
      | LStr s \<Rightarrow>
          if length s mod 2 \<noteq> 0 then Some (LErr Truncated)
          else
            (let (start, isLittleEndian) =
                   (if hasBOM variant \<and> 2 \<le> length s then
                      (if take 2 s = [0xfe, 0xff] then (2, False)
                       else if take 2 s = [0xff, 0xfe] then (2, True)
                       else (0, littleEndian variant))
                    else (0, littleEndian variant))
             in Some (toUTF_convert from_utf16 to_utf8 (LStr (units16 isLittleEndian (drop start s))))))"

fun units32 :: "bool \<Rightarrow> u8 list \<Rightarrow> char32 list" where
  "units32 isLittleEndian (w # x # y # z # bytes) =
     (let a = (if isLittleEndian then w else z); b = (if isLittleEndian then x else y);
          c = (if isLittleEndian then y else x); d = (if isLittleEndian then z else w)
      in (ucast a OR push_bit 8 (ucast b) OR push_bit 16 (ucast c) OR push_bit 24 (ucast d))
         # units32 isLittleEndian bytes)"
| "units32 isLittleEndian _ = []"

definition decodeUTF32 :: "u8 lstring \<Rightarrow> EncodingVariant \<Rightarrow> u8 lstring option" where
  "decodeUTF32 input variant =
     (case input of
        LErr e \<Rightarrow> Some (LErr e)
      | LStr s \<Rightarrow>
          if length s mod 4 \<noteq> 0 then Some (LErr Truncated)
          else
            (let (start, isLittleEndian) =
                   (if hasBOM variant \<and> 4 \<le> length s then
                      (if take 4 s = [0, 0, 0xfe, 0xff] then (4, False)
                       else if take 4 s = [0xff, 0xfe, 0, 0] then (4, True)
                       else (0, littleEndian variant))
                    else (0, littleEndian variant))
             in Some (toUTF_convert from_utf32 to_utf8 (LStr (units32 isLittleEndian (drop start s))))))"

fun decodeGeneric :: "u8 lstring \<Rightarrow> ByteStringEncoding \<Rightarrow> EncodingVariant \<Rightarrow> u8 lstring option" where
  "decodeGeneric input latin1 variant = decodeLatin1 input variant"
| "decodeGeneric input utf8 variant = decodeUTF8 input variant"
| "decodeGeneric input utf16 variant = decodeUTF16 input variant"
| "decodeGeneric input utf32 variant = decodeUTF32 input variant"

section \<open>Units and bytes\<close>

lemma join16: "(ucast (ucast (ch AND 0xff) :: u8) OR push_bit 8 (ucast (ucast (drop_bit 8 ch) :: u8)) :: char16) = ch"
proof (rule bit_word_eqI)
  fix n assume "n < LENGTH(16)"
  have m: "(0xff :: char16) = mask 8" by (simp add: mask_eq_exp_minus_1)
  show "bit (ucast (ucast (ch AND 0xff) :: u8) OR push_bit 8 (ucast (ucast (drop_bit 8 ch) :: u8)) :: char16) n = bit ch n"
    using \<open>n < LENGTH(16)\<close>
    by (cases "n < 8") (auto simp: m bit_simps)
qed

lemma units16_bytes16 [simp]: "units16 le (concat (map (bytes16 le) us)) = us"
  by (induction us) (auto simp: bytes16_def join16 Let_def)

lemma join32:
  "(ucast (ucast (ch AND 0xff) :: u8) OR push_bit 8 (ucast (ucast (drop_bit 8 ch AND 0xff) :: u8))
    OR push_bit 16 (ucast (ucast (drop_bit 16 ch AND 0xff) :: u8))
    OR push_bit 24 (ucast (ucast (drop_bit 24 ch) :: u8)) :: char32) = ch" (is "?x = _")
proof (rule bit_word_eqI)
  fix n assume n: "n < LENGTH(32)"
  have m: "(0xff :: char32) = mask 8" by (simp add: mask_eq_exp_minus_1)
  consider "n < 8" | "8 \<le> n" "n < 16" | "16 \<le> n" "n < 24" | "24 \<le> n" by linarith
  then show "bit ?x n = bit ch n"
    using n by cases (auto simp: m bit_simps)
qed

lemma units32_bytes32 [simp]: "units32 le (concat (map (bytes32 le) us)) = us"
  by (induction us) (auto simp: bytes32_def join32 Let_def)

lemma length_bytes: "length (concat (map (bytes16 le) us)) = 2 * length us"
  "length (concat (map (bytes32 le) vs)) = 4 * length vs"
proof -
  show "length (concat (map (bytes16 le) us)) = 2 * length us"
    by (induction us) (auto simp: bytes16_def Let_def)
  show "length (concat (map (bytes32 le) vs)) = 4 * length vs"
    by (induction vs) (auto simp: bytes32_def Let_def)
qed

section \<open>Round trips\<close>

lemma convert16: "list_all isValidCodePoint cps \<Longrightarrow>
    toUTF_convert from_utf8 to_utf16 (LStr (encode_all to_utf8 cps)) = LStr (encode_all to_utf16 cps)"
  by (rule utf8.convert_well_formed[OF _ utf16.valid_enc])

lemma convert32: "list_all isValidCodePoint cps \<Longrightarrow>
    toUTF_convert from_utf8 to_utf32 (LStr (encode_all to_utf8 cps)) = LStr (encode_all to_utf32 cps)"
  by (rule utf8.convert_well_formed[OF _ utf32.valid_enc])

lemma convert_back: "list_all isValidCodePoint cps \<Longrightarrow>
    toUTF_convert from_utf16 to_utf8 (LStr (encode_all to_utf16 cps)) = LStr (encode_all to_utf8 cps)"
  "list_all isValidCodePoint cps \<Longrightarrow>
    toUTF_convert from_utf32 to_utf8 (LStr (encode_all to_utf32 cps)) = LStr (encode_all to_utf8 cps)"
  by (rule utf16.convert_well_formed[OF _ utf8.valid_enc] utf32.convert_well_formed[OF _ utf8.valid_enc]; assumption)+

text \<open>The decoder's variant has to agree on the mark, and on the byte order when there is none.\<close>

definition compatible :: "EncodingVariant \<Rightarrow> EncodingVariant \<Rightarrow> bool" where
  "compatible v w \<longleftrightarrow> hasBOM v = hasBOM w \<and> (hasBOM v \<or> littleEndian v = littleEndian w)"

lemma roundtrip_utf8:
  assumes "list_all isValidCodePoint cps" "compatible v w"
  shows "encodeUTF8 (LStr (encode_all to_utf8 cps)) v = Some b \<Longrightarrow>
    decodeUTF8 b w = Some (LStr (encode_all to_utf8 cps))"
  using assms utf8.validate_well_formed[OF assms(1)]
  by (auto simp: encodeUTF8_def decodeUTF8_def compatible_def Let_def)

lemma roundtrip_utf16:
  assumes "list_all isValidCodePoint cps" "compatible v w"
  shows "encodeUTF16 (LStr (encode_all to_utf8 cps)) v = Some b \<Longrightarrow>
    decodeUTF16 b w = Some (LStr (encode_all to_utf8 cps))"
  using assms convert_back(1)[OF assms(1)]
  by (auto simp: encodeUTF16_def decodeUTF16_def convert16 compatible_def length_bytes split: if_splits)

lemma roundtrip_utf32:
  assumes "list_all isValidCodePoint cps" "compatible v w"
  shows "encodeUTF32 (LStr (encode_all to_utf8 cps)) v = Some b \<Longrightarrow>
    decodeUTF32 b w = Some (LStr (encode_all to_utf8 cps))"
  using assms convert_back(2)[OF assms(1)]
  by (auto simp: encodeUTF32_def decodeUTF32_def convert32 compatible_def length_bytes split: if_splits)

lemma encode_defined:
  "list_all isValidCodePoint cps \<Longrightarrow> encoding \<noteq> latin1 \<Longrightarrow>
   \<exists>b. encodeGeneric (LStr (encode_all to_utf8 cps)) encoding v = Some (LStr b)"
  by (cases encoding) (auto simp: encodeUTF8_def encodeUTF16_def encodeUTF32_def convert16 convert32)

text \<open>Latin-1. A byte is a valid code point; the code points above 255 become question marks.\<close>

definition latin1_byte :: "char32 \<Rightarrow> u8" where
  "latin1_byte c = (if c > 0xff then 0x3f else ucast c)"

lemma valid_byte: "isValidCodePoint (ucast (b::u8))"
  using unat_bounds(1)[of b] by (simp add: isValidCodePoint_def word_cmp unat_ucast_mod)

lemma latin1_byte_ucast [simp]: "latin1_byte (ucast b) = b"
proof -
  have "unat (ucast b :: char32) = unat b" using unat_bounds(1)[of b] by (simp add: unat_ucast_mod)
  then have "\<not> (ucast b :: char32) > 0xff" using unat_bounds(1)[of b] by (simp add: word_cmp)
  moreover have "ucast (ucast b :: char32) = b"
    by (rule word_eq_unatI) (use unat_bounds(1)[of b] in \<open>simp add: unat_ucast_mod\<close>)
  ultimately show ?thesis by (simp add: latin1_byte_def)
qed

lemma decodeLatin1_eq: "decodeLatin1 (LStr s) v = Some (LStr (encode_all to_utf8 (map ucast s)))"
proof -
  have "(case to_utf8 (ucast c) of Inr encoded \<Rightarrow> encoded | Inl _ \<Rightarrow> []) = enc to_utf8 (ucast (c::u8))" for c
    by (simp add: enc_def split: sum.split)
  then show ?thesis by (simp add: decodeLatin1_def encode_all_def o_def)
qed

lemma encodeLatin1_eq:
  assumes "list_all isValidCodePoint cps"
  shows "encodeLatin1 (LStr (encode_all to_utf8 cps)) v = Some (LStr (map latin1_byte cps))"
proof -
  let ?f = "\<lambda>codePoint (tempVector, curError).
    (True, (tempVector @ [if codePoint > 0xff then 0x3f else ucast (codePoint::char32) :: u8], curError))"
  have "each_code_point ?f cps (t, None :: unicode_error option) = (t @ map latin1_byte cps, None)" for t
    by (induction cps arbitrary: t) (auto simp: latin1_byte_def)
  from this[of "[]"] show ?thesis using assms
    by (auto simp: encodeLatin1_def utf8.forEachCodePoint_encode_all utf8.encode_all_empty_iff)
qed

section \<open>Properties\<close>

text \<open>C10. Encoding a well-formed string as UTF-8, UTF-16 or UTF-32 succeeds, and decoding the
  bytes gives the string back, whenever the two variants agree on the byte order mark and, when
  there is none, on the byte order: with a mark the decoder finds the order by itself.\<close>

theorem decode_encode:
  assumes "list_all isValidCodePoint cps" and "encoding \<noteq> latin1" and "compatible v w"
  shows "\<exists>bytes. encodeGeneric (LStr (encode_all to_utf8 cps)) encoding v = Some (LStr bytes) \<and>
    decodeGeneric (LStr bytes) encoding w = Some (LStr (encode_all to_utf8 cps))"
proof -
  obtain b where b: "encodeGeneric (LStr (encode_all to_utf8 cps)) encoding v = Some (LStr b)"
    using encode_defined[OF assms(1,2)] by blast
  moreover have "decodeGeneric (LStr b) encoding w = Some (LStr (encode_all to_utf8 cps))"
    using b assms(2) roundtrip_utf8[OF assms(1,3)] roundtrip_utf16[OF assms(1,3)] roundtrip_utf32[OF assms(1,3)]
    by (cases encoding) auto
  ultimately show ?thesis by blast
qed

theorem decode_encode_witness:
  "\<exists>bytes. encodeGeneric (LStr (encode_all to_utf8 [0x20ac])) utf16 3 = Some (LStr bytes) \<and>
    decodeGeneric (LStr bytes) utf16 2 = Some (LStr (encode_all to_utf8 [0x20ac]))"
  by (rule decode_encode) (simp_all add: isValidCodePoint_def compatible_def hasBOM_def)

text \<open>Every byte string decodes as Latin-1, to the string of the code points of its bytes,
  and encoding that string as Latin-1 gives the bytes back, for all variants.\<close>

theorem latin1_roundtrip:
  "\<exists>s. decodeGeneric (LStr bytes) latin1 v = Some (LStr s) \<and>
     s = encode_all to_utf8 (map ucast bytes) \<and> encodeGeneric (LStr s) latin1 w = Some (LStr bytes)"
proof -
  have "list_all isValidCodePoint (map ucast bytes)"
    using valid_byte by (simp add: list_all_iff)
  from encodeLatin1_eq[OF this] show ?thesis by (simp add: decodeLatin1_eq o_def)
qed

end
