(* ===== verification/Strings.thy ===== *)
theory Strings
  imports UtfStrings "HOL-Library.Sublist"
begin

text \<open>
  Compact strings and byte strings (\<open>vm/vm/main/string.hh\<close>, \<open>bytestring.hh\<close>, the
  interface \<open>StringLike\<close> of \<open>coreinterfaces-decl.hh\<close>). A string object holds a buffer of UTF-8
  units and no error, since every builder raises an erroneous buffer first. Operands are
  determined nodes of four shapes; suspension on unbound operands belongs to the scheduler.
\<close>

section \<open>Operands and exceptions\<close>

datatype snode = SInt nativeint | SString "u8 list" | SByteString "u8 list" | SOther

text \<open>
  \<open>ExUndefined\<close> stands for an access outside of the buffer, which \<open>slice_never_undefined\<close>
  excludes.
\<close>

datatype str_exn = ExIndexOutOfBounds | ExUnicode unicode_error | ExType string | ExUndefined

fun int_argument :: "string \<Rightarrow> snode \<Rightarrow> str_exn + nativeint" where
  "int_argument expected (SInt i) = Inr i"
| "int_argument expected _ = Inl (ExType expected)"

fun stringGet :: "snode \<Rightarrow> str_exn + u8 list" where
  "stringGet (SString s) = Inr s"
| "stringGet _ = Inl (ExType ''String'')"

fun byteStringGet :: "snode \<Rightarrow> str_exn + u8 list" where
  "byteStringGet (SByteString s) = Inr s"
| "byteStringGet _ = Inl (ExType ''ByteString'')"

text \<open>How the operations report an erroneous slice.\<close>

fun check_slice :: "u8 lstring option \<Rightarrow> str_exn + u8 list" where
  "check_slice None = Inl ExUndefined"
| "check_slice (Some (LErr IndexOutOfBounds)) = Inl ExIndexOutOfBounds"
| "check_slice (Some (LErr e)) = Inl (ExUnicode e)"
| "check_slice (Some (LStr s)) = Inr s"

text \<open>\<open>std::search\<close>: the offset of the first occurrence, the length when there is none.\<close>

fun std_search :: "'c list \<Rightarrow> 'c list \<Rightarrow> nat" where
  "std_search [] needle = 0"
| "std_search (h # hs) needle = (if prefix needle (h # hs) then 0 else Suc (std_search hs needle))"

section \<open>Strings\<close>

text \<open>The unit in memory after the buffer is \<open>past\<close>, as in \<open>skipCodePoints\<close>.\<close>

definition string_equals :: "bool \<Rightarrow> u8 list \<Rightarrow> u8 list \<Rightarrow> bool" where
  "string_equals same_ptr a b = ls_equal same_ptr (LStr a) (LStr b)"

definition string_compare :: "bool \<Rightarrow> u8 list \<Rightarrow> snode \<Rightarrow> str_exn + int" where
  "string_compare same_ptr self right =
     and_then (stringGet right) (\<lambda>rightString. Inr (compareByCodePoint same_ptr self rightString))"


definition stringAppend :: "bool \<Rightarrow> u8 list \<Rightarrow> snode \<Rightarrow> str_exn + u8 list" where
  "stringAppend adjacent self right =
     and_then (stringGet right) (\<lambda>rightString.
       case concatLString adjacent (LStr self) (LStr rightString) of
         LErr e \<Rightarrow> Inl (ExUnicode e)
       | LStr s \<Rightarrow> Inr s)"

definition stringSlice :: "u8 \<Rightarrow> u8 list \<Rightarrow> snode \<Rightarrow> snode \<Rightarrow> str_exn + u8 list" where
  "stringSlice past self from to =
     and_then (int_argument ''integer'' from) (\<lambda>fromIndex.
     and_then (int_argument ''integer'' to) (\<lambda>toIndex.
       check_slice (sliceByCodePointsFromTo False isLeading8 past self (sint fromIndex) (sint toIndex))))"

text \<open>An integer needle is cast to \<open>char32_t\<close>, which keeps its 32 low bits.\<close>

fun needle_units :: "snode \<Rightarrow> str_exn + u8 list" where
  "needle_units (SInt codePointInteger) =
     (case to_utf8 (ucast codePointInteger) of
        Inl e \<Rightarrow> Inl (ExUnicode e)
      | Inr utf \<Rightarrow> Inr utf)"
| "needle_units needleNode = stringGet needleNode"

definition stringSearch :: "u8 \<Rightarrow> u8 list \<Rightarrow> snode \<Rightarrow> snode \<Rightarrow> str_exn + (nativeint \<times> nativeint) option" where
  "stringSearch past self from needleNode =
     and_then (int_argument ''integer'' from) (\<lambda>fromIndex.
     and_then (needle_units needleNode) (\<lambda>needle.
     and_then (check_slice (sliceByCodePointsFrom False isLeading8 past self (sint fromIndex))) (\<lambda>haystack.
       let found = std_search haystack needle
       in if found = length haystack then Inr None
          else
            let foundIndex = fromIndex + of_int (codePointCount False isLeading8 (LStr (take found haystack)))
            in Inr (Some (foundIndex, foundIndex + of_int (codePointCount False isLeading8 (LStr needle)))))))"

definition has_prefix_units :: "u8 list \<Rightarrow> u8 list \<Rightarrow> bool" where
  "has_prefix_units s p = (if length s < length p then False else take (length p) s = p)"

definition has_suffix_units :: "u8 list \<Rightarrow> u8 list \<Rightarrow> bool" where
  "has_suffix_units s p = (if length s < length p then False else drop (length s - length p) s = p)"

definition stringHasPrefix :: "u8 list \<Rightarrow> snode \<Rightarrow> str_exn + bool" where
  "stringHasPrefix self prefixNode =
     and_then (stringGet prefixNode) (\<lambda>p. Inr (has_prefix_units self p))"

definition stringHasSuffix :: "u8 list \<Rightarrow> snode \<Rightarrow> str_exn + bool" where
  "stringHasSuffix self suffixNode =
     and_then (stringGet suffixNode) (\<lambda>p. Inr (has_suffix_units self p))"



section \<open>Byte strings\<close>

definition compareByteStrings :: "bool \<Rightarrow> u8 list \<Rightarrow> u8 list \<Rightarrow> int" where
  "compareByteStrings same_ptr left right =
     (let cmpRes = (if same_ptr then 0 else units_compare (min (length left) (length right)) left right)
      in if cmpRes = 0 then length_compare left right else cmpRes)"

definition bytes_compare :: "bool \<Rightarrow> u8 list \<Rightarrow> snode \<Rightarrow> str_exn + int" where
  "bytes_compare same_ptr self right =
     and_then (byteStringGet right) (\<lambda>r. Inr (compareByteStrings same_ptr self r))"

definition bytes_isValidFeature :: "u8 list \<Rightarrow> nativeint \<Rightarrow> bool" where
  "bytes_isValidFeature self feature \<longleftrightarrow> 0 \<le> sint feature \<and> sint feature < int (length self)"

definition bytes_getValueAt :: "u8 list \<Rightarrow> nativeint \<Rightarrow> nativeint" where
  "bytes_getValueAt self feature = ucast (self ! nat (sint feature))"

definition bytes_charAt :: "u8 list \<Rightarrow> snode \<Rightarrow> str_exn + nativeint" where
  "bytes_charAt self offsetNode =
     and_then (int_argument ''integer'' offsetNode) (\<lambda>offset.
       if sint offset < 0 \<or> sint offset \<ge> int (length self) then Inl ExIndexOutOfBounds
       else Inr (ucast (self ! nat (sint offset))))"

definition bytes_append :: "bool \<Rightarrow> u8 list \<Rightarrow> snode \<Rightarrow> str_exn + u8 list" where
  "bytes_append adjacent self right =
     and_then (byteStringGet right) (\<lambda>rightBytes.
       case concatLString adjacent (LStr self) (LStr rightBytes) of
         LErr e \<Rightarrow> Inl (ExUnicode e)
       | LStr s \<Rightarrow> Inr s)"

definition bytes_slice :: "u8 list \<Rightarrow> snode \<Rightarrow> snode \<Rightarrow> str_exn + u8 list" where
  "bytes_slice self from to =
     and_then (int_argument ''integer'' from) (\<lambda>fromOffset.
     and_then (int_argument ''integer'' to) (\<lambda>toOffset.
       if sint fromOffset < 0 \<or> sint fromOffset > sint toOffset \<or> sint toOffset > int (length self)
       then Inl ExIndexOutOfBounds
       else check_slice (ls_slice (LStr self) (nat (sint fromOffset)) (nat (sint toOffset)))))"

text \<open>\<open>memchr\<close>: the offset of the first equal byte.\<close>

fun memchr :: "u8 list \<Rightarrow> u8 \<Rightarrow> nat option" where
  "memchr [] c = None"
| "memchr (b # bs) c = (if b = c then Some 0 else map_option Suc (memchr bs c))"

definition bytes_search :: "u8 list \<Rightarrow> snode \<Rightarrow> snode \<Rightarrow> str_exn + (nativeint \<times> nativeint) option" where
  "bytes_search self from needleNode =
     and_then (int_argument ''integer'' from) (\<lambda>fromOffset.
       if sint fromOffset < 0 \<or> sint fromOffset > int (length self) then Inl ExIndexOutOfBounds
       else
         and_then (check_slice (ls_slice_from (LStr self) (nat (sint fromOffset)))) (\<lambda>haystack.
           case needleNode of
             SInt character \<Rightarrow>
               if sint character < 0 \<or> sint character \<ge> 0x100
               then Inl (ExType ''Integer between 0 and 255'')
               else (case memchr haystack (ucast character) of
                       None \<Rightarrow> Inr None
                     | Some k \<Rightarrow> (let foundOffset = fromOffset + of_nat k
                                 in Inr (Some (foundOffset, foundOffset + 1))))
           | _ \<Rightarrow>
               and_then (byteStringGet needleNode) (\<lambda>needle.
                 let found = std_search haystack needle
                 in if found = length haystack then Inr None
                    else (let foundOffset = fromOffset + of_nat found
                          in Inr (Some (foundOffset, foundOffset + of_nat (length needle)))))))"

text \<open>The prefix and suffix tests of a byte string ask for a string, not for a byte string.\<close>

definition bytes_hasPrefix :: "u8 list \<Rightarrow> snode \<Rightarrow> str_exn + bool" where
  "bytes_hasPrefix self prefixNode =
     and_then (stringGet prefixNode) (\<lambda>p. Inr (has_prefix_units self p))"

definition bytes_hasSuffix :: "u8 list \<Rightarrow> snode \<Rightarrow> str_exn + bool" where
  "bytes_hasSuffix self suffixNode =
     and_then (stringGet suffixNode) (\<lambda>p. Inr (has_suffix_units self p))"

section \<open>Facts\<close>

lemma has_prefix_units_iff: "has_prefix_units s p \<longleftrightarrow> prefix p s"
  by (auto simp: has_prefix_units_def prefix_def) (metis append_take_drop_id)

lemma has_suffix_units_iff: "has_suffix_units s p \<longleftrightarrow> suffix p s"
proof
  assume "has_suffix_units s p"
  then have "drop (length s - length p) s = p" by (auto simp: has_suffix_units_def split: if_splits)
  then show "suffix p s" by (metis suffix_drop)
qed (auto simp: has_suffix_units_def suffix_def)

lemma skip_bounds:
  "skipCodePoints is_leading str past iter count = (i, ok) \<Longrightarrow> iter \<le> length str \<Longrightarrow> iter \<le> i \<and> i \<le> length str"
proof (induction is_leading str past iter count rule: skipCodePoints.induct)
  case (1 is_leading str past iter count)
  show ?case
  proof (cases "count > 0 \<and> iter < length str")
    case True
    let ?c = "if is_leading (if Suc iter < length str then str ! Suc iter else past) then count - 1 else count"
    have "skipCodePoints is_leading str past (Suc iter) ?c = (i, ok)"
      using 1(2) True by (subst (asm) skipCodePoints.simps) simp
    with 1(1)[OF True] True show ?thesis by simp
  next
    case False
    then show ?thesis using 1(2,3) by (subst (asm) skipCodePoints.simps) auto
  qed
qed

text \<open>No slice by code points ever leaves the buffer, well-formed or not.\<close>

lemma slice_never_undefined:
  "sliceByCodePointsFromTo False is_leading past s a b \<noteq> None"
  "sliceByCodePointsFrom False is_leading past s a \<noteq> None"
proof -
  obtain i ok where i: "skipCodePoints is_leading s past 0 a = (i, ok)" by fastforce
  obtain j ok' where j: "skipCodePoints is_leading s past i (b - a) = (j, ok')" by fastforce
  have "i \<le> length s" "i \<le> j" "j \<le> length s"
    using skip_bounds[OF i] skip_bounds[OF j] by auto
  then show "sliceByCodePointsFromTo False is_leading past s a b \<noteq> None"
    "sliceByCodePointsFrom False is_leading past s a \<noteq> None"
    using i j by (auto simp: sliceByCodePointsFromTo_def sliceByCodePointsFrom_def)
qed

subsection \<open>Searching units is searching code points\<close>

context unicode_codec
begin

lemma prefix_encode_all:
  "list_all isValidCodePoint cps \<Longrightarrow> list_all isValidCodePoint nds \<Longrightarrow>
   prefix (encode_all to_utf nds) (encode_all to_utf cps) \<longleftrightarrow> prefix nds cps"
proof (induction nds arbitrary: cps)
  case (Cons n nds)
  show ?case
  proof (cases cps)
    case Nil
    then show ?thesis using Cons.prems by (simp add: enc_nonempty)
  next
    case (Cons c cs)
    have v: "isValidCodePoint n" "isValidCodePoint c" using Cons.prems \<open>cps = c # cs\<close> by auto
    have "n = c" if "prefix (encode_all to_utf (n # nds)) (encode_all to_utf (c # cs))"
    proof -
      from that obtain z where "enc to_utf n @ encode_all to_utf nds @ z = enc to_utf c @ encode_all to_utf cs"
        by (auto simp: prefix_def)
      then show ?thesis using from_enc[OF v(1), of "encode_all to_utf nds @ z"] from_enc[OF v(2), of "encode_all to_utf cs"]
        by simp
    qed
    then show ?thesis using Cons Cons.IH[of cs] Cons.prems by auto
  qed
qed simp

text \<open>The units of a code point after its first one are not leading.\<close>

lemma enc_tail_not_leading:
  assumes "isValidCodePoint c" shows "\<exists>u vs. enc to_utf c = u # vs \<and> is_leading u \<and> (\<forall>v\<in>set vs. \<not> is_leading v)"
proof -
  have "is_leading (hd (encode_all to_utf [c]))" using assms by (intro hd_encode_all) auto
  moreover obtain u vs where "enc to_utf c = u # vs" using enc_nonempty[OF assms] by (cases "enc to_utf c") auto
  moreover have "length (filter is_leading (enc to_utf c)) = 1" by (rule filter_leading_enc[OF assms])
  ultimately show ?thesis by (auto simp: filter_empty_conv)
qed

lemma std_search_skip:
  "list_all (\<lambda>u. \<not> is_leading u) vs \<Longrightarrow> needle \<noteq> [] \<Longrightarrow> is_leading (hd needle) \<Longrightarrow>
   std_search (vs @ rest) needle = length vs + std_search rest needle"
  by (induction vs) (auto simp: prefix_def neq_Nil_conv Cons_eq_append_conv)

lemma std_search_encode_all:
  "list_all isValidCodePoint cps \<Longrightarrow> list_all isValidCodePoint nds \<Longrightarrow> nds \<noteq> [] \<Longrightarrow>
   std_search (encode_all to_utf cps) (encode_all to_utf nds) =
     length (encode_all to_utf (take (std_search cps nds) cps))"
proof (induction cps)
  case (Cons c cs)
  let ?E = "encode_all to_utf"
  have n: "?E nds \<noteq> []" "is_leading (hd (?E nds))"
    using Cons.prems encode_all_empty_iff hd_encode_all by auto
  obtain u vs where u: "enc to_utf c = u # vs" "\<forall>v\<in>set vs. \<not> is_leading v"
    using enc_tail_not_leading[of c] Cons.prems by auto
  show ?case
  proof (cases "prefix nds (c # cs)")
    case True
    then have "prefix (?E nds) (?E (c # cs))" using prefix_encode_all[of "c # cs" nds] Cons.prems by blast
    then show ?thesis using True u by simp
  next
    case False
    then have "\<not> prefix (?E nds) (?E (c # cs))" using prefix_encode_all[of "c # cs" nds] Cons.prems by blast
    then have "std_search (?E (c # cs)) (?E nds) = Suc (std_search (vs @ ?E cs) (?E nds))"
      using u by simp
    also have "\<dots> = Suc (length vs + std_search (?E cs) (?E nds))"
      using std_search_skip[of vs "?E nds" "?E cs"] u n by (simp add: list_all_iff)
    finally show ?thesis using Cons u False by simp
  qed
qed simp

lemma length_encode_all_take:
  "list_all isValidCodePoint cps \<Longrightarrow> i \<le> length cps \<Longrightarrow>
   length (encode_all to_utf (take i cps)) = length (encode_all to_utf cps) \<longleftrightarrow> i = length cps"
proof -
  assume a: "list_all isValidCodePoint cps" "i \<le> length cps"
  have "encode_all to_utf cps = encode_all to_utf (take i cps) @ encode_all to_utf (drop i cps)"
    using encode_all_simps(3)[of to_utf "take i cps" "drop i cps"] by simp
  then have "length (encode_all to_utf cps) =
      length (encode_all to_utf (take i cps)) + length (encode_all to_utf (drop i cps))"
    by (metis length_append)
  moreover have "encode_all to_utf (drop i cps) = [] \<longleftrightarrow> drop i cps = []"
    using a(1) by (intro encode_all_empty_iff) (auto simp: list_all_iff dest: in_set_dropD)
  ultimately show ?thesis using a(2) by auto
qed

lemma take_encode_all:
  "take (length (encode_all to_utf (take i cps))) (encode_all to_utf cps) = encode_all to_utf (take i cps)"
  using encode_all_simps(3)[of to_utf "take i cps" "drop i cps"]
  by (metis append_eq_conv_conj append_take_drop_id)

end

lemma std_search_le: "std_search h n \<le> length h"
  by (induction h) auto

lemma std_search_found:
  "std_search h n < length h \<Longrightarrow> prefix n (drop (std_search h n) h)"
  by (induction h) auto

lemma std_search_first: "j < std_search h n \<Longrightarrow> \<not> prefix n (drop j h)"
  by (induction h arbitrary: j) (auto split: if_splits simp: less_Suc_eq_0_disj)

text \<open>The specification of a search: the first place where the needle occurs.\<close>

definition first_occurrence :: "'c list \<Rightarrow> 'c list \<Rightarrow> nat \<Rightarrow> bool" where
  "first_occurrence needle hay i \<longleftrightarrow> prefix needle (drop i hay) \<and> (\<forall>j<i. \<not> prefix needle (drop j hay))"

lemma first_occurrence_unique: "first_occurrence n h i \<Longrightarrow> first_occurrence n h j \<Longrightarrow> i = j"
  unfolding first_occurrence_def by (meson linorder_neqE_nat)

lemma std_search_first_occurrence:
  assumes "n \<noteq> []"
  shows "first_occurrence n h i \<longleftrightarrow> i = std_search h n \<and> std_search h n \<noteq> length h"
proof -
  have "first_occurrence n h (std_search h n)" if "std_search h n \<noteq> length h"
    using that std_search_le[of h n] std_search_found[of h n] std_search_first[of _ h n]
    by (auto simp: first_occurrence_def)
  moreover have "std_search h n \<noteq> length h" if occ: "first_occurrence n h i"
  proof -
    have "i < length h" using occ assms by (cases "i < length h") (auto simp: first_occurrence_def)
    moreover have "\<not> i < std_search h n" using occ std_search_first[of i h n] by (auto simp: first_occurrence_def)
    ultimately show ?thesis using std_search_le[of h n] by simp
  qed
  ultimately show ?thesis using first_occurrence_unique by blast
qed

lemma first_occurrence_bound: "n \<noteq> [] \<Longrightarrow> first_occurrence n h i \<Longrightarrow> i < length h"
  using std_search_first_occurrence[of n h i] std_search_le[of h n] by simp




section \<open>Properties\<close>





text \<open>The prefix and suffix tests of a byte string answer exactly when their argument is a
  character string, by comparing with its UTF-8 units; given another byte string they always
  raise a type error.\<close>

theorem bytes_prefix_needs_string:
  "(bytes_hasPrefix self p = Inr b \<longleftrightarrow> (\<exists>s. p = SString s \<and> b = prefix s self)) \<and>
   (bytes_hasSuffix self p = Inr b \<longleftrightarrow> (\<exists>s. p = SString s \<and> b = suffix s self)) \<and>
   bytes_hasPrefix self (SByteString q) = Inl (ExType ''String'')"
  by (cases p) (auto simp: bytes_hasPrefix_def bytes_hasSuffix_def has_prefix_units_iff has_suffix_units_iff)

text \<open>An integer needle is reduced modulo \<open>2 ^ 32\<close> before it is encoded, so integers that
  are no code points at all are found in strings.\<close>

theorem string_search_truncates:
  "stringSearch past s from (SInt i) = stringSearch past s from (SInt (i AND 0xffffffff)) \<and>
   stringSearch 0 [0x41] (SInt 0) (SInt 0x100000041) = Inr (Some (0, 1))"
proof
  have "ucast (i AND 0xffffffff) = (ucast i :: char32)"
  proof (rule bit_word_eqI)
    fix n assume "n < LENGTH(32)"
    have m: "(0xffffffff :: nativeint) = mask 32" by (simp add: mask_eq_exp_minus_1)
    show "bit (ucast (i AND 0xffffffff) :: char32) n = bit (ucast i :: char32) n"
      using \<open>n < LENGTH(32)\<close> unfolding m by (auto simp: bit_simps)
  qed
  then show "stringSearch past s from (SInt i) = stringSearch past s from (SInt (i AND 0xffffffff))"
    by (simp add: stringSearch_def)
  have "to_utf8 (ucast (0x100000041 :: nativeint)) = Inr [0x41]" by (simp add: to_utf8_def)
  then show "stringSearch 0 [0x41] (SInt 0) (SInt 0x100000041) = Inr (Some (0, 1))"
    by (simp add: stringSearch_def sliceByCodePointsFrom_def skipCodePoints.simps codePointCount_def
        isLeading8_def ls_slice_from_def)
qed

end
