(* ===== verification/Integers.thy ===== *)
theory Integers
  imports Prelude "HOL-Library.Signed_Division"
begin

text \<open>
  Integers (\<open>vm/vm/main/smallint.hh\<close>, \<open>bigint.hh\<close>). A small integer is a 64-bit word; an
  operation that overflows goes through a big integer. The big integers are behind the abstract class
  \<open>BigIntImplem\<close> (\<open>bigintimplem-decl.hh\<close>), a record of operations here: its
  implementation is a library outside of the repository, and its laws are the locale
  \<open>big_integers\<close>.
\<close>

section \<open>The interface of big integers\<close>

text \<open>
  One field for each virtual method, and \<open>big_of\<close> for \<open>newBigIntImplem\<close>. Division answers
  \<open>None\<close> when the implementation throws.
\<close>

record 'b BigIntImplem =
  big_of :: "nativeint \<Rightarrow> 'b"
  big_neg :: "'b \<Rightarrow> 'b"
  big_add :: "'b \<Rightarrow> 'b \<Rightarrow> 'b"
  big_add_native :: "'b \<Rightarrow> nativeint \<Rightarrow> 'b"
  big_sub :: "'b \<Rightarrow> 'b \<Rightarrow> 'b"
  big_mul :: "'b \<Rightarrow> 'b \<Rightarrow> 'b"
  big_div :: "'b \<Rightarrow> 'b \<Rightarrow> 'b option"
  big_mod :: "'b \<Rightarrow> 'b \<Rightarrow> 'b option"
  big_cmp_native :: "'b \<Rightarrow> nativeint \<Rightarrow> int"
  big_cmp :: "'b \<Rightarrow> 'b \<Rightarrow> int"
  big_native :: "'b \<Rightarrow> nativeint"

datatype 'b num = Small nativeint | Big 'b | NotInt

text \<open>
  \<open>DivisionByZero\<close> is the kernel error of the code, \<open>Crash\<close> a division by zero that reaches
  the processor or an exception of the library.
\<close>

datatype int_exn = IntTypeError | DivisionByZero | Crash

definition small_min :: nativeint where
  "small_min = 0x8000000000000000"

definition small_max :: nativeint where
  "small_max = 0x7fffffffffffffff"

text \<open>Division and remainder of the processor, which truncate.\<close>

definition native_div :: "nativeint \<Rightarrow> nativeint \<Rightarrow> nativeint" where
  "native_div a b = word_of_int (sint a sdiv sint b)"

definition native_mod :: "nativeint \<Rightarrow> nativeint \<Rightarrow> nativeint" where
  "native_mod a b = word_of_int (sint a smod sint b)"

section \<open>Big integers\<close>

definition shrink :: "'b BigIntImplem \<Rightarrow> 'b \<Rightarrow> 'b num" where
  "shrink ops n =
     (if big_cmp_native ops n small_min \<ge> 0 \<and> big_cmp_native ops n small_max \<le> 0
      then Small (big_native ops n) else Big n)"

fun coerce :: "'b BigIntImplem \<Rightarrow> 'b num \<Rightarrow> int_exn + 'b" where
  "coerce ops (Small i) = Inr (big_of ops i)"
| "coerce ops (Big b) = Inr b"
| "coerce ops NotInt = Inl IntTypeError"

fun bigint_equals :: "'b BigIntImplem \<Rightarrow> 'b \<Rightarrow> 'b \<Rightarrow> bool" where
  "bigint_equals ops a b = (big_cmp ops a b = 0)"

fun bigint_compare :: "'b BigIntImplem \<Rightarrow> 'b \<Rightarrow> 'b num \<Rightarrow> int_exn + int" where
  "bigint_compare ops a (Small i) = Inr (big_cmp_native ops a i)"
| "bigint_compare ops a (Big b) = Inr (big_cmp ops a b)"
| "bigint_compare ops a NotInt = Inl IntTypeError"

definition bigint_opposite :: "'b BigIntImplem \<Rightarrow> 'b \<Rightarrow> 'b num" where
  "bigint_opposite ops a = shrink ops (big_neg ops a)"

fun bigint_add :: "'b BigIntImplem \<Rightarrow> 'b \<Rightarrow> 'b num \<Rightarrow> int_exn + 'b num" where
  "bigint_add ops a (Small i) = Inr (shrink ops (big_add_native ops a i))"
| "bigint_add ops a (Big b) = Inr (shrink ops (big_add ops a b))"
| "bigint_add ops a NotInt = Inl IntTypeError"

definition bigint_subtract :: "'b BigIntImplem \<Rightarrow> 'b \<Rightarrow> 'b num \<Rightarrow> int_exn + 'b num" where
  "bigint_subtract ops a r = and_then (coerce ops r) (\<lambda>b. Inr (shrink ops (big_sub ops a b)))"

definition bigint_multiply :: "'b BigIntImplem \<Rightarrow> 'b \<Rightarrow> 'b num \<Rightarrow> int_exn + 'b num" where
  "bigint_multiply ops a r = and_then (coerce ops r) (\<lambda>b. Inr (shrink ops (big_mul ops a b)))"

definition checked :: "'b BigIntImplem \<Rightarrow> 'b option \<Rightarrow> int_exn + 'b num" where
  "checked ops q = (case q of None \<Rightarrow> Inl Crash | Some n \<Rightarrow> Inr (shrink ops n))"

fun bigint_div :: "'b BigIntImplem \<Rightarrow> 'b \<Rightarrow> 'b num \<Rightarrow> int_exn + 'b num" where
  "bigint_div ops a (Small divisor) =
     (if divisor = 0 then Inl DivisionByZero else checked ops (big_div ops a (big_of ops divisor)))"
| "bigint_div ops a (Big b) = checked ops (big_div ops a b)"
| "bigint_div ops a NotInt = Inl IntTypeError"

definition bigint_mod :: "'b BigIntImplem \<Rightarrow> 'b \<Rightarrow> 'b num \<Rightarrow> int_exn + 'b num" where
  "bigint_mod ops a r = and_then (coerce ops r) (\<lambda>b. checked ops (big_mod ops a b))"

definition bigint_abs :: "'b BigIntImplem \<Rightarrow> 'b \<Rightarrow> 'b num" where
  "bigint_abs ops a = (if big_cmp_native ops a 0 < 0 then bigint_opposite ops a else Big a)"

section \<open>Small integers\<close>

definition smallint_compareFeatures :: "nativeint \<Rightarrow> nativeint \<Rightarrow> int" where
  "smallint_compareFeatures a rhs = (if a = rhs then 0 else if a <s rhs then -1 else 1)"

fun smallint_compare :: "'b BigIntImplem \<Rightarrow> nativeint \<Rightarrow> 'b num \<Rightarrow> int_exn + int" where
  "smallint_compare ops a (Small i) = Inr (if a = i then 0 else if a <s i then -1 else 1)"
| "smallint_compare ops a (Big b) = and_then (bigint_compare ops b (Small a)) (\<lambda>c. Inr (- c))"
| "smallint_compare ops a NotInt = Inl IntTypeError"

definition smallint_opposite :: "'b BigIntImplem \<Rightarrow> nativeint \<Rightarrow> 'b num" where
  "smallint_opposite ops a =
     (if a \<noteq> small_min then Small (- a) else bigint_opposite ops (big_of ops small_min))"

definition smallint_addValue :: "'b BigIntImplem \<Rightarrow> nativeint \<Rightarrow> nativeint \<Rightarrow> int_exn + 'b num" where
  "smallint_addValue ops a b =
     (let c = a + b
      in if signed_drop_bit 63 ((a XOR c) AND (b XOR c)) = 0 then Inr (Small c)
         else bigint_add ops (big_of ops a) (Small b))"

fun smallint_add :: "'b BigIntImplem \<Rightarrow> nativeint \<Rightarrow> 'b num \<Rightarrow> int_exn + 'b num" where
  "smallint_add ops a (Small b) = smallint_addValue ops a b"
| "smallint_add ops a (Big b) = bigint_add ops (big_of ops a) (Big b)"
| "smallint_add ops a NotInt = Inl IntTypeError"

definition smallint_subtractValue :: "'b BigIntImplem \<Rightarrow> nativeint \<Rightarrow> nativeint \<Rightarrow> int_exn + 'b num" where
  "smallint_subtractValue ops a b =
     (let c = a - b
      in if signed_drop_bit 63 (NOT (a XOR NOT b) AND (a XOR c)) = 0 then Inr (Small c)
         else bigint_subtract ops (big_of ops a) (Small b))"

fun smallint_subtract :: "'b BigIntImplem \<Rightarrow> nativeint \<Rightarrow> 'b num \<Rightarrow> int_exn + 'b num" where
  "smallint_subtract ops a (Small b) = smallint_subtractValue ops a b"
| "smallint_subtract ops a (Big b) = bigint_subtract ops (big_of ops a) (Big b)"
| "smallint_subtract ops a NotInt = Inl IntTypeError"

definition testMultiplyOverflow :: "nativeint \<Rightarrow> nativeint \<Rightarrow> bool" where
  "testMultiplyOverflow a b =
     (let absa = (if a <s 0 then - a else a); absb = (if b <s 0 then - b else b)
      in if signed_drop_bit 31 (absa OR absb) = 0 then False
         else a = small_min \<or> (b \<noteq> 0 \<and> native_div small_max absb \<le>s absa))"

definition smallint_multiplyValue :: "'b BigIntImplem \<Rightarrow> nativeint \<Rightarrow> nativeint \<Rightarrow> int_exn + 'b num" where
  "smallint_multiplyValue ops a b =
     (if \<not> testMultiplyOverflow a b then Inr (Small (a * b))
      else bigint_multiply ops (big_of ops a) (Small b))"

fun smallint_multiply :: "'b BigIntImplem \<Rightarrow> nativeint \<Rightarrow> 'b num \<Rightarrow> int_exn + 'b num" where
  "smallint_multiply ops a (Small b) = smallint_multiplyValue ops a b"
| "smallint_multiply ops a (Big b) = bigint_multiply ops (big_of ops a) (Big b)"
| "smallint_multiply ops a NotInt = Inl IntTypeError"

definition smallint_divValue :: "'b BigIntImplem \<Rightarrow> nativeint \<Rightarrow> nativeint \<Rightarrow> int_exn + 'b num" where
  "smallint_divValue ops a b =
     (if b = 0 then Inl DivisionByZero
      else if a \<noteq> small_min \<or> b \<noteq> -1 then Inr (Small (native_div a b))
      else bigint_div ops (big_of ops a) (Small b))"

fun smallint_div :: "'b BigIntImplem \<Rightarrow> nativeint \<Rightarrow> 'b num \<Rightarrow> int_exn + 'b num" where
  "smallint_div ops a (Small b) = smallint_divValue ops a b"
| "smallint_div ops a (Big b) = bigint_div ops (big_of ops a) (Big b)"
| "smallint_div ops a NotInt = Inl IntTypeError"

definition smallint_modValue :: "'b BigIntImplem \<Rightarrow> nativeint \<Rightarrow> nativeint \<Rightarrow> int_exn + 'b num" where
  "smallint_modValue ops a b =
     (if a \<noteq> small_min \<or> b \<noteq> -1
      then (if b = 0 then Inl Crash else Inr (Small (native_mod a b)))
      else bigint_mod ops (big_of ops a) (Small b))"

fun smallint_mod :: "'b BigIntImplem \<Rightarrow> nativeint \<Rightarrow> 'b num \<Rightarrow> int_exn + 'b num" where
  "smallint_mod ops a (Small b) = smallint_modValue ops a b"
| "smallint_mod ops a (Big b) = bigint_mod ops (big_of ops a) (Big b)"
| "smallint_mod ops a NotInt = Inl IntTypeError"

definition smallint_abs :: "'b BigIntImplem \<Rightarrow> nativeint \<Rightarrow> 'b num" where
  "smallint_abs ops a =
     (if a \<noteq> small_min then Small (if 0 \<le>s a then a else - a)
      else bigint_opposite ops (big_of ops small_min))"

section \<open>The interface \<open>Numeric\<close>\<close>

text \<open>Dispatch on the type of the left operand.\<close>

fun num_opposite :: "'b BigIntImplem \<Rightarrow> 'b num \<Rightarrow> int_exn + 'b num" where
  "num_opposite ops (Small a) = Inr (smallint_opposite ops a)"
| "num_opposite ops (Big a) = Inr (bigint_opposite ops a)"
| "num_opposite ops NotInt = Inl IntTypeError"

fun num_add :: "'b BigIntImplem \<Rightarrow> 'b num \<Rightarrow> 'b num \<Rightarrow> int_exn + 'b num" where
  "num_add ops (Small a) r = smallint_add ops a r"
| "num_add ops (Big a) r = bigint_add ops a r"
| "num_add ops NotInt r = Inl IntTypeError"

fun num_subtract :: "'b BigIntImplem \<Rightarrow> 'b num \<Rightarrow> 'b num \<Rightarrow> int_exn + 'b num" where
  "num_subtract ops (Small a) r = smallint_subtract ops a r"
| "num_subtract ops (Big a) r = bigint_subtract ops a r"
| "num_subtract ops NotInt r = Inl IntTypeError"

fun num_multiply :: "'b BigIntImplem \<Rightarrow> 'b num \<Rightarrow> 'b num \<Rightarrow> int_exn + 'b num" where
  "num_multiply ops (Small a) r = smallint_multiply ops a r"
| "num_multiply ops (Big a) r = bigint_multiply ops a r"
| "num_multiply ops NotInt r = Inl IntTypeError"

fun num_div :: "'b BigIntImplem \<Rightarrow> 'b num \<Rightarrow> 'b num \<Rightarrow> int_exn + 'b num" where
  "num_div ops (Small a) r = smallint_div ops a r"
| "num_div ops (Big a) r = bigint_div ops a r"
| "num_div ops NotInt r = Inl IntTypeError"

fun num_mod :: "'b BigIntImplem \<Rightarrow> 'b num \<Rightarrow> 'b num \<Rightarrow> int_exn + 'b num" where
  "num_mod ops (Small a) r = smallint_mod ops a r"
| "num_mod ops (Big a) r = bigint_mod ops a r"
| "num_mod ops NotInt r = Inl IntTypeError"

fun num_abs :: "'b BigIntImplem \<Rightarrow> 'b num \<Rightarrow> int_exn + 'b num" where
  "num_abs ops (Small a) = Inr (smallint_abs ops a)"
| "num_abs ops (Big a) = Inr (bigint_abs ops a)"
| "num_abs ops NotInt = Inl IntTypeError"

fun num_compare :: "'b BigIntImplem \<Rightarrow> 'b num \<Rightarrow> 'b num \<Rightarrow> int_exn + int" where
  "num_compare ops (Small a) r = smallint_compare ops a r"
| "num_compare ops (Big a) r = bigint_compare ops a r"
| "num_compare ops NotInt r = Inl IntTypeError"

section \<open>Overflow tests\<close>

lemma sint_range: "- (2 ^ 63) \<le> sint (a::nativeint)" "sint (a::nativeint) < 2 ^ 63"
  using sint_ge[of a] sint_lt[of a] by simp_all

lemma sint_eqI: "sint a = sint b \<Longrightarrow> a = (b::nativeint)"
  by (rule signed_word_eqI)

lemma sint_of_int: "- (2 ^ 63) \<le> k \<Longrightarrow> k < 2 ^ 63 \<Longrightarrow> sint (word_of_int k :: nativeint) = k"
  using signed_take_bit_int_eq_self[of 63 k] by (simp add: sint_sbintrunc')

lemma sint_wrap:
  assumes "- (2 ^ 64) \<le> k" "k < 2 ^ 64"
  shows "sint (word_of_int k :: nativeint) =
    (if 2 ^ 63 \<le> k then k - 2 ^ 64 else if k < - (2 ^ 63) then k + 2 ^ 64 else k)"
proof -
  have e: "word_of_int (k - 2 ^ 64) = (word_of_int k :: nativeint)"
    "word_of_int (k + 2 ^ 64) = (word_of_int k :: nativeint)" by simp_all
  show ?thesis
    using assms sint_of_int[of "k - 2 ^ 64", unfolded e] sint_of_int[of "k + 2 ^ 64", unfolded e]
      sint_of_int[of k] by simp
qed

lemma sint_add64: "sint (a + b :: nativeint) =
  (let s = sint a + sint b in if 2 ^ 63 \<le> s then s - 2 ^ 64 else if s < - (2 ^ 63) then s + 2 ^ 64 else s)"
proof -
  have "a + b = word_of_int (sint a + sint b)" by simp
  then show ?thesis using sint_wrap[of "sint a + sint b"] sint_range[of a] sint_range[of b]
    by (simp add: Let_def)
qed

lemma sint_sub64: "sint (a - b :: nativeint) =
  (let s = sint a - sint b in if 2 ^ 63 \<le> s then s - 2 ^ 64 else if s < - (2 ^ 63) then s + 2 ^ 64 else s)"
proof -
  have "a - b = word_of_int (sint a - sint b)" by simp
  then show ?thesis using sint_wrap[of "sint a - sint b"] sint_range[of a] sint_range[of b]
    by (simp add: Let_def)
qed

lemma sint_neg64: "a \<noteq> small_min \<Longrightarrow> sint (- a) = - sint a"
proof -
  assume "a \<noteq> small_min"
  moreover have "a = small_min" if "sint a = - (2 ^ 63)"
    using that by (intro signed_word_eqI) (simp add: small_min_def)
  ultimately have "sint a \<noteq> - (2 ^ 63)" by blast
  moreover have "- a = word_of_int (- sint a)" by simp
  ultimately show ?thesis using sint_wrap[of "- sint a"] sint_range[of a] by auto
qed

lemma sint_limits: "sint small_min = - (2 ^ 63)" "sint small_max = 2 ^ 63 - 1"
  by (simp_all add: small_min_def small_max_def)

lemma sint_minus_one: "sint (-1 :: nativeint) = -1"
  by simp

text \<open>The sign bit, which is what shifting by 63 leaves.\<close>

lemma sign_bit: "bit a 63 \<longleftrightarrow> sint (a::nativeint) < 0"
proof -
  have "bit (sint a) 63 \<longleftrightarrow> bit a 63" by (simp add: bit_sint_iff)
  moreover have "bit (sint a) 63 \<longleftrightarrow> sint a < 0"
  proof (cases "sint a < 0")
    case True
    then have "(sint a) div 2 ^ 63 = -1" using sint_range[of a]
      by (intro int_div_pos_eq[where r = "sint a + 2 ^ 63"]) auto
    then show ?thesis using True by (simp only: bit_iff_odd) simp
  next
    case False
    then have "(sint a) div 2 ^ 63 = 0" using sint_range[of a] by (intro div_pos_pos_trivial) auto
    then show ?thesis using False by (simp only: bit_iff_odd) simp
  qed
  ultimately show ?thesis by simp
qed

lemma shift63: "signed_drop_bit 63 x = 0 \<longleftrightarrow> \<not> bit (x::nativeint) 63"
proof
  assume "signed_drop_bit 63 x = 0"
  then have "\<not> bit (signed_drop_bit 63 x) 0" by simp
  then show "\<not> bit x 63" by (simp add: bit_signed_drop_bit_iff)
next
  assume b: "\<not> bit x 63"
  show "signed_drop_bit 63 x = 0"
  proof (rule bit_word_eqI)
    fix n assume "n < LENGTH(64)"
    then show "bit (signed_drop_bit 63 x) n = bit (0::nativeint) n"
      using b by (cases "n = 0") (auto simp: bit_signed_drop_bit_iff)
  qed
qed

lemma add_overflow_test:
  "signed_drop_bit 63 ((a XOR (a + b)) AND (b XOR (a + b))) = 0 \<longleftrightarrow>
   sint (a + b :: nativeint) = sint a + sint b"
proof -
  have "signed_drop_bit 63 ((a XOR (a + b)) AND (b XOR (a + b))) = 0 \<longleftrightarrow>
      \<not> ((sint a < 0) \<noteq> (sint (a + b) < 0) \<and> (sint b < 0) \<noteq> (sint (a + b) < 0))"
    unfolding shift63 bit_and_iff bit_xor_iff unfolding sign_bit by auto
  then show ?thesis unfolding sint_add64 Let_def using sint_range[of a] sint_range[of b] by auto
qed

lemma sub_overflow_test:
  "signed_drop_bit 63 (NOT (a XOR NOT b) AND (a XOR (a - b))) = 0 \<longleftrightarrow>
   sint (a - b :: nativeint) = sint a - sint b"
proof -
  have "signed_drop_bit 63 (NOT (a XOR NOT b) AND (a XOR (a - b))) = 0 \<longleftrightarrow>
      \<not> ((sint a < 0) \<noteq> (sint b < 0) \<and> (sint a < 0) \<noteq> (sint (a - b) < 0))"
    unfolding shift63 bit_and_iff bit_xor_iff bit_not_iff unfolding sign_bit by auto
  then show ?thesis unfolding sint_sub64 Let_def using sint_range[of a] sint_range[of b] by auto
qed

lemma shift31:
  assumes "signed_drop_bit 31 (x OR y) = (0::nativeint)"
  shows "0 \<le> sint x \<and> sint x < 2 ^ 31"
proof -
  have k: "\<not> bit (x OR y) (31 + k)" if "k < 33" for k
  proof -
    have "bit (signed_drop_bit 31 (x OR y)) k \<longleftrightarrow> bit (x OR y) (31 + k)"
      using that by (simp add: bit_signed_drop_bit_iff)
    then show ?thesis using assms by simp
  qed
  have b: "\<not> bit x n" if n: "31 \<le> n" "n < 64" for n
  proof -
    obtain k where "n = 31 + k" using le_Suc_ex[OF n(1)] by blast
    then show ?thesis using k[of k] n(2) by (simp add: bit_or_iff)
  qed
  have "x = take_bit 31 x"
  proof (rule bit_word_eqI)
    fix n assume "n < LENGTH(64)"
    then show "bit x n = bit (take_bit 31 x) n" using b[of n] by (cases "n < 31") (simp_all add: bit_take_bit_iff)
  qed
  then have "unat x < 2 ^ 31"
    using take_bit_nat_less_exp[of 31 "unat x"] unsigned_take_bit_eq[of 31 x, where 'a = nat] by simp
  then have "int (unat x) < int (2 ^ 31)" by (rule of_nat_less_iff[THEN iffD2])
  then have u: "uint x < 2147483648" by simp
  have "sint (word_of_int (uint x) :: nativeint) = uint x"
    by (rule sint_of_int, rule order_trans[OF _ uint_ge_0]) (use u in simp_all)
  then have "sint x = uint x" by simp
  then show ?thesis using u uint_ge_0[of x] by simp
qed

lemma sint_abs64:
  assumes "a \<noteq> small_min" shows "sint (if a <s 0 then - a else a) = \<bar>sint a\<bar>"
  using sint_neg64[OF assms] by (auto simp: word_sless_alt)

lemma signed_div_bounds:
  "\<bar>a sdiv b\<bar> \<le> \<bar>a :: int\<bar>"
proof -
  have "\<bar>a\<bar> div \<bar>b\<bar> \<le> \<bar>a\<bar>" using zdiv_mono2[of "\<bar>a\<bar>" 1 "\<bar>b\<bar>"] by (cases "b = 0") auto
  moreover have "0 \<le> \<bar>a\<bar> div \<bar>b\<bar>" by (cases "b = 0") (auto simp: pos_imp_zdiv_nonneg_iff)
  ultimately show ?thesis by (simp add: signed_divide_int_def abs_mult)
qed


lemma native_div: "\<not> (a = small_min \<and> b = -1) \<Longrightarrow> sint (native_div a b) = sint a sdiv sint b"
proof -
  assume n: "\<not> (a = small_min \<and> b = -1)"
  have bound: "\<bar>sint a sdiv sint b\<bar> \<le> \<bar>sint a\<bar>" by (rule signed_div_bounds)
  show ?thesis
  proof (cases "a = small_min")
    case False
    then have "\<bar>sint a\<bar> < 2 ^ 63" using sint_range[of a] sint_neg64[of a] sint_range[of "- a"] by linarith
    then show ?thesis using bound unfolding native_div_def by (intro sint_of_int) linarith+
  next
    case True
    then have "b \<noteq> -1" using n by simp
    then have "sint b \<noteq> -1" using signed_word_eqI[of b "-1"] sint_minus_one by auto
    then have "sint b = 0 \<or> sint b = 1 \<or> 2 \<le> \<bar>sint b\<bar>" by linarith
    then have "\<bar>sint a\<bar> div \<bar>sint b\<bar> \<le> 2 ^ 62 \<or> sint b = 1"
      using zdiv_mono2[of "2 ^ 63" 2 "\<bar>sint b\<bar>"] True sint_limits(1) by auto
    moreover have "sint a sdiv sint b \<le> \<bar>sint a\<bar> div \<bar>sint b\<bar>"
      by (simp add: signed_divide_int_def sgn_if pos_imp_zdiv_nonneg_iff)
    ultimately have "sint a sdiv sint b < 2 ^ 63"
      using True sint_limits(1) by (auto simp: signed_divide_int_def)
    moreover have "- (2 ^ 63) \<le> sint a sdiv sint b" using bound True sint_limits(1) by simp
    ultimately show ?thesis unfolding native_div_def by (intro sint_of_int)
  qed
qed

lemma native_mod: "b \<noteq> 0 \<Longrightarrow> sint (native_mod a b) = sint a smod sint b"
proof -
  assume "b \<noteq> 0"
  then have "sint b \<noteq> 0" using sint_eqI[of b 0] by auto
  then have "\<bar>sint b\<bar> > 0" by simp
  then have "\<bar>sint a\<bar> mod \<bar>sint b\<bar> < \<bar>sint b\<bar>" "0 \<le> \<bar>sint a\<bar> mod \<bar>sint b\<bar>"
    by (rule pos_mod_bound pos_mod_sign)+
  moreover have "\<bar>sint b\<bar> \<le> 2 ^ 63" using sint_range[of b] by linarith
  ultimately have "\<bar>sint a smod sint b\<bar> < 2 ^ 63"
    by (auto simp: signed_modulo_int_def abs_mult sgn_if)
  then show ?thesis unfolding native_mod_def by (intro sint_of_int) linarith+
qed

lemma sint_mul64:
  assumes "\<bar>sint a * sint b\<bar> < 2 ^ 63" shows "sint (a * b :: nativeint) = sint a * sint b"
proof -
  have "a * b = word_of_int (sint a * sint b)" by simp
  then show ?thesis using sint_of_int[of "sint a * sint b"] assms by simp
qed

lemma no_multiply_overflow:
  assumes "\<not> testMultiplyOverflow a b" shows "sint (a * b) = sint a * sint b"
proof (rule sint_mul64)
  let ?x = "if a <s 0 then - a else a" and ?y = "if b <s 0 then - b else b"
  have min: "sint (if c <s 0 then - c else c) = - (2 ^ 63)" if "c = small_min" for c
    using that by (simp add: small_min_def)
  show "\<bar>sint a * sint b\<bar> < 2 ^ 63"
  proof (cases "signed_drop_bit 31 (?x OR ?y) = 0")
    case True
    have x: "0 \<le> sint ?x \<and> sint ?x < 2 ^ 31" by (rule shift31[OF True])
    have y: "0 \<le> sint ?y \<and> sint ?y < 2 ^ 31" using True by (intro shift31[of ?y ?x]) (simp add: or.commute)
    have "a \<noteq> small_min" "b \<noteq> small_min" using min[of a] min[of b] x y by auto
    then have "\<bar>sint a\<bar> \<le> 2 ^ 31" "\<bar>sint b\<bar> \<le> 2 ^ 31" using x y sint_abs64[of a] sint_abs64[of b] by linarith+
    then have "\<bar>sint a\<bar> * \<bar>sint b\<bar> \<le> 2 ^ 31 * 2 ^ 31" by (intro mult_mono) auto
    then show ?thesis by (simp add: abs_mult)
  next
    case False
    then have a: "a \<noteq> small_min" and b: "b = 0 \<or> \<not> native_div small_max ?y \<le>s ?x"
      using assms by (auto simp: testMultiplyOverflow_def Let_def)
    show ?thesis
    proof (cases "b = 0")
      case False
      then have b0: "sint b \<noteq> 0" using sint_eqI[of b 0] by auto
      have lt: "sint ?x < sint small_max sdiv sint ?y"
        using False b native_div[of small_max ?y] by (auto simp: word_sle_eq small_max_def small_min_def)
      have "b \<noteq> small_min"
      proof
        assume "b = small_min"
        then have "sint ?y = - (2 ^ 63)" by (rule min)
        then have "sint small_max sdiv sint ?y = 0" by (simp only: sint_limits) (simp add: signed_divide_int_def)
        then show False using lt sint_abs64[OF a] by simp
      qed
      then have y: "sint ?y = \<bar>sint b\<bar>" by (rule sint_abs64)
      then have "\<bar>sint a\<bar> < (2 ^ 63 - 1) div \<bar>sint b\<bar>"
        using lt sint_abs64[OF a] b0 by (simp add: signed_divide_int_def sint_limits sgn_if)
      then have "\<bar>sint a\<bar> * \<bar>sint b\<bar> \<le> (2 ^ 63 - 1) div \<bar>sint b\<bar> * \<bar>sint b\<bar>" by (intro mult_right_mono) auto
      also have "\<dots> = (2 ^ 63 - 1) - (2 ^ 63 - 1) mod \<bar>sint b\<bar>" by (rule minus_mod_eq_div_mult[symmetric])
      also have "\<dots> \<le> 2 ^ 63 - 1" using b0 by simp
      finally show ?thesis by (simp add: abs_mult)
    qed simp
  qed
qed

section \<open>Exactness\<close>

text \<open>The integer a node stands for; a canonical node is big only when it has to be.\<close>

fun num_value :: "('b \<Rightarrow> int) \<Rightarrow> 'b num \<Rightarrow> int" where
  "num_value val (Small i) = sint i"
| "num_value val (Big b) = val b"
| "num_value val NotInt = 0"

fun canonical :: "('b \<Rightarrow> int) \<Rightarrow> 'b num \<Rightarrow> bool" where
  "canonical val (Small i) = True"
| "canonical val (Big b) = (val b < - (2 ^ 63) \<or> 2 ^ 63 \<le> val b)"
| "canonical val NotInt = False"

text \<open>A result is exact when it is the canonical node of the integer.\<close>

definition exact :: "('b \<Rightarrow> int) \<Rightarrow> int_exn + 'b num \<Rightarrow> int \<Rightarrow> bool" where
  "exact val r k \<longleftrightarrow> (\<exists>x. r = Inr x \<and> canonical val x \<and> num_value val x = k)"

lemma exact_Small [simp]: "exact val (Inr (Small i)) k \<longleftrightarrow> sint i = k"
  by (simp add: exact_def)

locale big_integers =
  fixes ops :: "'b BigIntImplem" and val :: "'b \<Rightarrow> int"
  assumes val_of: "val (big_of ops i) = sint i"
    and val_neg: "val (big_neg ops a) = - val a"
    and val_add: "val (big_add ops a b) = val a + val b"
    and val_add_native: "val (big_add_native ops a i) = val a + sint i"
    and val_sub: "val (big_sub ops a b) = val a - val b"
    and val_mul: "val (big_mul ops a b) = val a * val b"
    and val_div: "val b \<noteq> 0 \<Longrightarrow> map_option val (big_div ops a b) = Some (val a sdiv val b)"
    and val_mod: "val b \<noteq> 0 \<Longrightarrow> map_option val (big_mod ops a b) = Some (val a smod val b)"
    and cmp_native: "sgn (big_cmp_native ops a i) = sgn (val a - sint i)"
    and cmp: "sgn (big_cmp ops a b) = sgn (val a - val b)"
    and native: "- (2 ^ 63) \<le> val a \<Longrightarrow> val a < 2 ^ 63 \<Longrightarrow> sint (big_native ops a) = val a"
begin

lemma cmp_native_sign:
  "0 \<le> big_cmp_native ops a i \<longleftrightarrow> sint i \<le> val a" "big_cmp_native ops a i \<le> 0 \<longleftrightarrow> val a \<le> sint i"
  "big_cmp_native ops a i < 0 \<longleftrightarrow> val a < sint i"
  using cmp_native[of a i] by (auto simp: sgn_if split: if_splits)

lemma shrink_exact [simp]: "exact val (Inr (shrink ops n)) k \<longleftrightarrow> val n = k"
  using native[of n] by (auto simp: exact_def shrink_def cmp_native_sign sint_limits)

lemma checked_div: "val b \<noteq> 0 \<Longrightarrow> exact val (checked ops (big_div ops a b)) (val a sdiv val b)"
  using val_div[of b a] by (auto simp: checked_def)

lemma checked_mod: "val b \<noteq> 0 \<Longrightarrow> exact val (checked ops (big_mod ops a b)) (val a smod val b)"
  using val_mod[of b a] by (auto simp: checked_def)

lemma coerce_val:
  "canonical val r \<Longrightarrow> \<exists>b. coerce ops r = Inr b \<and> val b = num_value val r"
  by (cases r) (auto simp: val_of)

lemma bigint_exact:
  assumes "canonical val r"
  shows "exact val (bigint_add ops a r) (val a + num_value val r)"
    and "exact val (bigint_subtract ops a r) (val a - num_value val r)"
    and "exact val (bigint_multiply ops a r) (val a * num_value val r)"
    and "num_value val r \<noteq> 0 \<Longrightarrow> exact val (bigint_div ops a r) (val a sdiv num_value val r)"
    and "num_value val r \<noteq> 0 \<Longrightarrow> exact val (bigint_mod ops a r) (val a smod num_value val r)"
proof -
  obtain b where b: "coerce ops r = Inr b" "val b = num_value val r" using coerce_val[OF assms] by blast
  show "exact val (bigint_add ops a r) (val a + num_value val r)"
    using assms by (cases r) (simp_all add: val_add val_add_native)
  show "exact val (bigint_subtract ops a r) (val a - num_value val r)"
    "exact val (bigint_multiply ops a r) (val a * num_value val r)"
    using b by (simp_all add: bigint_subtract_def bigint_multiply_def val_sub val_mul)
  show "exact val (bigint_div ops a r) (val a sdiv num_value val r)" if "num_value val r \<noteq> 0"
    using assms that checked_div[of "big_of ops i" a for i] checked_div[of _ a]
    by (cases r) (auto simp: val_of)
  show "exact val (bigint_mod ops a r) (val a smod num_value val r)" if "num_value val r \<noteq> 0"
    using b that checked_mod[of b a] by (simp add: bigint_mod_def)
qed

lemma opposite_min: "exact val (Inr (bigint_opposite ops (big_of ops small_min))) (2 ^ 63)"
  by (simp add: bigint_opposite_def val_neg val_of sint_limits)

lemma smallint_exact:
  assumes "canonical val r"
  shows "exact val (smallint_add ops a r) (sint a + num_value val r)"
    and "exact val (smallint_subtract ops a r) (sint a - num_value val r)"
    and "exact val (smallint_multiply ops a r) (sint a * num_value val r)"
    and "num_value val r \<noteq> 0 \<Longrightarrow> exact val (smallint_div ops a r) (sint a sdiv num_value val r)"
    and "num_value val r \<noteq> 0 \<Longrightarrow> exact val (smallint_mod ops a r) (sint a smod num_value val r)"
proof -
  note big = bigint_exact[OF assms, of "big_of ops a", unfolded val_of]
  show "exact val (smallint_add ops a r) (sint a + num_value val r)"
    using assms big(1) by (cases r) (auto simp: smallint_addValue_def Let_def add_overflow_test)
  show "exact val (smallint_subtract ops a r) (sint a - num_value val r)"
    using assms big(2) by (cases r) (auto simp: smallint_subtractValue_def Let_def sub_overflow_test[simplified])
  show "exact val (smallint_multiply ops a r) (sint a * num_value val r)"
    using assms big(3) no_multiply_overflow by (cases r) (auto simp: smallint_multiplyValue_def)
  show "exact val (smallint_div ops a r) (sint a sdiv num_value val r)" if "num_value val r \<noteq> 0"
    using assms that big(4) by (cases r) (auto simp: smallint_divValue_def native_div)
  show "exact val (smallint_mod ops a r) (sint a smod num_value val r)" if "num_value val r \<noteq> 0"
    using assms that big(5) by (cases r) (auto simp: smallint_modValue_def native_mod)
qed

lemma compare_sign:
  "canonical val l \<Longrightarrow> canonical val r \<Longrightarrow>
   \<exists>c. num_compare ops l r = Inr c \<and> sgn c = sgn (num_value val l - num_value val r)"
proof (cases l)
  case (Small a)
  assume c: "canonical val r"
  show ?thesis
  proof (cases r)
    case (Small b)
    then show ?thesis using \<open>l = Small a\<close> sint_eqI[of a b] by (auto simp: word_sless_alt sgn_if)
  next
    case (Big b)
    then show ?thesis using \<open>l = Small a\<close> cmp_native[of b a]
      by auto (metis minus_diff_eq sgn_minus)
  qed (use c in simp)
next
  case (Big a)
  assume "canonical val r"
  then show ?thesis using Big cmp_native[of a] cmp[of a] by (cases r) auto
qed simp

lemma num_exact:
  assumes "canonical val l" "canonical val r"
  shows "exact val (num_add ops l r) (num_value val l + num_value val r)"
    and "exact val (num_subtract ops l r) (num_value val l - num_value val r)"
    and "exact val (num_multiply ops l r) (num_value val l * num_value val r)"
    and "num_value val r \<noteq> 0 \<Longrightarrow> exact val (num_div ops l r) (num_value val l sdiv num_value val r)"
    and "num_value val r \<noteq> 0 \<Longrightarrow> exact val (num_mod ops l r) (num_value val l smod num_value val r)"
    and "exact val (num_opposite ops l) (- num_value val l)"
    and "exact val (num_abs ops l) \<bar>num_value val l\<bar>"
proof -
  show "exact val (num_add ops l r) (num_value val l + num_value val r)"
    "exact val (num_subtract ops l r) (num_value val l - num_value val r)"
    "exact val (num_multiply ops l r) (num_value val l * num_value val r)"
    using assms smallint_exact(1-3)[OF assms(2)] bigint_exact(1-3)[OF assms(2)] by (cases l; simp)+
  show "exact val (num_div ops l r) (num_value val l sdiv num_value val r)" if "num_value val r \<noteq> 0"
    using assms(1) smallint_exact(4)[OF assms(2) that] bigint_exact(4)[OF assms(2) that] by (cases l) simp_all
  show "exact val (num_mod ops l r) (num_value val l smod num_value val r)" if "num_value val r \<noteq> 0"
    using assms(1) smallint_exact(5)[OF assms(2) that] bigint_exact(5)[OF assms(2) that] by (cases l) simp_all
  show "exact val (num_opposite ops l) (- num_value val l)"
    using assms(1) opposite_min sint_neg64
    by (cases l) (auto simp: smallint_opposite_def bigint_opposite_def val_neg sint_limits)
  show "exact val (num_abs ops l) \<bar>num_value val l\<bar>"
  proof (cases l)
    case (Small a)
    then show ?thesis using opposite_min sint_neg64[of a]
      by (auto simp: smallint_abs_def word_sle_eq sint_limits)
  next
    case (Big a)
    show ?thesis
    proof (cases "val a < 0")
      case True
      then show ?thesis using Big by (simp add: bigint_abs_def bigint_opposite_def cmp_native_sign val_neg)
    next
      case False
      then show ?thesis using Big assms(1) by (simp add: bigint_abs_def cmp_native_sign exact_def)
    qed
  qed (use assms(1) in simp)
qed

end

text \<open>The documented behaviour of the implementation: unbounded integers with truncating
  division, which throws on zero.\<close>

definition int_ops :: "int BigIntImplem" where
  "int_ops = \<lparr> big_of = sint, big_neg = uminus, big_add = (+), big_add_native = (\<lambda>a i. a + sint i),
     big_sub = (-), big_mul = (*), big_div = (\<lambda>a b. if b = 0 then None else Some (a sdiv b)),
     big_mod = (\<lambda>a b. if b = 0 then None else Some (a smod b)),
     big_cmp_native = (\<lambda>a i. sgn (a - sint i)), big_cmp = (\<lambda>a b. sgn (a - b)),
     big_native = word_of_int \<rparr>"

interpretation ints: big_integers int_ops "\<lambda>i. i"
  by unfold_locales (simp_all add: int_ops_def sint_of_int)

section \<open>Properties\<close>

text \<open>C7. The arithmetic of small and big integers together is the arithmetic of the unbounded
  integers: on canonical operands addition, subtraction, multiplication, negation and absolute
  value, and truncating division and remainder by a non-zero operand, return the canonical node of the
  exact result, whatever overflows on the way. In particular the overflow tests never miss one.\<close>

theorem integer_arithmetic_exact:
  assumes "big_integers ops val" and "canonical val l" and "canonical val r"
  shows "exact val (num_add ops l r) (num_value val l + num_value val r) \<and>
    exact val (num_subtract ops l r) (num_value val l - num_value val r) \<and>
    exact val (num_multiply ops l r) (num_value val l * num_value val r) \<and>
    exact val (num_opposite ops l) (- num_value val l) \<and>
    exact val (num_abs ops l) \<bar>num_value val l\<bar> \<and>
    (num_value val r \<noteq> 0 \<longrightarrow> exact val (num_div ops l r) (num_value val l sdiv num_value val r) \<and>
       exact val (num_mod ops l r) (num_value val l smod num_value val r))"
  using big_integers.num_exact[OF assms] by blast

theorem integer_arithmetic_exact_witness:
  "exact (\<lambda>i. i) (num_multiply int_ops (Small 0x4000000000000000) (Small 2)) (2 ^ 63) \<and>
   num_multiply int_ops (Small 0x4000000000000000) (Small 2) = Inr (Big (2 ^ 63))"
proof -
  have e: "exact (\<lambda>i. i) (num_multiply int_ops (Small 0x4000000000000000) (Small 2)) (2 ^ 63)"
    using integer_arithmetic_exact[OF ints.big_integers_axioms, of "Small 0x4000000000000000" "Small 2"]
    by simp
  then obtain x where x: "num_multiply int_ops (Small 0x4000000000000000) (Small 2) = Inr x"
    "canonical (\<lambda>i. i) x" "num_value (\<lambda>i. i) x = 2 ^ 63" by (auto simp: exact_def)
  have "x = Big (2 ^ 63)"
  proof (cases x)
    case (Small i)
    then show ?thesis using x(3) sint_range(2)[of i] by simp
  qed (use x in simp_all)
  with e x(1) show ?thesis by simp
qed

text \<open>C33. Comparison agrees with the order of the integers for every mix of small and big
  operands.\<close>

theorem integer_compare_exact:
  assumes "big_integers ops val" and "canonical val l" and "canonical val r"
  shows "\<exists>c. num_compare ops l r = Inr c \<and> sgn c = sgn (num_value val l - num_value val r)"
  using big_integers.compare_sign[OF assms] .

theorem integer_compare_exact_witness:
  "\<exists>c. num_compare int_ops (Small 1) (Big (2 ^ 70)) = Inr c \<and> sgn c = -1"
  using integer_compare_exact[OF ints.big_integers_axioms, of "Small 1" "Big (2 ^ 70)"] by simp


end
