(* ===== verification/AtomTable.thy ===== *)
theory AtomTable
  imports UtfStrings
begin

text \<open>
  The table of atoms (\<open>vm/vm/main/atomtable.hh\<close>): a PATRICIA tree over the bits of the names,
  the least significant bit of a byte first, every name being continued by ones. An \<open>AtomImpl\<close> is both
  an atom and an inner node; one of its sides is a link up to itself or to an ancestor, the place where
  the search ends. A pointer is \<open>Down\<close> when it leads to a node whose sides have not been visited
  above it, and \<open>Up\<close> when it is such a link. Only the sides change after an atom has been built, and
  the sides behind an \<open>Up\<close> link are never followed, so a link carries the other fields of its atom.
\<close>

section \<open>Data\<close>

record AtomImpl =
  ident :: nat          \<comment> \<open>the address: the number of atoms there were when it was built\<close>
  atom_data :: "u8 list"
  critBit :: nat

datatype atom_ptr = Null | Up AtomImpl | Down AtomImpl atom_ptr atom_ptr

record AtomTable =
  root :: atom_ptr
  count :: nat

definition emptyTable :: AtomTable where
  "emptyTable = \<lparr> root = Null, count = 0 \<rparr>"

text \<open>\<open>size\<close>, in bits; the length in bytes is below \<open>2 ^ 60\<close> in the code.\<close>

definition atom_size :: "AtomImpl \<Rightarrow> nat" where
  "atom_size a = 8 * length (atom_data a)"

section \<open>Bits\<close>

definition bitAt :: "u8 list \<Rightarrow> nat \<Rightarrow> bool" where
  "bitAt data pos =
     (if pos \<ge> 8 * length data then True else data ! (pos div 8) AND push_bit (pos mod 8) 1 \<noteq> 0)"

definition charAt :: "u8 list \<Rightarrow> nat \<Rightarrow> u8" where
  "charAt data i = (if i \<ge> length data then NOT 0 else data ! i)"

text \<open>\<open>__builtin_ctz\<close> of a byte that is not zero.\<close>

definition ctz :: "u8 \<Rightarrow> nat" where
  "ctz d = length (takeWhile (\<lambda>i. \<not> bit d i) [0..<8])"

function mismatchLoop :: "u8 list \<Rightarrow> u8 list \<Rightarrow> nat \<Rightarrow> nat \<Rightarrow> u8 \<Rightarrow> nat option" where
  "mismatchLoop d1 d2 i final msk =
     (if i \<le> final then
        (let d = (charAt d1 i XOR charAt d2 i) AND msk
         in if d \<noteq> 0 then Some (8 * i + ctz d)
            else mismatchLoop d1 d2 (i + 1) final (NOT 0))
      else None)"
  by pat_completeness auto
termination by (relation "measure (\<lambda>(_, _, i, final, _). Suc final - i)") auto

declare mismatchLoop.simps [simp del]

text \<open>The loop may find a mismatch after \<open>stop\<close>, within the last byte; the caller tests for it.\<close>

definition firstMismatch :: "u8 list \<Rightarrow> u8 list \<Rightarrow> nat \<Rightarrow> nat \<Rightarrow> nat" where
  "firstMismatch d1 d2 start stop =
     (if start = stop then stop
      else
        (let final = stop - 1;
             msk = NOT (push_bit (start mod 8) 1 - 1)
         in case mismatchLoop d1 d2 (start div 8) (final div 8) msk of
              Some f \<Rightarrow> f
            | None \<Rightarrow> final + 1))"

section \<open>Lookup and insertion\<close>

text \<open>The constructor: side \<open>d\<close> is the link to itself, the other one what was there before.\<close>

definition newAtom :: "AtomImpl \<Rightarrow> bool \<Rightarrow> atom_ptr \<Rightarrow> atom_ptr" where
  "newAtom this d other = (if d then Down this other (Up this) else Down this (Up this) other)"

text \<open>
  The loop of \<open>getInternal\<close>, which answers the atom, the pointer that replaces the one it is at,
  and whether it has built an atom. \<open>None\<close>: it follows a null pointer, or the sides of an atom it
  has already been at.
\<close>

fun getLoop :: "u8 list \<Rightarrow> nat \<Rightarrow> nat \<Rightarrow> atom_ptr \<Rightarrow> (AtomImpl \<times> atom_ptr \<times> bool) option" where
  "getLoop data new nextToCheck Null = None"
| "getLoop data new nextToCheck (Up cur) =
     (let cand = critBit cur < nextToCheck;
          checkEnd = (if cand then atom_size cur + 16 else critBit cur);
          f = firstMismatch data (atom_data cur) nextToCheck checkEnd
      in if f < checkEnd then
           (let a = \<lparr> ident = new, atom_data = data, critBit = f \<rparr>
            in Some (a, newAtom a (bitAt data f) (Up cur), True))
         else if cand then Some (cur, Up cur, False)
         else None)"
| "getLoop data new nextToCheck (Down cur side0 side1) =
     (let cand = critBit cur < nextToCheck;
          checkEnd = (if cand then atom_size cur + 16 else critBit cur);
          f = firstMismatch data (atom_data cur) nextToCheck checkEnd
      in if f < checkEnd then
           (let a = \<lparr> ident = new, atom_data = data, critBit = f \<rparr>
            in Some (a, newAtom a (bitAt data f) (Down cur side0 side1), True))
         else if cand then Some (cur, Down cur side0 side1, False)
         else if bitAt data (critBit cur) then
           map_option (\<lambda>(a, side1', built). (a, Down cur side0 side1', built))
             (getLoop data new (critBit cur + 1) side1)
         else
           map_option (\<lambda>(a, side0', built). (a, Down cur side0' side1, built))
             (getLoop data new (critBit cur + 1) side0))"

definition getInternal :: "u8 list \<Rightarrow> AtomTable \<Rightarrow> (AtomImpl \<times> AtomTable) option" where
  "getInternal data t =
     (if root t = Null then
        (let a = \<lparr> ident = count t, atom_data = data, critBit = 8 * length data + 8 \<rparr>
         in Some (a, t\<lparr> root := newAtom a True Null, count := count t + 1 \<rparr>))
      else
        map_option (\<lambda>(a, root', built). (a, t\<lparr> root := root', count := (if built then count t + 1 else count t) \<rparr>))
          (getLoop data (count t) 0 (root t)))"

text \<open>Atoms are compared by address for equality, by content for order.\<close>

definition atom_equals :: "AtomImpl \<Rightarrow> AtomImpl \<Rightarrow> bool" where
  "atom_equals a b \<longleftrightarrow> ident a = ident b"

definition atom_compare :: "AtomImpl \<Rightarrow> AtomImpl \<Rightarrow> int" where
  "atom_compare a b =
     (if ident a = ident b then 0 else compareByCodePoint False (atom_data a) (atom_data b))"

section \<open>The padded bits of a name\<close>

definition pbit :: "u8 list \<Rightarrow> nat \<Rightarrow> bool" where
  "pbit data pos = bit (charAt data (pos div 8)) (pos mod 8)"

lemma bitAt_pbit: "bitAt data pos = pbit data pos"
proof (cases "pos \<ge> 8 * length data")
  case True
  then have "pos div 8 \<ge> length data" by simp
  then show ?thesis using True by (simp add: bitAt_def pbit_def charAt_def bit_not_iff)
next
  case False
  then have "pos div 8 < length data" by auto
  moreover have "(x AND push_bit n 1 \<noteq> 0) \<longleftrightarrow> bit x n" if "n < 8" for x :: u8 and n
  proof -
    have "x AND push_bit n 1 = (if bit x n then push_bit n 1 else 0)"
      by (rule bit_word_eqI) (use that in \<open>auto simp: bit_simps\<close>)
    moreover have "push_bit n 1 \<noteq> (0::u8)"
      using that by (auto simp: bit_eq_iff bit_simps intro!: exI[of _ n])
    ultimately show ?thesis by simp
  qed
  ultimately show ?thesis using False by (simp add: bitAt_def pbit_def charAt_def)
qed

lemma ctz_least:
  assumes "d \<noteq> 0"
  shows "ctz d < 8 \<and> bit d (ctz d) \<and> (\<forall>j<ctz d. \<not> bit d j)"
proof -
  let ?P = "\<lambda>i. \<not> bit d i"
  have "\<exists>i<8. bit d i"
  proof (rule ccontr)
    assume "\<not> (\<exists>i<8. bit d i)"
    then have "d = 0" by (intro bit_word_eqI) auto
    then show False using assms by simp
  qed
  then obtain i where i: "bit d i" "i < 8" by blast
  have lt: "ctz d < 8"
  proof -
    have "takeWhile ?P [0..<8] \<noteq> [0..<8]"
      using i by (metis atLeastLessThan_iff le0 set_takeWhileD set_upt)
    then have "length (takeWhile ?P [0..<8]) \<noteq> length [0..<8]"
      by (metis takeWhile_eq_take take_all order_refl)
    moreover have "length (takeWhile ?P [0..<8]) \<le> length [0..<8]" by (rule length_takeWhile_le)
    ultimately show ?thesis by (simp add: ctz_def)
  qed
  have "\<not> ?P ([0..<8] ! ctz d)"
    unfolding ctz_def by (rule nth_length_takeWhile) (use lt in \<open>simp add: ctz_def\<close>)
  moreover have "?P j" if "j < ctz d" for j
  proof -
    have "takeWhile ?P [0..<8] ! j \<in> set (takeWhile ?P [0..<8])" using that by (simp add: ctz_def)
    moreover have "takeWhile ?P [0..<8] ! j = [0..<8] ! j" using that by (intro takeWhile_nth) (simp add: ctz_def)
    ultimately show ?thesis using that lt by (auto dest!: set_takeWhileD)
  qed
  ultimately show ?thesis using lt by simp
qed


lemma mismatchLoop_spec:
  assumes "k < 8" and "\<And>j. j < 8 \<Longrightarrow> bit msk j \<longleftrightarrow> k \<le> j"
  shows "(case mismatchLoop d1 d2 i final msk of
      Some f \<Rightarrow> 8 * i + k \<le> f \<and> pbit d1 f \<noteq> pbit d2 f \<and> (\<forall>q. 8 * i + k \<le> q \<and> q < f \<longrightarrow> pbit d1 q = pbit d2 q)
    | None \<Rightarrow> \<forall>q. 8 * i + k \<le> q \<and> q div 8 \<le> final \<longrightarrow> pbit d1 q = pbit d2 q)"
  using assms
proof (induction d1 d2 i final msk arbitrary: k rule: mismatchLoop.induct)
  case (1 d1 d2 i final msk)
  define d where "d = (charAt d1 i XOR charAt d2 i) AND msk"
  have bits: "bit d j \<longleftrightarrow> k \<le> j \<and> pbit d1 (8 * i + j) \<noteq> pbit d2 (8 * i + j)" if "j < 8" for j
    using that 1(3)[OF that] by (auto simp: d_def pbit_def bit_and_iff bit_xor_iff)
  show ?case
  proof (cases "i \<le> final")
    case False
    have "q div 8 > final" if "8 * i + k \<le> q" for q
      using False that by (metis add_leE div_le_mono le_less_linear nonzero_mult_div_cancel_left order_less_le_trans zero_neq_numeral)
    then show ?thesis using False by (subst mismatchLoop.simps) (auto simp: not_le)
  next
    case True
    show ?thesis
    proof (cases "d = 0")
      case False
      note c = ctz_least[OF False]
      have "pbit d1 q = pbit d2 q" if "8 * i + k \<le> q" "q < 8 * i + ctz d" for q
        using c bits[of "q - 8 * i"] that by auto
      then show ?thesis using c bits[of "ctz d"] False True
        by (subst mismatchLoop.simps) (simp add: d_def[symmetric] Let_def)
    next
      case d0: True
      have low: "pbit d1 q = pbit d2 q" if "8 * i + k \<le> q" "q < 8 * (i + 1)" for q
        using bits[of "q - 8 * i"] that d0 by auto
      have eq: "mismatchLoop d1 d2 i final msk = mismatchLoop d1 d2 (i + 1) final (NOT 0)"
        using True d0 by (subst mismatchLoop.simps) (simp add: d_def)
      have "\<not> d \<noteq> 0" using d0 by simp
      have p: "bit (NOT 0 :: u8) j \<longleftrightarrow> 0 \<le> j" if "j < 8" for j using that by (simp add: bit_not_iff)
      have "case mismatchLoop d1 d2 (i + 1) final (NOT 0) of
          Some f \<Rightarrow> 8 * (i + 1) \<le> f \<and> pbit d1 f \<noteq> pbit d2 f \<and> (\<forall>q. 8 * (i + 1) \<le> q \<and> q < f \<longrightarrow> pbit d1 q = pbit d2 q)
        | None \<Rightarrow> \<forall>q. 8 * (i + 1) \<le> q \<and> q div 8 \<le> final \<longrightarrow> pbit d1 q = pbit d2 q"
        using 1(1)[OF True d_def \<open>\<not> d \<noteq> 0\<close> zero_less_numeral p] unfolding add_0_right .
      then show ?thesis unfolding eq using low 1(2)
        by (auto split: option.splits simp: not_le) (meson not_le)+
    qed
  qed
qed

lemma firstMismatch_spec:
  assumes "0 < stop"
  shows "firstMismatch d1 d2 start stop < stop \<Longrightarrow>
      start \<le> firstMismatch d1 d2 start stop \<and>
      pbit d1 (firstMismatch d1 d2 start stop) \<noteq> pbit d2 (firstMismatch d1 d2 start stop) \<and>
      (\<forall>q. start \<le> q \<and> q < firstMismatch d1 d2 start stop \<longrightarrow> pbit d1 q = pbit d2 q)"
    and "\<not> firstMismatch d1 d2 start stop < stop \<Longrightarrow> start \<le> q \<Longrightarrow> q < stop \<Longrightarrow> pbit d1 q = pbit d2 q"
proof -
  let ?m = "NOT (push_bit (start mod 8) 1 - 1) :: u8"
  have msk: "bit ?m j \<longleftrightarrow> start mod 8 \<le> j" if "j < 8" for j
    using that by (simp add: bit_not_iff push_bit_eq_mult flip: mask_eq_exp_minus_1) (simp add: bit_mask_iff not_less)
  have s: "8 * (start div 8) + start mod 8 = start" by simp
  note loop = mismatchLoop_spec[where k = "start mod 8" and msk = ?m and ?d1.0 = d1 and ?d2.0 = d2 and i = "start div 8"
      and final = "(stop - 1) div 8", OF _ msk, unfolded s]
  show "start \<le> firstMismatch d1 d2 start stop \<and>
      pbit d1 (firstMismatch d1 d2 start stop) \<noteq> pbit d2 (firstMismatch d1 d2 start stop) \<and>
      (\<forall>q. start \<le> q \<and> q < firstMismatch d1 d2 start stop \<longrightarrow> pbit d1 q = pbit d2 q)"
    if "firstMismatch d1 d2 start stop < stop"
    using that loop assms by (auto simp: firstMismatch_def Let_def split: if_splits option.splits)
  show "pbit d1 q = pbit d2 q" if "\<not> firstMismatch d1 d2 start stop < stop" "start \<le> q" "q < stop"
  proof (cases "start = stop")
    case False
    have "q div 8 \<le> (stop - 1) div 8" using that(3) by (intro div_le_mono) simp
    then show ?thesis using that loop False assms
      by (auto simp: firstMismatch_def Let_def split: option.splits)
  qed (use that in simp)
qed

section \<open>The invariant of the tree\<close>

definition ff_free :: "u8 list \<Rightarrow> bool" where
  "ff_free data \<longleftrightarrow> 0xff \<notin> set data"

definition agree :: "u8 list \<Rightarrow> u8 list \<Rightarrow> nat \<Rightarrow> bool" where
  "agree d1 d2 n \<longleftrightarrow> (\<forall>q<n. pbit d1 q = pbit d2 q)"

fun leaves :: "atom_ptr \<Rightarrow> AtomImpl set" where
  "leaves Null = {}"
| "leaves (Up a) = {a}"
| "leaves (Down a side0 side1) = leaves side0 \<union> leaves side1"

text \<open>
  \<open>lo\<close> is the next bit to check. The atoms below a node agree before its critical bit, which
  tells its sides apart; the first atom has a null side, at a bit beyond its end.
\<close>

fun wf_ptr :: "nat \<Rightarrow> atom_ptr \<Rightarrow> bool" where
  "wf_ptr lo Null = False"
| "wf_ptr lo (Up a) = (critBit a < lo)"
| "wf_ptr lo (Down a side0 side1) =
     (lo \<le> critBit a \<and> a \<in> leaves side0 \<union> leaves side1 \<and>
      (\<forall>x\<in>leaves side0 \<union> leaves side1. agree (atom_data x) (atom_data a) (critBit a)) \<and>
      (\<forall>x\<in>leaves side0. \<not> pbit (atom_data x) (critBit a)) \<and>
      (\<forall>x\<in>leaves side1. pbit (atom_data x) (critBit a)) \<and>
      ((side0 = Null \<and> critBit a = atom_size a + 8) \<or> wf_ptr (critBit a + 1) side0) \<and>
      wf_ptr (critBit a + 1) side1)"

lemma agree_trans: "agree a b n \<Longrightarrow> agree b c n \<Longrightarrow> agree a c n"
  by (simp add: agree_def)

lemma agree_sym: "agree a b n \<Longrightarrow> agree b a n"
  by (simp add: agree_def)

lemma agree_mono: "agree a b n \<Longrightarrow> m \<le> n \<Longrightarrow> agree a b m"
  by (simp add: agree_def)

lemma agree_refl [simp]: "agree a a n"
  by (simp add: agree_def)

lemma agree_Suc: "agree a b n \<Longrightarrow> pbit a n = pbit b n \<Longrightarrow> agree a b (Suc n)"
  by (auto simp: agree_def less_Suc_eq)

lemma agree_extend:
  assumes "agree a b lo" "\<forall>q. lo \<le> q \<and> q < f \<longrightarrow> pbit b q = pbit a q" shows "agree a b f"
  unfolding agree_def
proof (intro allI impI)
  fix q assume "q < f"
  then show "pbit a q = pbit b q" using assms by (cases "q < lo") (auto simp: agree_def)
qed

lemma agree_bytes: "agree d1 d2 n \<Longrightarrow> 8 * i + 8 \<le> n \<Longrightarrow> charAt d1 i = charAt d2 i"
proof (rule bit_word_eqI)
  fix j assume "agree d1 d2 n" "8 * i + 8 \<le> n" "j < LENGTH(8)"
  then have "pbit d1 (8 * i + j) = pbit d2 (8 * i + j)" by (simp add: agree_def)
  then show "bit (charAt d1 i) j = bit (charAt d2 i) j" using \<open>j < LENGTH(8)\<close> by (simp add: pbit_def)
qed

text \<open>Names without the byte 255 are told apart by their padded bits.\<close>

lemma agree_equal:
  assumes "ff_free d1" "ff_free d2" "agree d1 d2 (8 * length d2 + 8)"
  shows "d1 = d2"
proof -
  have m: "(- 1 :: u8) = 0xff" by simp
  have c: "charAt d1 i = charAt d2 i" if "i \<le> length d2" for i
    using agree_bytes[OF assms(3)] that by simp
  have "length d1 = length d2"
  proof (cases "length d1" "length d2" rule: linorder_cases)
    case less
    then have "d2 ! length d1 = 0xff" using c[of "length d1"] m by (simp add: charAt_def)
    then show ?thesis using assms(2) less nth_mem unfolding ff_free_def by metis
  next
    case greater
    then have "d1 ! length d2 = 0xff" using c[of "length d2"] m by (simp add: charAt_def)
    then show ?thesis using assms(1) greater nth_mem unfolding ff_free_def by metis
  qed
  then have "d1 ! i = d2 ! i" if "i < length d1" for i using c[of i] that by (simp add: charAt_def)
  with \<open>length d1 = length d2\<close> show ?thesis by (intro nth_equalityI) auto
qed

lemma leaves_newAtom [simp]: "leaves (newAtom a d p) = insert a (leaves p)"
  by (auto simp: newAtom_def)

lemma wf_ptr_mono: "wf_ptr lo (Up a) \<Longrightarrow> lo \<le> hi \<Longrightarrow> wf_ptr hi (Up a)"
  by simp

text \<open>What a search is to return.\<close>

definition found_or_built :: "u8 list \<Rightarrow> nat \<Rightarrow> atom_ptr \<Rightarrow> AtomImpl \<Rightarrow> atom_ptr \<Rightarrow> bool \<Rightarrow> bool" where
  "found_or_built data new p a p' built \<longleftrightarrow> atom_data a = data \<and>
     (if \<exists>x\<in>leaves p. atom_data x = data then \<not> built \<and> p' = p \<and> a \<in> leaves p
      else built \<and> ident a = new \<and> leaves p' = insert a (leaves p))"

text \<open>A mismatch at \<open>f\<close> makes a new node above the pointer.\<close>

lemma wf_newAtom:
  assumes "lo \<le> f" "\<forall>x\<in>leaves p. agree (atom_data x) data f \<and> pbit (atom_data x) f \<noteq> pbit data f"
    and "wf_ptr (f + 1) p"
  shows "wf_ptr lo (newAtom \<lparr> ident = new, atom_data = data, critBit = f \<rparr> (pbit data f) p)"
  using assms by (auto simp: newAtom_def)

lemma getLoop_spec:
  assumes "wf_ptr lo p" "ff_free data" "\<forall>x\<in>leaves p. ff_free (atom_data x) \<and> agree (atom_data x) data lo"
  shows "\<exists>a p' built. getLoop data new lo p = Some (a, p', built) \<and> wf_ptr lo p' \<and> found_or_built data new p a p' built"
  using assms
proof (induction p arbitrary: lo)
  case (Up cur)
  have cand: "critBit cur < lo" using Up by simp
  define f where "f = firstMismatch data (atom_data cur) lo (atom_size cur + 16)"
  note spec = firstMismatch_spec[of "atom_size cur + 16" data "atom_data cur" lo, folded f_def]
  show ?case
  proof (cases "f < atom_size cur + 16")
    case True
    let ?a = "\<lparr> ident = new, atom_data = data, critBit = f \<rparr>"
    have f: "lo \<le> f" "pbit data f \<noteq> pbit (atom_data cur) f" "\<forall>q. lo \<le> q \<and> q < f \<longrightarrow> pbit data q = pbit (atom_data cur) q"
      using spec(1) True by auto
    have "agree (atom_data cur) data f" by (rule agree_extend[OF _ f(3)]) (use Up.prems in simp)
    then have "wf_ptr lo (newAtom ?a (pbit data f) (Up cur))"
      using f cand by (intro wf_newAtom) (auto simp del: agree_refl)
    moreover have "getLoop data new lo (Up cur) = Some (?a, newAtom ?a (pbit data f) (Up cur), True)"
      using True cand by (simp add: f_def[symmetric] bitAt_pbit Let_def)
    moreover have "atom_data cur \<noteq> data" using f(2) by metis
    then have "found_or_built data new (Up cur) ?a (newAtom ?a (pbit data f) (Up cur)) True"
      by (simp add: found_or_built_def)
    ultimately show ?thesis by blast
  next
    case False
    then have "pbit data q = pbit (atom_data cur) q" if "q < atom_size cur + 16" for q
      using spec(2)[OF _ _ _ that] that Up by (cases "lo \<le> q") (auto simp: agree_def)
    then have "agree data (atom_data cur) (8 * length (atom_data cur) + 8)"
      by (auto simp: agree_def atom_size_def)
    then have "data = atom_data cur" using Up by (intro agree_equal) auto
    then have "found_or_built data new (Up cur) cur (Up cur) False" by (simp add: found_or_built_def)
    moreover have "getLoop data new lo (Up cur) = Some (cur, Up cur, False)"
      using False cand by (simp add: f_def[symmetric] Let_def)
    ultimately show ?thesis using Up.prems(1) by blast
  qed
next
  case (Down cur side0 side1)
  let ?p = "Down cur side0 side1" and ?c = "critBit cur"
  have lo: "lo \<le> ?c" and cur: "cur \<in> leaves side0 \<union> leaves side1"
    and agr: "\<forall>x\<in>leaves side0 \<union> leaves side1. agree (atom_data x) (atom_data cur) ?c"
    using Down.prems(1) by simp_all
  have cand: "\<not> ?c < lo" using lo by simp
  define f where "f = firstMismatch data (atom_data cur) lo ?c"
  have spec: "f < ?c \<Longrightarrow> lo \<le> f \<and> pbit data f \<noteq> pbit (atom_data cur) f \<and>
      (\<forall>q. lo \<le> q \<and> q < f \<longrightarrow> pbit data q = pbit (atom_data cur) q)"
    "\<not> f < ?c \<Longrightarrow> lo \<le> q \<Longrightarrow> q < ?c \<Longrightarrow> pbit data q = pbit (atom_data cur) q" for q
    using firstMismatch_spec[of ?c data "atom_data cur" lo, folded f_def] lo by (cases "?c = 0"; auto)+
  have low: "agree (atom_data cur) data lo" using Down.prems(3) cur by simp
  show ?case
  proof (cases "f < ?c")
    case True
    note f = spec(1)[OF True]
    have "agree (atom_data cur) data f" by (rule agree_extend[OF low]) (use f in blast)
    moreover have "agree (atom_data x) (atom_data cur) f \<and> pbit (atom_data x) f = pbit (atom_data cur) f"
      if "x \<in> leaves ?p" for x
      using agr that True by (auto simp: agree_def)
    ultimately have l: "\<forall>x\<in>leaves ?p. agree (atom_data x) data f \<and> pbit (atom_data x) f \<noteq> pbit data f"
      using f agree_trans by metis
    have "wf_ptr (f + 1) ?p" using Down.prems(1) True by simp
    then have "wf_ptr lo (newAtom \<lparr> ident = new, atom_data = data, critBit = f \<rparr> (pbit data f) ?p)"
      using wf_newAtom[OF _ l] f by blast
    moreover have "\<not> (\<exists>x\<in>leaves ?p. atom_data x = data)" using l by metis
    then have "found_or_built data new ?p \<lparr> ident = new, atom_data = data, critBit = f \<rparr>
        (newAtom \<lparr> ident = new, atom_data = data, critBit = f \<rparr> (pbit data f) ?p) True"
      unfolding found_or_built_def by simp
    moreover have "getLoop data new lo ?p = Some (\<lparr> ident = new, atom_data = data, critBit = f \<rparr>,
        newAtom \<lparr> ident = new, atom_data = data, critBit = f \<rparr> (pbit data f) ?p, True)"
      using True cand by (simp add: f_def[symmetric] bitAt_pbit Let_def)
    ultimately show ?thesis by blast
  next
    case False
    have dc: "agree data (atom_data cur) ?c"
      by (rule agree_extend[OF agree_sym[OF low]]) (use spec(2)[OF False] in auto)
    have step: "\<exists>a p' built. getLoop data new (?c + 1) side = Some (a, p', built) \<and>
        wf_ptr (?c + 1) p' \<and> found_or_built data new side a p' built"
      if "wf_ptr (?c + 1) side" "leaves side \<subseteq> leaves ?p" "\<forall>x\<in>leaves side. pbit (atom_data x) ?c = pbit data ?c"
        and "\<And>lo. wf_ptr lo side \<Longrightarrow> ff_free data \<Longrightarrow>
          \<forall>x\<in>leaves side. ff_free (atom_data x) \<and> agree (atom_data x) data lo \<Longrightarrow>
          \<exists>a p' built. getLoop data new lo side = Some (a, p', built) \<and>
            wf_ptr lo p' \<and> found_or_built data new side a p' built" for side
    proof (rule that(4)[OF that(1) Down.prems(2)], intro ballI conjI)
      fix x assume x: "x \<in> leaves side"
      then have x': "x \<in> leaves ?p" using that(2) by blast
      then show "ff_free (atom_data x)" using Down.prems(3) by blast
      have "agree (atom_data x) data ?c"
        using agr x' agree_trans[OF _ agree_sym[OF dc]] by auto
      then show "agree (atom_data x) data (?c + 1)" using that(3) x by (simp add: agree_Suc)
    qed
    have new_ok: "agree (atom_data a) (atom_data cur) ?c" if "atom_data a = data" for a :: AtomImpl
      using that dc by simp
    show ?thesis
    proof (cases "pbit data ?c")
      case True
      have "wf_ptr (?c + 1) side1" "leaves side1 \<subseteq> leaves ?p"
        "\<forall>x\<in>leaves side1. pbit (atom_data x) ?c = pbit data ?c"
        using Down.prems(1) True by simp_all
      from step[OF this Down.IH(2)]
      obtain a p' built where r: "getLoop data new (?c + 1) side1 = Some (a, p', built)"
        "wf_ptr (?c + 1) p'" "found_or_built data new side1 a p' built" by blast
      then have "wf_ptr lo (Down cur side0 p')" "found_or_built data new ?p a (Down cur side0 p') built"
        using Down.prems(1) True new_ok by (auto simp: found_or_built_def split: if_splits)
      then show ?thesis using False cand True r
        by (auto simp: f_def[symmetric] bitAt_pbit Let_def)
    next
      case b: False
      have "wf_ptr (?c + 1) side0"
      proof (rule ccontr)
        assume "\<not> wf_ptr (?c + 1) side0"
        then have "?c = atom_size cur + 8" using Down.prems(1) by auto
        then have "data = atom_data cur"
          using dc cur Down.prems(2,3) by (intro agree_equal) (auto simp: atom_size_def)
        then show False using b \<open>?c = atom_size cur + 8\<close> bitAt_pbit[of data ?c] by (simp add: bitAt_def atom_size_def)
      qed
      moreover have "leaves side0 \<subseteq> leaves ?p" "\<forall>x\<in>leaves side0. pbit (atom_data x) ?c = pbit data ?c"
        using Down.prems(1) b by simp_all
      ultimately obtain a p' built where r: "getLoop data new (?c + 1) side0 = Some (a, p', built)"
        "wf_ptr (?c + 1) p'" "found_or_built data new side0 a p' built"
        using step[OF _ _ _ Down.IH(1)] by blast
      then have "wf_ptr lo (Down cur p' side1)" "found_or_built data new ?p a (Down cur p' side1) built"
        using Down.prems(1) b new_ok by (auto simp: found_or_built_def split: if_splits)
      then show ?thesis using False cand b r
        by (auto simp: f_def[symmetric] bitAt_pbit Let_def)
    qed
  qed
qed simp

section \<open>Tables\<close>

abbreviation atoms :: "AtomTable \<Rightarrow> AtomImpl set" where
  "atoms t \<equiv> leaves (root t)"

definition table_inv :: "AtomTable \<Rightarrow> bool" where
  "table_inv t \<longleftrightarrow>
     (root t = Null \<or> wf_ptr 0 (root t)) \<and> finite (atoms t) \<and> card (atoms t) = count t \<and>
     (\<forall>a\<in>atoms t. ff_free (atom_data a) \<and> ident a < count t) \<and>
     inj_on ident (atoms t) \<and> inj_on atom_data (atoms t)"

lemma table_inv_empty: "table_inv emptyTable"
  by (simp add: table_inv_def emptyTable_def)

lemma wf_first:
  "wf_ptr 0 (newAtom \<lparr> ident = n, atom_data = data, critBit = 8 * length data + 8 \<rparr> True Null)"
proof -
  have "pbit data (8 * length data + 8)"
    using bitAt_pbit[of data "8 * length data + 8"] by (simp add: bitAt_def)
  then show ?thesis by (simp add: newAtom_def atom_size_def)
qed

text \<open>Looking a name up answers the atom of that name, building it when there was none.\<close>

lemma getInternal_spec:
  assumes t: "table_inv t" and data: "ff_free data"
  shows "\<exists>a t'. getInternal data t = Some (a, t') \<and> table_inv t' \<and> atom_data a = data \<and> a \<in> atoms t' \<and>
    atoms t \<subseteq> atoms t' \<and> atom_data ` atoms t' = insert data (atom_data ` atoms t)"
proof -
  have build: "table_inv (t\<lparr>root := r, count := count t + 1\<rparr>)"
    if "wf_ptr 0 r" "leaves r = insert a (atoms t)" "ident a = count t" "atom_data a = data"
      "\<forall>x\<in>atoms t. atom_data x \<noteq> data" for a r
  proof -
    have "a \<notin> atoms t" using that by blast
    then show ?thesis using that t data by (fastforce simp: table_inv_def inj_on_def)
  qed
  show ?thesis
  proof (cases "root t = Null")
    case True
    let ?a = "\<lparr> ident = count t, atom_data = data, critBit = 8 * length data + 8 \<rparr>"
    have "getInternal data t = Some (?a, t\<lparr>root := newAtom ?a True Null, count := count t + 1\<rparr>)"
      using True by (simp add: getInternal_def Let_def)
    moreover have "table_inv (t\<lparr>root := newAtom ?a True Null, count := count t + 1\<rparr>)"
      by (rule build[where a = ?a, OF wf_first]) (use True in simp_all)
    ultimately show ?thesis using True by simp
  next
    case False
    then have "wf_ptr 0 (root t)" "\<forall>x\<in>atoms t. ff_free (atom_data x) \<and> agree (atom_data x) data 0"
      using t by (auto simp: table_inv_def agree_def)
    from getLoop_spec[OF this(1) data this(2)] obtain a p' built where
      r: "getLoop data (count t) 0 (root t) = Some (a, p', built)" "wf_ptr 0 p'"
        "found_or_built data (count t) (root t) a p' built" by blast
    have g: "getInternal data t = Some (a, t\<lparr>root := p', count := (if built then count t + 1 else count t)\<rparr>)"
      using False r(1) by (simp add: getInternal_def)
    show ?thesis
    proof (cases "\<exists>x\<in>atoms t. atom_data x = data")
      case True
      then have f: "\<not> built" "p' = root t" "a \<in> atoms t" "atom_data a = data"
        using r(3) by (simp_all add: found_or_built_def)
      then have "t\<lparr>root := p', count := (if built then count t + 1 else count t)\<rparr> = t" by simp
      then show ?thesis using g f t by auto
    next
      case False
      then have f: "built" "ident a = count t" "leaves p' = insert a (atoms t)" "atom_data a = data"
        using r(3) by (simp_all add: found_or_built_def)
      have "table_inv (t\<lparr>root := p', count := count t + 1\<rparr>)"
        using build[OF r(2) f(3,2,4)] False by blast
      then show ?thesis using g f by auto
    qed
  qed
qed

text \<open>A sequence of lookups.\<close>

fun get_all :: "u8 list list \<Rightarrow> AtomTable \<Rightarrow> (AtomImpl list \<times> AtomTable) option" where
  "get_all [] t = Some ([], t)"
| "get_all (s # ss) t =
     (case getInternal s t of
        None \<Rightarrow> None
      | Some (a, t') \<Rightarrow> map_option (\<lambda>(as, t''). (a # as, t'')) (get_all ss t'))"

lemma get_all_spec:
  "table_inv t \<Longrightarrow> list_all ff_free ss \<Longrightarrow>
   \<exists>as t'. get_all ss t = Some (as, t') \<and> table_inv t' \<and> map atom_data as = ss \<and> set as \<subseteq> atoms t' \<and>
     atoms t \<subseteq> atoms t' \<and> atom_data ` atoms t' = set ss \<union> atom_data ` atoms t"
proof (induction ss arbitrary: t)
  case (Cons s ss)
  obtain a t' where a: "getInternal s t = Some (a, t')" "table_inv t'" "atom_data a = s" "a \<in> atoms t'"
    "atoms t \<subseteq> atoms t'" "atom_data ` atoms t' = insert s (atom_data ` atoms t)"
    using getInternal_spec[of t s] Cons.prems by auto
  obtain as t'' where "get_all ss t' = Some (as, t'')" "table_inv t''" "map atom_data as = ss" "set as \<subseteq> atoms t''"
     "atoms t' \<subseteq> atoms t''" "atom_data ` atoms t'' = set ss \<union> atom_data ` atoms t'"
    using Cons.IH[OF a(2)] Cons.prems by auto
  then show ?case using a by auto
qed simp

section \<open>Printing\<close>

definition ascii :: "string \<Rightarrow> u8 list" where
  "ascii s = map of_char s"

definition atom_keywords :: "string list" where
  "atom_keywords =
     [''andthen'', ''at'', ''attr'', ''case'', ''catch'', ''choice'', ''class'', ''cond'', ''declare'',
      ''define'', ''dis'', ''do'', ''div'', ''else'', ''elsecase'', ''elseif'', ''elseof'', ''end'',
      ''export'', ''fail'', ''false'', ''feat'', ''finally'', ''from'', ''for'', ''fun'', ''functor'',
      ''if'', ''import'', ''in'', ''local'', ''lock'', ''meth'', ''mod'', ''not'', ''of'', ''or'',
      ''orelse'', ''prepare'', ''proc'', ''prop'', ''raise'', ''require'', ''self'', ''skip'', ''then'',
      ''thread'', ''true'', ''try'', ''unit'']"

definition isKeyword :: "u8 list \<Rightarrow> bool" where
  "isKeyword contents = list_ex (\<lambda>kw. length contents = length kw \<and> contents = ascii kw) atom_keywords"

definition in_range :: "u8 \<Rightarrow> char \<Rightarrow> char \<Rightarrow> bool" where
  "in_range c lo hi \<longleftrightarrow> of_char lo \<le> c \<and> c \<le> of_char hi"

fun doesItNotLookLikeAnAtom :: "u8 list \<Rightarrow> bool" where
  "doesItNotLookLikeAnAtom [] = True"
| "doesItNotLookLikeAnAtom (firstChar # rest) =
     (if \<not> in_range firstChar (CHR ''a'') (CHR ''z'') then True
      else list_ex (\<lambda>c. \<not> (in_range c (CHR ''a'') (CHR ''z'') \<or> in_range c (CHR ''A'') (CHR ''Z'') \<or>
                              in_range c (CHR ''0'') (CHR ''9'') \<or> c = of_char (CHR ''_''))) rest)"

definition needsQuote :: "u8 list \<Rightarrow> bool" where
  "needsQuote contents \<longleftrightarrow> doesItNotLookLikeAnAtom contents \<or> isKeyword contents"

definition hexdigits :: "u8 list" where
  "hexdigits = ascii ''0123456789ABCDEF''"

text \<open>A backslash (\<open>0x5c\<close>), an \<open>x\<close> and two digits.\<close>

definition hex_escape :: "u8 \<Rightarrow> u8 list" where
  "hex_escape c = [0x5c, 0x78, hexdigits ! unat (drop_bit 4 c), hexdigits ! unat (c AND 0x0f)]"

fun print_body :: "u8 list \<Rightarrow> u8 list" where
  "print_body [] = []"
| "print_body (c # cs) =
     (if c = 7 then [0x5c, of_char (CHR ''a'')] @ print_body cs
      else if c = 8 then [0x5c, of_char (CHR ''b'')] @ print_body cs
      else if c = 9 then [0x5c, of_char (CHR ''t'')] @ print_body cs
      else if c = 10 then [0x5c, of_char (CHR ''n'')] @ print_body cs
      else if c = 11 then [0x5c, of_char (CHR ''v'')] @ print_body cs
      else if c = 12 then [0x5c, of_char (CHR ''f'')] @ print_body cs
      else if c = 13 then [0x5c, of_char (CHR ''r'')] @ print_body cs
      else if c = 0x27 then [0x5c, 0x27] @ print_body cs
      else if c = 0x5c then [0x5c, 0x5c] @ print_body cs
      else if c = 0x7f then [0x5c, 0x78, of_char (CHR ''7''), of_char (CHR ''F'')] @ print_body cs
      else if c = 0xc2 then
        (case cs of
           [] \<Rightarrow> [c]
         | c2 # cs' \<Rightarrow>
             (if c2 AND 0xe0 = 0x80 then hex_escape c2 else [c, c2]) @ print_body cs')
      else if c AND 0xe0 = 0 then hex_escape c @ print_body cs
      else c # print_body cs)"

definition print_atom :: "u8 list \<Rightarrow> u8 list" where
  "print_atom contents =
     (if needsQuote contents then 0x27 # print_body contents @ [0x27] else contents)"

definition print_unique_name :: "u8 list \<Rightarrow> u8 list" where
  "print_unique_name contents = ascii ''<N: '' @ print_atom contents @ ascii ''>''"

text \<open>Printed names can be read back: the inverse of the escapes.\<close>

definition hexval :: "u8 \<Rightarrow> nat" where
  "hexval h = length (takeWhile (\<lambda>d. d \<noteq> h) hexdigits)"

definition escaped_char :: "u8 \<Rightarrow> u8" where
  "escaped_char e =
     (if e = of_char (CHR ''a'') then 7 else if e = of_char (CHR ''b'') then 8
      else if e = of_char (CHR ''t'') then 9 else if e = of_char (CHR ''n'') then 10
      else if e = of_char (CHR ''v'') then 11 else if e = of_char (CHR ''f'') then 12
      else if e = of_char (CHR ''r'') then 13 else e)"

fun unescape :: "u8 list \<Rightarrow> u8 list" where
  "unescape [] = []"
| "unescape [c] = [c]"
| "unescape (c # e # cs) =
     (if c = 0x5c then
        (if e = 0x78 then
           (case cs of
              h1 # h2 # cs' \<Rightarrow>
                (let v = 16 * hexval h1 + hexval h2
                 in (if v \<ge> 128 then [0xc2, of_nat v] else [of_nat v]) @ unescape cs')
            | _ \<Rightarrow> [])
         else escaped_char e # unescape cs)
      else if c = 0xc2 then c # e # unescape cs
      else c # unescape (e # cs))"

lemma hexval_hexdigits: "n < 16 \<Longrightarrow> hexval (hexdigits ! n) = n"
proof -
  assume "n < 16"
  then have "n \<in> set [0..<16]" by simp
  moreover have "list_all (\<lambda>n. hexval (hexdigits ! n) = n) [0..<16]" by code_simp
  ultimately show ?thesis by (rule list_all_in_set[rotated])
qed

lemma hex_digits:
  "hexval (hexdigits ! unat (drop_bit 4 c)) = unat (c::u8) div 16"
  "hexval (hexdigits ! unat (c AND 0x0f)) = unat (c::u8) mod 16"
  using unat_bounds(1)[of c] by (simp_all add: hexval_hexdigits unat_drop_bit unat_and_masks)

lemma unescape_hex:
  "unescape (hex_escape c @ cs) = (if unat c \<ge> 128 then [0xc2, c] else [c]) @ unescape cs"
  by (simp add: hex_escape_def hex_digits)

lemma and_e0: "unat ((c::u8) AND 0xe0) = unat c div 32 * 32"
proof -
  have "c AND 0xe0 = push_bit 5 (drop_bit 5 c)"
  proof (rule bit_word_eqI)
    fix n assume "n < LENGTH(8)"
    then have "n \<in> {0,1,2,3,4,5,6,7}" by auto
    then show "bit (c AND 0xe0) n = bit (push_bit 5 (drop_bit 5 c)) n"
      by (auto simp: bit_simps)
  qed
  then show ?thesis
    by (simp only: unat_push_bit unat_drop_bit) (use unat_bounds(1)[of c] in simp)
qed

lemma unescape_plain:
  "c \<noteq> 0x5c \<Longrightarrow> c \<noteq> 0xc2 \<Longrightarrow> unescape (c # cs) = c # unescape cs"
  by (cases cs) simp_all

lemma escape_branches:
  "(c::u8) AND 0xe0 = 0x80 \<Longrightarrow> unat c \<ge> 128" "c AND 0xe0 = 0 \<Longrightarrow> unat c < 32"
proof -
  assume "c AND 0xe0 = 0x80"
  then have "unat c div 32 * 32 = 128" by (subst and_e0[symmetric]) simp
  then show "unat c \<ge> 128" by linarith
next
  assume "c AND 0xe0 = 0"
  then have "unat c div 32 * 32 = 0" by (subst and_e0[symmetric]) simp
  then show "unat c < 32" by simp
qed

lemma unescape_print_body: "unescape (print_body s) = s"
proof (induction s rule: length_induct)
  case (1 s)
  show ?case
  proof (cases s)
    case (Cons c cs)
    have IH: "unescape (print_body cs) = cs" using 1 Cons by simp
    consider (esc) "c \<in> {7, 8, 9, 10, 11, 12, 13, 0x27, 0x5c}" | (del) "c = 0x7f" | (c2) "c = 0xc2"
      | (ctl) "c \<notin> {7, 8, 9, 10, 11, 12, 13, 0x27, 0x5c, 0x7f, 0xc2}" "c AND 0xe0 = 0"
      | (plain) "c \<notin> {7, 8, 9, 10, 11, 12, 13, 0x27, 0x5c, 0x7f, 0xc2}" "c AND 0xe0 \<noteq> 0"
      by blast
    then show ?thesis
    proof cases
      case esc
      then show ?thesis using IH Cons by (elim insertE emptyE) (simp_all add: escaped_char_def)
    next
      case del
      have "hex_escape 0x7f = [0x5c, 0x78, of_char (CHR ''7''), of_char (CHR ''F'')]"
        by (simp add: hex_escape_def hexdigits_def ascii_def)
      then show ?thesis using unescape_hex[of "0x7f" "print_body cs"] IH Cons del by simp
    next
      case c2
      show ?thesis
      proof (cases cs)
        case Nil
        then show ?thesis using c2 Cons by simp
      next
        case (Cons d ds)
        have "unescape (print_body ds) = ds" using 1 \<open>s = c # cs\<close> Cons by simp
        then show ?thesis using c2 Cons \<open>s = c # cs\<close> unescape_hex[of d "print_body ds"] escape_branches(1)[of d]
          by (cases "d AND 0xe0 = 0x80") simp_all
      qed
    next
      case ctl
      then have "print_body s = hex_escape c @ print_body cs" using Cons by simp
      then show ?thesis using unescape_hex[of c "print_body cs"] IH Cons escape_branches(2)[OF ctl(2)] by simp
    next
      case plain
      then have "print_body s = c # print_body cs" using Cons by simp
      then show ?thesis using unescape_plain[of c "print_body cs"] IH Cons plain(1) by simp
    qed
  qed simp
qed

lemma needsQuote_first: "\<not> needsQuote s \<Longrightarrow> \<exists>c cs. s = c # cs \<and> c \<noteq> 0x27"
  by (cases s) (auto simp: needsQuote_def in_range_def split: if_splits)

section \<open>Properties\<close>

text \<open>C11. The table interns names: looking up any sequence of names without the byte 255 in a new
  table always answers, each atom has the name it was looked up with, two of the atoms are the same
  object exactly when the names are equal, and the table counts the distinct names.\<close>

theorem atoms_interned:
  assumes "list_all ff_free ss"
  shows "\<exists>as t. get_all ss emptyTable = Some (as, t) \<and> map atom_data as = ss \<and> count t = card (set ss) \<and>
    (\<forall>i<length ss. \<forall>j<length ss. atom_equals (as ! i) (as ! j) \<longleftrightarrow> ss ! i = ss ! j)"
proof -
  obtain as t where r: "get_all ss emptyTable = Some (as, t)" "table_inv t" "map atom_data as = ss"
    "set as \<subseteq> atoms t" "atom_data ` atoms t = set ss \<union> atom_data ` atoms emptyTable"
    using get_all_spec[OF table_inv_empty assms] by blast
  have len: "length as = length ss" using r(3) by (metis length_map)
  have inj: "inj_on ident (atoms t)" "inj_on atom_data (atoms t)" using r(2) by (simp_all add: table_inv_def)
  have "count t = card (atoms t)" using r(2) by (simp add: table_inv_def)
  also have "\<dots> = card (atom_data ` atoms t)" using inj(2) by (rule card_image[symmetric])
  also have "\<dots> = card (set ss)" using r(5) by (simp add: emptyTable_def)
  finally have c: "count t = card (set ss)" .
  have "atom_equals (as ! i) (as ! j) \<longleftrightarrow> ss ! i = ss ! j" if "i < length ss" "j < length ss" for i j
  proof -
    have m: "as ! i \<in> atoms t" "as ! j \<in> atoms t" using r(4) len that by auto
    have n: "atom_data (as ! i) = ss ! i" "atom_data (as ! j) = ss ! j"
      using r(3) len that by (metis nth_map)+
    have "ident (as ! i) = ident (as ! j) \<longleftrightarrow> as ! i = as ! j" by (rule inj_on_eq_iff[OF inj(1) m])
    moreover have "atom_data (as ! i) = atom_data (as ! j) \<longleftrightarrow> as ! i = as ! j" by (rule inj_on_eq_iff[OF inj(2) m])
    ultimately show ?thesis using n by (simp add: atom_equals_def)
  qed
  then show ?thesis using r c by blast
qed

theorem atoms_interned_witness:
  "\<exists>as t. get_all [[0x61], [0x62], [0x61]] emptyTable = Some (as, t) \<and> count t = 2 \<and>
     atom_equals (as ! 0) (as ! 2) \<and> \<not> atom_equals (as ! 0) (as ! 1)"
proof -
  have "list_all ff_free [[0x61], [0x62], [0x61]]" by (simp add: ff_free_def)
  from atoms_interned[OF this] show ?thesis by (fastforce simp: card_insert_if)
qed


text \<open>C36. The printed form of an atom determines its name: quoting and escaping lose nothing, for
  every byte string.\<close>

theorem print_atom_injective: "print_atom s = print_atom t \<longleftrightarrow> s = t"
proof
  assume eq: "print_atom s = print_atom t"
  show "s = t"
  proof (cases "needsQuote s"; cases "needsQuote t")
    assume "needsQuote s" "needsQuote t"
    then have "print_body s = print_body t" using eq by (simp add: print_atom_def)
    then show ?thesis using unescape_print_body by metis
  qed (use eq needsQuote_first[of s] needsQuote_first[of t] in \<open>auto simp: print_atom_def\<close>)
qed simp

end
