(* ===== verification/Uuid.thy ===== *)
theory Uuid
  imports Prelude
begin

text \<open>
  Universally unique identifiers (\<open>vm/vm/main/uuid-decl.hh\<close>): two 64-bit words, their text and
  byte forms and their order; and the search tree of global nodes that is keyed by them
  (\<open>GlobalNode::get\<close>, \<open>store.hh\<close>).
\<close>

section \<open>Data and order\<close>

datatype UUID = UUID (data0: u64) (data1: u64)

definition is_nil :: "UUID \<Rightarrow> bool" where
  "is_nil u \<longleftrightarrow> data0 u = 0 \<and> data1 u = 0"

text \<open>\<open>operator<\<close>, and \<open>operator<=\<close> as the code derives it.\<close>

definition uuid_less :: "UUID \<Rightarrow> UUID \<Rightarrow> bool" where
  "uuid_less lhs rhs \<longleftrightarrow> data0 lhs < data0 rhs \<or> (data0 lhs = data0 rhs \<and> data1 lhs < data1 rhs)"

instantiation UUID :: linorder
begin

definition less_UUID :: "UUID \<Rightarrow> UUID \<Rightarrow> bool" where
  "less_UUID lhs rhs \<longleftrightarrow> uuid_less lhs rhs"

definition less_eq_UUID :: "UUID \<Rightarrow> UUID \<Rightarrow> bool" where
  "less_eq_UUID lhs rhs \<longleftrightarrow> \<not> uuid_less rhs lhs"

instance
proof
  fix x y z :: UUID
  show "x < y \<longleftrightarrow> x \<le> y \<and> \<not> y \<le> x" "x \<le> x" "x \<le> y \<Longrightarrow> y \<le> z \<Longrightarrow> x \<le> z"
    "x \<le> y \<Longrightarrow> y \<le> x \<Longrightarrow> x = y" "x \<le> y \<or> y \<le> x"
    by (cases x; cases y; cases z; auto simp: less_UUID_def less_eq_UUID_def uuid_less_def)+
qed

end

section \<open>Bytes\<close>

definition makeUInt64FromBytes :: "u8 list \<Rightarrow> u64" where
  "makeUInt64FromBytes bytes =
     push_bit 56 (ucast (bytes ! 0)) + push_bit 48 (ucast (bytes ! 1)) +
     push_bit 40 (ucast (bytes ! 2)) + push_bit 32 (ucast (bytes ! 3)) +
     push_bit 24 (ucast (bytes ! 4)) + push_bit 16 (ucast (bytes ! 5)) +
     push_bit 8 (ucast (bytes ! 6)) + ucast (bytes ! 7)"

definition storeUInt64ToBytes :: "u64 \<Rightarrow> u8 list" where
  "storeUInt64ToBytes v =
     [ucast (drop_bit 56 v), ucast (drop_bit 48 v), ucast (drop_bit 40 v), ucast (drop_bit 32 v),
      ucast (drop_bit 24 v), ucast (drop_bit 16 v), ucast (drop_bit 8 v), ucast v]"

definition uuid_of_bytes :: "u8 list \<Rightarrow> UUID" where
  "uuid_of_bytes bytes = UUID (makeUInt64FromBytes bytes) (makeUInt64FromBytes (drop 8 bytes))"

definition toBytes :: "UUID \<Rightarrow> u8 list" where
  "toBytes u = storeUInt64ToBytes (data0 u) @ storeUInt64ToBytes (data1 u)"

section \<open>Text\<close>

text \<open>The arithmetic of \<open>hexDigit\<close> is made on the sign-extended \<open>char\<close>.\<close>

definition hexDigit :: "u8 \<Rightarrow> u64" where
  "hexDigit digit =
     (if digit \<le>s 0x39 then scast digit - 0x30
      else if digit \<le>s 0x46 then scast digit - 0x41 + 10
      else scast digit - 0x61 + 10)"

definition hexWordAt :: "u8 list \<Rightarrow> nat \<Rightarrow> u64" where
  "hexWordAt str i =
     push_bit 12 (hexDigit (str ! i)) + push_bit 8 (hexDigit (str ! (i + 1))) +
     push_bit 4 (hexDigit (str ! (i + 2))) + hexDigit (str ! (i + 3))"

definition makeUInt64FromWordsAt :: "u8 list \<Rightarrow> nat \<Rightarrow> nat \<Rightarrow> nat \<Rightarrow> nat \<Rightarrow> u64" where
  "makeUInt64FromWordsAt str i j k l =
     push_bit 48 (hexWordAt str i) + push_bit 32 (hexWordAt str j) +
     push_bit 16 (hexWordAt str k) + hexWordAt str l"

definition uuid_of_string :: "u8 list \<Rightarrow> UUID" where
  "uuid_of_string str =
     UUID (makeUInt64FromWordsAt str 1 5 10 15) (makeUInt64FromWordsAt str 20 25 29 33)"

text \<open>A digit of a stream in hexadecimal mode, and \<open>word_print\<close>: four of them, padded by zeros.\<close>

definition hexChar :: "u64 \<Rightarrow> u8" where
  "hexChar d = (if d < 10 then 0x30 + ucast d else 0x61 + (ucast d - 10))"

definition word_print :: "u64 \<Rightarrow> u8 list" where
  "word_print w =
     [hexChar (drop_bit 12 w AND 0xf), hexChar (drop_bit 8 w AND 0xf),
      hexChar (drop_bit 4 w AND 0xf), hexChar (w AND 0xf)]"

definition wordAt0 :: "UUID \<Rightarrow> nat \<Rightarrow> u64" where
  "wordAt0 u i = drop_bit ((3 - i) * 16) (data0 u) AND 0xffff"

definition wordAt1 :: "UUID \<Rightarrow> nat \<Rightarrow> u64" where
  "wordAt1 u i = drop_bit ((3 - i) * 16) (data1 u) AND 0xffff"

text \<open>The braces are \<open>0x7b\<close> and \<open>0x7d\<close>, the dash is \<open>0x2d\<close>.\<close>

definition uuid_print :: "UUID \<Rightarrow> u8 list" where
  "uuid_print u =
     [0x7b] @ word_print (wordAt0 u 0) @ word_print (wordAt0 u 1) @ [0x2d] @
     word_print (wordAt0 u 2) @ [0x2d] @ word_print (wordAt0 u 3) @ [0x2d] @
     word_print (wordAt1 u 0) @ [0x2d] @
     word_print (wordAt1 u 1) @ word_print (wordAt1 u 2) @ word_print (wordAt1 u 3) @ [0x7d]"

section \<open>Global nodes\<close>

text \<open>The fields \<open>self\<close> and \<open>protocol\<close> of a new node are set by the caller: the contents of
  a node is one value, initially \<open>None\<close>.\<close>

datatype 'a GlobalNode = GNull | GNode UUID "'a option" "'a GlobalNode" "'a GlobalNode"

fun global_get :: "UUID \<Rightarrow> 'a GlobalNode \<Rightarrow> bool \<times> 'a option \<times> 'a GlobalNode" where
  "global_get u GNull = (False, None, GNode u None GNull GNull)"
| "global_get u (GNode v x left right) =
     (if v < u then (case global_get u right of (found, y, right') \<Rightarrow> (found, y, GNode v x left right'))
      else if v > u then (case global_get u left of (found, y, left') \<Rightarrow> (found, y, GNode v x left' right))
      else (True, x, GNode v x left right))"

section \<open>Digits\<close>

text \<open>A word is its high part followed by its low digits.\<close>

lemma push_add_or:
  assumes "take_bit n x = x" shows "push_bit n a + x = push_bit n a OR (x::u64)"
proof -
  have "push_bit n a AND take_bit n x = 0" by (rule bit_word_eqI) (auto simp: bit_simps)
  then show ?thesis unfolding assms by (simp add: disjunctive_add_eq_or)
qed

lemma split_digits: "push_bit n (drop_bit n y) + take_bit n y = (y :: u64)"
proof -
  have "push_bit n (drop_bit n y) AND take_bit n y = 0"
    by (rule bit_word_eqI) (auto simp: bit_simps)
  then have "push_bit n (drop_bit n y) + take_bit n y = push_bit n (drop_bit n y) OR take_bit n y"
    by (simp add: disjunctive_add_eq_or)
  also have "\<dots> = y" by (rule bit_word_eqI) (auto simp: bit_simps)
  finally show ?thesis .
qed

lemma byte_take_bit: "ucast (ucast (y::u64) :: u8) = take_bit 8 y"
  by (rule bit_word_eqI) (auto simp: bit_simps)

lemma byte_step:
  "push_bit 8 (drop_bit (n + 8) v) + ucast (ucast (drop_bit n v) :: u8) = drop_bit n (v :: u64)"
  using split_digits[of 8 "drop_bit n v"] by (simp add: byte_take_bit add.commute)

lemma horner8:
  "push_bit 56 a + push_bit 48 b + push_bit 40 c + push_bit 32 d + push_bit 24 e + push_bit 16 f + push_bit 8 g + h =
   push_bit 8 (push_bit 8 (push_bit 8 (push_bit 8 (push_bit 8 (push_bit 8 (push_bit 8 a + b) + c) + d) + e) + f) + g) + (h::u64)"
  by (simp add: push_bit_add)

lemma store_make: "makeUInt64FromBytes (storeUInt64ToBytes v @ rest) = v"
proof -
  have top: "ucast (ucast (drop_bit 56 v) :: u8) = drop_bit 56 v"
  proof (rule bit_word_eqI)
    fix n assume "n < LENGTH(64)"
    then show "bit (ucast (ucast (drop_bit 56 v) :: u8) :: u64) n = bit (drop_bit 56 v) n"
      using bit_imp_le_length[of v "56 + n"] by (auto simp: bit_simps)
  qed
  show ?thesis
    unfolding makeUInt64FromBytes_def storeUInt64ToBytes_def horner8
    using byte_step[of 48 v] byte_step[of 40 v] byte_step[of 32 v] byte_step[of 24 v] byte_step[of 16 v]
      byte_step[of 8 v] byte_step[of 0 v]
    by (simp add: top)
qed

lemma byte_push_or: "push_bit 8 a + ucast (b::u8) = push_bit 8 a OR (ucast b :: u64)"
  by (rule push_add_or, rule bit_word_eqI) (auto simp: bit_simps dest: bit_imp_le_length)

lemma low_byte: "ucast (push_bit 8 a + ucast b :: u64) = (b::u8)"
  unfolding byte_push_or by (rule bit_word_eqI) (auto simp: bit_simps)

lemma high_byte:
  "8 \<le> m \<Longrightarrow> m + 8 \<le> 64 \<Longrightarrow> ucast (drop_bit m (push_bit 8 a + ucast (b::u8) :: u64)) = (ucast (drop_bit (m - 8) a) :: u8)"
  unfolding byte_push_or by (rule bit_word_eqI) (auto simp: bit_simps dest: bit_imp_le_length)

lemma make_store:
  assumes "length bytes = 8" shows "storeUInt64ToBytes (makeUInt64FromBytes bytes) = bytes"
proof -
  obtain b0 b1 b2 b3 b4 b5 b6 b7 where b: "bytes = [b0, b1, b2, b3, b4, b5, b6, b7]"
    using assms by (auto simp: length_Suc_conv eval_nat_numeral)
  have m: "makeUInt64FromBytes bytes =
      push_bit 8 (push_bit 8 (push_bit 8 (push_bit 8 (push_bit 8 (push_bit 8 (push_bit 8 (ucast b0)
        + ucast b1) + ucast b2) + ucast b3) + ucast b4) + ucast b5) + ucast b6) + ucast b7"
    unfolding b makeUInt64FromBytes_def horner8 by simp
  show ?thesis
    unfolding storeUInt64ToBytes_def m
    by (simp add: high_byte low_byte b) (rule bit_word_eqI, simp add: bit_simps)
qed

lemma hexDigit_hexChar: "d < 16 \<Longrightarrow> hexDigit (hexChar (of_nat d)) = of_nat d"
proof -
  assume "d < 16"
  then have "d \<in> {0,1,2,3,4,5,6,7,8,9,10,11,12,13,14,15}" by simp arith
  then show ?thesis by (elim insertE emptyE) (simp_all add: hexDigit_def hexChar_def)
qed

lemma hexDigit_nibble: "hexDigit (hexChar (w AND 0xf)) = take_bit 4 w"
proof -
  have "unat (w AND 0xf) < 16" by (simp add: unat_and_masks)
  from hexDigit_hexChar[OF this] have "hexDigit (hexChar (w AND 0xf)) = w AND 0xf" by simp
  also have "\<dots> = take_bit 4 w" by (simp add: take_bit_eq_mask mask_eq_exp_minus_1)
  finally show ?thesis .
qed

lemma four_digits:
  "push_bit (3 * n) (take_bit n (drop_bit (3 * n) w)) + push_bit (2 * n) (take_bit n (drop_bit (2 * n) w)) +
   push_bit n (take_bit n (drop_bit n w)) + take_bit n w = take_bit (4 * n) (w::u64)"
proof -
  have s: "push_bit n (take_bit m (drop_bit n y)) + take_bit n y = take_bit (n + m) y" for m and y :: u64
    using split_digits[of n "take_bit (n + m) y"] by (simp add: drop_bit_take_bit)
  have "push_bit (3 * n) a + push_bit (2 * n) b + push_bit n c + d = push_bit n (push_bit n (push_bit n a + b) + c) + (d::u64)" for a b c d
    by (simp add: push_bit_add numeral_eq_Suc add.commute add.left_commute)
  note h = this
  have "push_bit n (take_bit n (drop_bit (3 * n) w)) + take_bit n (drop_bit (2 * n) w) = take_bit (n + n) (drop_bit (2 * n) w)"
    using s[of n "drop_bit (2 * n) w"] by (simp add: numeral_eq_Suc add.commute add.left_commute)
  moreover have "push_bit n (take_bit (n + n) (drop_bit (2 * n) w)) + take_bit n (drop_bit n w) = take_bit (n + (n + n)) (drop_bit n w)"
    using s[of "n + n" "drop_bit n w"] by (simp add: numeral_eq_Suc add.commute add.left_commute)
  ultimately show ?thesis
    unfolding h using s[of "n + (n + n)" w] by (simp add: numeral_eq_Suc add.commute add.left_commute)
qed

lemma hexWordAt_print:
  assumes "drop i str = word_print w @ rest" shows "hexWordAt str i = take_bit 16 w"
proof -
  have "str ! (i + j) = word_print w ! j" if "j < 4" for j
  proof -
    have "i < length str" using assms by (cases "i < length str") (auto simp: word_print_def)
    then have "str ! (i + j) = drop i str ! j" by simp
    also have "\<dots> = word_print w ! j" unfolding assms using that by (simp only: nth_append word_print_def list.size) simp
    finally show ?thesis .
  qed
  from this[of 0] this[of 1] this[of 2] this[of 3] show ?thesis
    using four_digits[of 4 w] by (simp add: hexWordAt_def word_print_def hexDigit_nibble)
qed

lemma word16: "take_bit 16 (w AND 0xffff) = take_bit 16 (w::u64)"
proof -
  have "w AND 0xffff = take_bit 16 w" by (simp add: take_bit_eq_mask mask_eq_exp_minus_1)
  then show ?thesis by simp
qed

lemma print_parse: "uuid_of_string (uuid_print u) = u"
proof -
  let ?s = "uuid_print u"
  note w = hexWordAt_print[of _ ?s]
  have a: "hexWordAt ?s 1 = take_bit 16 (wordAt0 u 0)" "hexWordAt ?s 5 = take_bit 16 (wordAt0 u 1)"
    "hexWordAt ?s 10 = take_bit 16 (wordAt0 u 2)" "hexWordAt ?s 15 = take_bit 16 (wordAt0 u 3)"
    "hexWordAt ?s 20 = take_bit 16 (wordAt1 u 0)" "hexWordAt ?s 25 = take_bit 16 (wordAt1 u 1)"
    "hexWordAt ?s 29 = take_bit 16 (wordAt1 u 2)" "hexWordAt ?s 33 = take_bit 16 (wordAt1 u 3)"
    by (rule w; simp add: uuid_print_def word_print_def)+
  note a2 = a[unfolded wordAt0_def wordAt1_def word16]
  have "take_bit 64 x = x" for x :: u64 by (rule bit_word_eqI) (simp add: bit_simps)
  then show ?thesis
    using four_digits[of 16 "data0 u"] four_digits[of 16 "data1 u"]
    by (intro UUID.expand)
      (simp add: uuid_of_string_def makeUInt64FromWordsAt_def a2 a2(1)[unfolded One_nat_def])
qed

section \<open>The tree of global nodes\<close>

fun global_ids :: "'a GlobalNode \<Rightarrow> UUID set" where
  "global_ids GNull = {}"
| "global_ids (GNode v x left right) = insert v (global_ids left \<union> global_ids right)"

fun global_sorted :: "'a GlobalNode \<Rightarrow> bool" where
  "global_sorted GNull = True"
| "global_sorted (GNode v x left right) =
     ((\<forall>u\<in>global_ids left. u < v) \<and> (\<forall>u\<in>global_ids right. v < u) \<and> global_sorted left \<and> global_sorted right)"

lemma global_get_spec:
  "global_sorted t \<Longrightarrow> global_get u t = (found, x, t') \<Longrightarrow>
   (found \<longleftrightarrow> u \<in> global_ids t) \<and> global_sorted t' \<and> global_ids t' = insert u (global_ids t) \<and> (found \<longrightarrow> t' = t)"
proof (induction t arbitrary: found x t')
  case (GNode v y left right)
  consider "v < u" | "u < v" | "u = v" by fastforce
  then show ?case
  proof cases
    case 1
    then obtain f z r where r: "global_get u right = (f, z, r)" "found = f" "t' = GNode v y left r"
      using GNode.prems(2) by (cases "global_get u right") auto
    then show ?thesis using GNode.IH(2)[OF _ r(1)] GNode.prems(1) 1 by auto
  next
    case 2
    then have "\<not> v < u" by simp
    with 2 obtain f z l where l: "global_get u left = (f, z, l)" "found = f" "t' = GNode v y l right"
      using GNode.prems(2) by (cases "global_get u left") auto
    then show ?thesis using GNode.IH(1)[OF _ l(1)] GNode.prems(1) 2 by auto
  next
    case 3
    then show ?thesis using GNode.prems by auto
  qed
qed auto

lemma uuid_of_toBytes: "uuid_of_bytes (toBytes u) = u"
  using store_make[of "data0 u" "storeUInt64ToBytes (data1 u)"] store_make[of "data1 u" "[]"]
  by (cases u) (simp add: uuid_of_bytes_def toBytes_def storeUInt64ToBytes_def)

lemma length_toBytes: "length (toBytes u) = 16"
  by (simp add: toBytes_def storeUInt64ToBytes_def)

section \<open>Properties\<close>

text \<open>C37. Identifiers survive both of their external forms: reading back the printed text gives
  the identifier, as does reading back its sixteen bytes, and every sixteen bytes are those of the
  identifier they are read as.\<close>

theorem uuid_roundtrips:
  "uuid_of_string (uuid_print u) = u \<and> uuid_of_bytes (toBytes u) = u \<and>
   (length bytes = 16 \<longrightarrow> toBytes (uuid_of_bytes bytes) = bytes)"
proof (intro conjI impI)
  show "uuid_of_bytes (toBytes u) = u" by (rule uuid_of_toBytes)
next
  assume "length bytes = 16"
  moreover have "makeUInt64FromBytes bytes = makeUInt64FromBytes (take 8 bytes)"
    by (simp add: makeUInt64FromBytes_def)
  ultimately show "toBytes (uuid_of_bytes bytes) = bytes"
    using make_store[of "take 8 bytes"] make_store[of "drop 8 bytes"] by (simp add: toBytes_def uuid_of_bytes_def)
qed (rule print_parse)

theorem uuid_roundtrips_witness:
  "toBytes (uuid_of_bytes [0,1,2,3,4,5,6,7,8,9,10,11,12,13,14,15]) = [0,1,2,3,4,5,6,7,8,9,10,11,12,13,14,15]"
  using uuid_roundtrips[of "UUID 0 0" "[0,1,2,3,4,5,6,7,8,9,10,11,12,13,14,15]"] by simp

text \<open>C24. Looking up a global node answers whether its identifier was there, adds it if it was
  not, and keeps the search tree sorted; an identifier that was there leaves the tree as it is.\<close>

theorem global_get_correct:
  assumes "global_sorted t" and "global_get u t = (found, x, t')"
  shows "(found \<longleftrightarrow> u \<in> global_ids t) \<and> global_sorted t' \<and> global_ids t' = insert u (global_ids t) \<and>
    (found \<longrightarrow> t' = t)"
  using global_get_spec[OF assms] .

theorem global_get_correct_witness:
  "\<not> fst (global_get (UUID 0 1) (GNull :: nat GlobalNode)) \<and>
   global_ids (snd (snd (global_get (UUID 0 1) (GNull :: nat GlobalNode)))) = {UUID 0 1}"
  using global_get_correct[of "GNull :: nat GlobalNode" "UUID 0 1" False None "GNode (UUID 0 1) None GNull GNull"] by simp

end
