(* ===== verification/Features.thy ===== *)
theory Features
  imports AtomTable Integers Uuid
begin

text \<open>
  Features and their order (\<open>compareFeatures\<close> of \<open>vm/vm/main/typeinfo-decl.hh\<close> and of each
  feature type: \<open>smallint.hh\<close>, \<open>bigint.hh\<close>, \<open>atom.hh\<close>, \<open>boolean.hh\<close>, \<open>unit.hh\<close>,
  \<open>names.hh\<close>). Arities and dictionaries are sorted by it.
\<close>

section \<open>Features\<close>

text \<open>
  An atom and a unique name are given by their contents, which determine them
  (\<open>atoms_interned\<close>), a big integer by its value, a name by its identifier.
\<close>

datatype feature =
    FSmallInt nativeint
  | FBigInt int
  | FAtom "u8 list"
  | FBoolean bool
  | FUnit
  | FGlobalName UUID
  | FNamedName UUID
  | FUniqueName "u8 list"

datatype feature_type =
  TSmallInt | TBigInt | TAtom | TBoolean | TUnit | TGlobalName | TNamedName | TUniqueName

fun type_of_feature :: "feature \<Rightarrow> feature_type" where
  "type_of_feature (FSmallInt _) = TSmallInt"
| "type_of_feature (FBigInt _) = TBigInt"
| "type_of_feature (FAtom _) = TAtom"
| "type_of_feature (FBoolean _) = TBoolean"
| "type_of_feature FUnit = TUnit"
| "type_of_feature (FGlobalName _) = TGlobalName"
| "type_of_feature (FNamedName _) = TNamedName"
| "type_of_feature (FUniqueName _) = TUniqueName"

fun type_uuid :: "feature_type \<Rightarrow> UUID" where
  "type_uuid TSmallInt = uuid_of_string (ascii ''{00000000-0000-4f00-0000-000000000001}'')"
| "type_uuid TBigInt = uuid_of_string (ascii ''{00000000-0000-9e00-0000-000000000002}'')"
| "type_uuid TAtom = uuid_of_string (ascii ''{55ed333b-1eaf-4c8a-a151-626d3f96efe8}'')"
| "type_uuid TBoolean = uuid_of_string (ascii ''{ce34f46e-4751-4f2d-b6fd-0522198a4810}'')"
| "type_uuid TUnit = uuid_of_string (ascii ''{f08642c3-5b42-4f7f-889f-9f43286973b7}'')"
| "type_uuid TGlobalName = uuid_of_string (ascii ''{3330919d-1e2f-41a4-a073-620dd36dd582}'')"
| "type_uuid TNamedName = uuid_of_string (ascii ''{f9873e5a-65db-4894-9dd5-bcd276df14af}'')"
| "type_uuid TUniqueName = uuid_of_string (ascii ''{f6cdb080-98ad-47bf-9e67-629385261e9f}'')"

definition contents_compare :: "u8 list \<Rightarrow> u8 list \<Rightarrow> int" where
  "contents_compare a b = (if a = b then 0 else compareByCodePoint False a b)"

definition uuid_compare :: "UUID \<Rightarrow> UUID \<Rightarrow> int" where
  "uuid_compare u rhsUUID = (if u = rhsUUID then 0 else if uuid_less u rhsUUID then -1 else 1)"

definition boolean_compare :: "bool \<Rightarrow> bool \<Rightarrow> int" where
  "boolean_compare a b = (if a = b then 0 else if a then 1 else -1)"

text \<open>\<open>TypeInfo::compareFeatures\<close>, which is called on two features of its type only.\<close>

fun type_compareFeatures :: "feature \<Rightarrow> feature \<Rightarrow> int" where
  "type_compareFeatures (FSmallInt a) (FSmallInt b) = smallint_compareFeatures a b"
| "type_compareFeatures (FBigInt a) (FBigInt b) = big_cmp int_ops a b"
| "type_compareFeatures (FAtom a) (FAtom b) = contents_compare a b"
| "type_compareFeatures (FBoolean a) (FBoolean b) = boolean_compare a b"
| "type_compareFeatures FUnit FUnit = 0"
| "type_compareFeatures (FGlobalName a) (FGlobalName b) = uuid_compare a b"
| "type_compareFeatures (FNamedName a) (FNamedName b) = uuid_compare a b"
| "type_compareFeatures (FUniqueName a) (FUniqueName b) = contents_compare a b"
| "type_compareFeatures _ _ = 0"

text \<open>Features of one type are compared by it, those of two types by the types' identifiers.\<close>

definition compareFeatures :: "feature \<Rightarrow> feature \<Rightarrow> int" where
  "compareFeatures lhs rhs =
     (let lhsType = type_of_feature lhs; rhsType = type_of_feature rhs
      in if lhsType = rhsType then type_compareFeatures lhs rhs
         else if uuid_less (type_uuid lhsType) (type_uuid rhsType) then -1 else 1)"

section \<open>The order\<close>

text \<open>The contract sorted structures rely on.\<close>

locale feature_order =
  fixes cmp :: "'k \<Rightarrow> 'k \<Rightarrow> int"
  assumes cmp_eq: "cmp a b = 0 \<longleftrightarrow> a = b"
    and cmp_anti: "cmp a b < 0 \<longleftrightarrow> cmp b a > 0"
    and cmp_trans: "cmp a b < 0 \<Longrightarrow> cmp b c < 0 \<Longrightarrow> cmp a c < 0"
begin

lemma cmp_refl [simp]: "cmp a a = 0"
  by (simp add: cmp_eq)

lemma cmp_irrefl [simp]: "\<not> cmp a a < 0"
  by simp

lemma cmp_asym: "cmp a b < 0 \<Longrightarrow> \<not> cmp b a < 0"
  using cmp_anti[of a b] by simp

lemma cmp_cases: "cmp a b < 0 \<or> a = b \<or> cmp b a < 0"
  using cmp_eq[of a b] cmp_anti[of b a] by linarith

end

text \<open>Strings of units.\<close>

lemma lex_cmp_range: "lex_cmp a b \<in> {-1, 0, 1}"
  by (induction a b rule: lex_cmp.induct) auto

lemma lex_cmp_0: "lex_cmp a b = 0 \<longleftrightarrow> a = b"
  by (induction a b rule: lex_cmp.induct) auto

lemma lex_cmp_trans: "lex_cmp a b < 0 \<Longrightarrow> lex_cmp b c < 0 \<Longrightarrow> lex_cmp a c < 0"
proof (induction a arbitrary: b c)
  case Nil
  then show ?case by (cases b; cases c) (auto split: if_splits)
next
  case (Cons x xs)
  then obtain y ys where b: "b = y # ys" by (cases b) auto
  with Cons.prems obtain z zs where c: "c = z # zs" by (cases c) auto
  show ?case using Cons b c by (auto split: if_splits)
qed

lemma contents_compare_lex: "contents_compare a b = lex_cmp a b"
  by (simp add: contents_compare_def compareByCodePoint_lex)

interpretation contents: feature_order contents_compare
proof
  fix a b c
  show "contents_compare a b = 0 \<longleftrightarrow> a = b" by (simp add: contents_compare_lex lex_cmp_0)
  show "contents_compare a b < 0 \<longleftrightarrow> contents_compare b a > 0"
    using lex_cmp_swap[of a b] by (simp add: contents_compare_lex)
  show "contents_compare a b < 0 \<Longrightarrow> contents_compare b c < 0 \<Longrightarrow> contents_compare a c < 0"
    by (simp add: contents_compare_lex lex_cmp_trans)
qed

interpretation uuids: feature_order uuid_compare
proof -
  have c: "uuid_compare a b = (if a = b then 0 else if a < b then -1 else 1)" for a b
    by (simp add: uuid_compare_def less_UUID_def)
  show "feature_order uuid_compare"
  proof
    fix a b d
    show "uuid_compare a b = 0 \<longleftrightarrow> a = b" by (simp add: c)
    show "uuid_compare a b < 0 \<longleftrightarrow> uuid_compare b a > 0"
      unfolding c by (cases a b rule: linorder_cases) auto
    show "uuid_compare a b < 0 \<Longrightarrow> uuid_compare b d < 0 \<Longrightarrow> uuid_compare a d < 0"
      unfolding c using less_trans[of a b d] by (auto split: if_splits)
  qed
qed

interpretation booleans: feature_order boolean_compare
  by unfold_locales (auto simp: boolean_compare_def split: if_splits)

lemma smallint_compareFeatures_sgn: "smallint_compareFeatures a b = sgn (sint a - sint b)"
  using sint_eqI[of a b] by (auto simp: smallint_compareFeatures_def word_sless_alt sgn_if)

interpretation smallints: feature_order smallint_compareFeatures
proof
  fix a b c
  show "smallint_compareFeatures a b = 0 \<longleftrightarrow> a = b"
    using sint_eqI[of a b] by (auto simp: smallint_compareFeatures_sgn sgn_0_0)
  show "smallint_compareFeatures a b < 0 \<longleftrightarrow> smallint_compareFeatures b a > 0"
    by (simp add: smallint_compareFeatures_sgn)
  show "smallint_compareFeatures a b < 0 \<Longrightarrow> smallint_compareFeatures b c < 0 \<Longrightarrow> smallint_compareFeatures a c < 0"
    by (simp add: smallint_compareFeatures_sgn)
qed

interpretation bigints: feature_order "big_cmp int_ops"
  by unfold_locales (simp_all add: int_ops_def sgn_0_0)

text \<open>The identifiers of the types are distinct.\<close>

definition all_types :: "feature_type list" where
  "all_types = [TSmallInt, TBigInt, TAtom, TBoolean, TUnit, TGlobalName, TNamedName, TUniqueName]"

lemma type_uuids_distinct: "distinct (map type_uuid all_types)"
  by code_simp

lemma type_uuid_inj: "type_uuid s = type_uuid t \<longleftrightarrow> s = t"
proof -
  have "x \<in> set all_types" for x by (cases x) (simp_all add: all_types_def)
  then have "set all_types = UNIV" by blast
  then have "inj type_uuid" using type_uuids_distinct by (simp add: distinct_map)
  then show ?thesis by (simp add: inj_eq)
qed

text \<open>Within one type.\<close>

lemma type_compare_eq:
  "type_of_feature a = type_of_feature b \<Longrightarrow> type_compareFeatures a b = 0 \<longleftrightarrow> a = b"
  by (cases a; cases b)
    (simp_all add: smallints.cmp_eq bigints.cmp_eq contents.cmp_eq booleans.cmp_eq uuids.cmp_eq)

lemma type_compare_anti:
  "type_of_feature a = type_of_feature b \<Longrightarrow> type_compareFeatures a b < 0 \<longleftrightarrow> type_compareFeatures b a > 0"
  by (cases a; cases b)
    (simp_all add: smallints.cmp_anti bigints.cmp_anti contents.cmp_anti booleans.cmp_anti uuids.cmp_anti)

lemma type_compare_trans:
  "type_of_feature a = type_of_feature b \<Longrightarrow> type_of_feature b = type_of_feature c \<Longrightarrow>
   type_compareFeatures a b < 0 \<Longrightarrow> type_compareFeatures b c < 0 \<Longrightarrow> type_compareFeatures a c < 0"
  by (cases a; cases b; simp; cases c; simp)
    (blast intro: smallints.cmp_trans bigints.cmp_trans contents.cmp_trans booleans.cmp_trans uuids.cmp_trans)+

lemma compareFeatures_eq:
  "compareFeatures a b =
     (if type_of_feature a = type_of_feature b then type_compareFeatures a b
      else if type_uuid (type_of_feature a) < type_uuid (type_of_feature b) then -1 else 1)"
  by (simp add: compareFeatures_def less_UUID_def Let_def)

interpretation features: feature_order compareFeatures
proof
  fix a b c
  show "compareFeatures a b = 0 \<longleftrightarrow> a = b"
    using type_compare_eq[of a b] by (auto simp: compareFeatures_eq)
  show "compareFeatures a b < 0 \<longleftrightarrow> compareFeatures b a > 0"
  proof (cases "type_of_feature a = type_of_feature b")
    case True
    then show ?thesis using type_compare_anti[OF True] by (simp add: compareFeatures_eq)
  next
    case False
    then have "type_uuid (type_of_feature a) \<noteq> type_uuid (type_of_feature b)" by (simp add: type_uuid_inj)
    then have "type_uuid (type_of_feature a) < type_uuid (type_of_feature b) \<longleftrightarrow>
        \<not> type_uuid (type_of_feature b) < type_uuid (type_of_feature a)" by auto
    then show ?thesis using False by (simp add: compareFeatures_eq)
  qed
  show "compareFeatures a c < 0" if "compareFeatures a b < 0" "compareFeatures b c < 0"
  proof -
    have "type_uuid (type_of_feature a) \<le> type_uuid (type_of_feature b)"
      "type_uuid (type_of_feature b) \<le> type_uuid (type_of_feature c)"
      using that by (auto simp: compareFeatures_eq split: if_splits)
    then consider "type_of_feature a = type_of_feature b" "type_of_feature b = type_of_feature c"
      | "type_uuid (type_of_feature a) < type_uuid (type_of_feature c)"
      using type_uuid_inj by (metis order.strict_trans1 order_le_less)
    then show ?thesis
    proof cases
      case 1
      then show ?thesis using that type_compare_trans[OF 1] by (simp add: compareFeatures_eq)
    next
      case 2
      then have "type_of_feature a \<noteq> type_of_feature c" by auto
      then show ?thesis using 2 by (simp add: compareFeatures_eq)
    qed
  qed
qed

text \<open>The features are a linear order of the library.\<close>

instantiation feature :: linorder
begin

definition less_feature :: "feature \<Rightarrow> feature \<Rightarrow> bool" where
  "less_feature a b \<longleftrightarrow> compareFeatures a b < 0"

definition less_eq_feature :: "feature \<Rightarrow> feature \<Rightarrow> bool" where
  "less_eq_feature a b \<longleftrightarrow> compareFeatures a b \<le> 0"

instance
proof
  fix x y z :: feature
  show "x < y \<longleftrightarrow> x \<le> y \<and> \<not> y \<le> x" using features.cmp_anti[of x y]
    by (auto simp: less_feature_def less_eq_feature_def)
  show "x \<le> x" by (simp add: less_eq_feature_def)
  show "x \<le> y \<Longrightarrow> y \<le> z \<Longrightarrow> x \<le> z"
    using features.cmp_trans[of x y z] features.cmp_eq[of x y] features.cmp_eq[of y z]
    by (fastforce simp: less_eq_feature_def order_le_less)
  show "x \<le> y \<Longrightarrow> y \<le> x \<Longrightarrow> x = y"
    using features.cmp_anti[of x y] features.cmp_eq[of x y] by (auto simp: less_eq_feature_def order_le_less)
  show "x \<le> y \<or> y \<le> x" using features.cmp_cases[of x y] features.cmp_eq[of x y]
    by (auto simp: less_eq_feature_def order_le_less)
qed

end

section \<open>Properties\<close>

text \<open>C20. Comparing features is a total order for every mix of types: it answers zero on equal
  features only, swapping the operands changes the sign, and it is transitive. So arities and
  dictionaries can be sorted by it.\<close>

theorem compareFeatures_total_order:
  "(compareFeatures a b = 0 \<longleftrightarrow> a = b) \<and> (compareFeatures a b < 0 \<longleftrightarrow> compareFeatures b a > 0) \<and>
   (compareFeatures a b < 0 \<and> compareFeatures b c < 0 \<longrightarrow> compareFeatures a c < 0)"
  using features.cmp_eq[of a b] features.cmp_anti[of a b] features.cmp_trans[of a b c] by blast

theorem compareFeatures_total_order_witness:
  "compareFeatures (FSmallInt (-1)) (FSmallInt 2) < 0 \<and> compareFeatures (FSmallInt 2) (FSmallInt 3) < 0 \<and>
   compareFeatures (FSmallInt (-1)) (FSmallInt 3) < 0"
proof -
  have a: "compareFeatures (FSmallInt (-1)) (FSmallInt 2) < 0" "compareFeatures (FSmallInt 2) (FSmallInt 3) < 0"
    by (simp_all add: compareFeatures_def smallint_compareFeatures_sgn)
  then show ?thesis
    using compareFeatures_total_order[of "FSmallInt (-1)" "FSmallInt 2" "FSmallInt 3"] by blast
qed

end
