(* ===== verification/Dictionary.thy ===== *)
theory Dictionary
  imports Features "HOL-Library.Multiset"
begin

text \<open>
  Dictionaries (\<open>vm/vm/main/dictionary-decl.hh\<close>, \<open>dictionary.hh\<close>): red-black trees of
  features. The nodes of the code have parent pointers; a pointer to a node is a position in the tree
  here: the subtree at the node and the path of its ancestors, the parent first, each with its color,
  key, value and other child. A pointer to a value is the key of its node.
\<close>

section \<open>Nodes and positions\<close>

datatype Color = clBlack | clRed

datatype ('k, 'v) dnode = DLeaf
  | DNode Color "('k, 'v) dnode" 'k 'v "('k, 'v) dnode"

text \<open>The node is the left, or the right, child of a parent with this color, key, value and other child.\<close>

datatype ('k, 'v) frame =
    LeftOf Color 'k 'v "('k, 'v) dnode"
  | RightOf Color "('k, 'v) dnode" 'k 'v

type_synonym ('k, 'v) path = "('k, 'v) frame list"

fun plug1 :: "('k, 'v) frame \<Rightarrow> ('k, 'v) dnode \<Rightarrow> ('k, 'v) dnode" where
  "plug1 (LeftOf c k v r) t = DNode c t k v r"
| "plug1 (RightOf c l k v) t = DNode c l k v t"

fun plug :: "('k, 'v) path \<Rightarrow> ('k, 'v) dnode \<Rightarrow> ('k, 'v) dnode" where
  "plug [] t = t"
| "plug (f # fs) t = plug fs (plug1 f t)"

fun isRed :: "('k, 'v) dnode \<Rightarrow> bool" where
  "isRed (DNode clRed _ _ _ _) = True"
| "isRed _ = False"

fun isBlack :: "('k, 'v) dnode \<Rightarrow> bool" where
  "isBlack (DNode clRed _ _ _ _) = False"
| "isBlack _ = True"

fun setColor :: "Color \<Rightarrow> ('k, 'v) dnode \<Rightarrow> ('k, 'v) dnode" where
  "setColor c (DNode _ l k v r) = DNode c l k v r"
| "setColor c DLeaf = DLeaf"

text \<open>The rotations turn the links around, colors stay with their nodes. They are called with a child
  that is a node.\<close>

fun rotateLeft :: "('k, 'v) dnode \<Rightarrow> ('k, 'v) dnode" where
  "rotateLeft (DNode cp a kp vp (DNode cc b kc vc c)) = DNode cc (DNode cp a kp vp b) kc vc c"
| "rotateLeft t = t"

fun rotateRight :: "('k, 'v) dnode \<Rightarrow> ('k, 'v) dnode" where
  "rotateRight (DNode cp (DNode cc a kc vc b) kp vp c) = DNode cc a kc vc (DNode cp b kp vp c)"
| "rotateRight t = t"

section \<open>Lookup and insertion\<close>

text \<open>\<open>None\<close> when the loop has reached a null pointer; the path is then that of the place of the
  new node.\<close>

fun lookupNode :: "('k \<Rightarrow> 'k \<Rightarrow> int) \<Rightarrow> 'k \<Rightarrow> ('k, 'v) dnode \<Rightarrow> ('k, 'v) path \<Rightarrow>
    ('k, 'v) dnode \<times> ('k, 'v) path" where
  "lookupNode cmp key DLeaf path = (DLeaf, path)"
| "lookupNode cmp key (DNode c l k v r) path =
     (let comparison = cmp key k
      in if comparison = 0 then (DNode c l k v r, path)
         else if comparison < 0 then lookupNode cmp key l (LeftOf c k v r # path)
         else lookupNode cmp key r (RightOf c l k v # path))"

fun dlookup :: "('k \<Rightarrow> 'k \<Rightarrow> int) \<Rightarrow> 'k \<Rightarrow> ('k, 'v) dnode \<Rightarrow> 'v option" where
  "dlookup cmp key t =
     (case lookupNode cmp key t [] of
        (DNode _ _ _ v _, _) \<Rightarrow> Some v
      | (DLeaf, _) \<Rightarrow> None)"

fun frame_color :: "('k, 'v) frame \<Rightarrow> Color" where
  "frame_color (LeftOf c _ _ _) = c"
| "frame_color (RightOf c _ _ _) = c"

definition frame_red :: "('k, 'v) frame \<Rightarrow> bool" where
  "frame_red f \<longleftrightarrow> frame_color f = clRed"

fun set_frame :: "Color \<Rightarrow> ('k, 'v) frame \<Rightarrow> ('k, 'v) frame" where
  "set_frame c (LeftOf _ k v r) = LeftOf c k v r"
| "set_frame c (RightOf _ l k v) = RightOf c l k v"

text \<open>\<open>getTheOtherChild\<close> of the parent, and its replacement.\<close>

fun other_child :: "('k, 'v) frame \<Rightarrow> ('k, 'v) dnode" where
  "other_child (LeftOf _ _ _ r) = r"
| "other_child (RightOf _ l _ _) = l"

fun set_other :: "('k, 'v) dnode \<Rightarrow> ('k, 'v) frame \<Rightarrow> ('k, 'v) frame" where
  "set_other t (LeftOf c k v _) = LeftOf c k v t"
| "set_other t (RightOf c _ k v) = RightOf c t k v"

fun is_left :: "('k, 'v) frame \<Rightarrow> bool" where
  "is_left (LeftOf _ _ _ _) = True"
| "is_left (RightOf _ _ _ _) = False"

text \<open>
  \<open>fixInsert\<close> at a position, answering the new root. \<open>None\<close>: a red parent without a parent, which
  an assertion excludes.
\<close>

fun fixInsert :: "('k, 'v) dnode \<Rightarrow> ('k, 'v) path \<Rightarrow> ('k, 'v) dnode option" where
  "fixInsert node [] = Some (setColor clBlack node)"
| "fixInsert node [p] =
     (if \<not> frame_red p then Some (plug [p] node) else None)"
| "fixInsert node (p # g # rest) =
     (if \<not> frame_red p then Some (plug (p # g # rest) node)
      else
        (let uncle = other_child g
         in if isRed uncle then
              fixInsert (plug1 (set_frame clRed (set_other (setColor clBlack uncle) g))
                           (plug1 (set_frame clBlack p) node)) rest
            else
              (let parent = plug1 p node;
                   parent = (if \<not> is_left p \<and> is_left g then rotateLeft parent
                             else if is_left p \<and> \<not> is_left g then rotateRight parent
                             else parent);
                   grandParent = plug1 (set_frame clRed g) (setColor clBlack parent)
               in Some (plug rest (if is_left g then rotateRight grandParent else rotateLeft grandParent)))))"

text \<open>The value of a new node is the initial one of an unstable node.\<close>

definition lookupOrCreate :: "('k \<Rightarrow> 'k \<Rightarrow> int) \<Rightarrow> 'v \<Rightarrow> 'k \<Rightarrow> ('k, 'v) dnode \<Rightarrow>
    (bool \<times> ('k, 'v) dnode) option" where
  "lookupOrCreate cmp init_value key t =
     (case lookupNode cmp key t [] of
        (DNode _ _ _ _ _, _) \<Rightarrow> Some (True, t)
      | (DLeaf, path) \<Rightarrow>
          map_option (\<lambda>t'. (False, t')) (fixInsert (DNode clRed DLeaf key init_value DLeaf) path))"

text \<open>Writing through the pointer to the value of the node of a key.\<close>

fun write_value :: "('k \<Rightarrow> 'k \<Rightarrow> int) \<Rightarrow> 'k \<Rightarrow> 'v \<Rightarrow> ('k, 'v) dnode \<Rightarrow> ('k, 'v) dnode" where
  "write_value cmp key x t =
     (case lookupNode cmp key t [] of
        (DNode c l k v r, path) \<Rightarrow> plug path (DNode c l k x r)
      | (DLeaf, path) \<Rightarrow> t)"

section \<open>Removal\<close>

fun getOneChild :: "('k, 'v) dnode \<Rightarrow> ('k, 'v) dnode" where
  "getOneChild (DNode _ l _ _ r) = (if l = DLeaf then r else l)"
| "getOneChild DLeaf = DLeaf"

fun rightMost :: "('k, 'v) dnode \<Rightarrow> ('k, 'v) path \<Rightarrow> ('k, 'v) dnode \<times> ('k, 'v) path" where
  "rightMost DLeaf path = (DLeaf, path)"
| "rightMost (DNode c l k v r) path =
     (if r = DLeaf then (DNode c l k v r, path) else rightMost r (RightOf c l k v # path))"

text \<open>
  \<open>fixRemove\<close>. In case 2 the sibling moves above the parent, its child on the side of the node
  becomes the new sibling. \<open>None\<close>: there is no sibling, or the new one is red, which assertions
  exclude.
\<close>

datatype ('k, 'v) fix_step =
    Done "('k, 'v) dnode"       \<comment> \<open>the new root\<close>
  | Again "('k, 'v) dnode"      \<comment> \<open>fix the parent, a node with one black node too few\<close>

definition fixRemove_black :: "('k, 'v) dnode \<Rightarrow> ('k, 'v) frame \<Rightarrow> ('k, 'v) path \<Rightarrow> ('k, 'v) fix_step option" where
  "fixRemove_black node p rest =
     (case other_child p of
        DLeaf \<Rightarrow> None
      | DNode clRed _ _ _ _ \<Rightarrow> None
      | DNode clBlack siblingLeft sk sv siblingRight \<Rightarrow>
          (let sibling = DNode clBlack siblingLeft sk sv siblingRight
           in if isBlack siblingLeft \<and> isBlack siblingRight then
                (if \<not> frame_red p then
                   Some (Again (plug1 (set_other (setColor clRed sibling) p) node))
                 else Some (Done (plug rest (plug1 (set_frame clBlack (set_other (setColor clRed sibling) p)) node))))
              else
                (let sibling = (if is_left p \<and> isBlack siblingRight then rotateRight sibling
                                else if \<not> is_left p \<and> isBlack siblingLeft then rotateLeft sibling
                                else sibling);
                     sibling = setColor (if frame_red p then clRed else clBlack) sibling;
                     sibling = (case sibling of
                                  DLeaf \<Rightarrow> DLeaf
                                | DNode c l k v r \<Rightarrow>
                                    (if is_left p then DNode c l k v (setColor clBlack r)
                                     else DNode c (setColor clBlack l) k v r));
                     parent = plug1 (set_frame clBlack (set_other sibling p)) node
                 in Some (Done (plug rest (if is_left p then rotateLeft parent else rotateRight parent))))))"

text \<open>After case 2 the parent is red, so case 3, the only one that goes on, is not possible.\<close>

fun fixRemove :: "('k, 'v) dnode \<Rightarrow> ('k, 'v) path \<Rightarrow> ('k, 'v) dnode option" where
  "fixRemove node [] = Some node"
| "fixRemove node (p # rest) =
     (case other_child p of
        DNode clRed l k v r \<Rightarrow>
          (let (p', g') = (if is_left p
                           then (set_frame clRed (set_other l p), LeftOf clBlack k v r)
                           else (set_frame clRed (set_other r p), RightOf clBlack l k v))
           in case fixRemove_black node p' (g' # rest) of
                Some (Done t) \<Rightarrow> Some t
              | _ \<Rightarrow> None)
      | _ \<Rightarrow>
          (case fixRemove_black node p rest of
             Some (Done t) \<Rightarrow> Some t
           | Some (Again parent) \<Rightarrow> fixRemove parent rest
           | None \<Rightarrow> None))"

definition removeNodeWithAtMostOneNonLeafChild :: "('k, 'v) dnode \<Rightarrow> ('k, 'v) path \<Rightarrow> ('k, 'v) dnode option" where
  "removeNodeWithAtMostOneNonLeafChild node path =
     (let child = getOneChild node
      in if isRed node then Some (plug path child)
         else if child \<noteq> DLeaf then Some (plug path (setColor clBlack child))
         else fixRemove child path)"

text \<open>A node with two children takes the key and the value of the rightmost node of its left one,
  which is removed in its place.\<close>

definition dremove :: "('k \<Rightarrow> 'k \<Rightarrow> int) \<Rightarrow> 'k \<Rightarrow> ('k, 'v) dnode \<Rightarrow> (bool \<times> ('k, 'v) dnode) option" where
  "dremove cmp key t =
     (case lookupNode cmp key t [] of
        (DLeaf, _) \<Rightarrow> Some (False, t)
      | (DNode c l k v r, path) \<Rightarrow>
          map_option (\<lambda>t'. (True, t'))
            (if l \<noteq> DLeaf \<and> r \<noteq> DLeaf then
               (case rightMost l [] of
                  (DNode bc bl bk bv br, bpath) \<Rightarrow>
                    removeNodeWithAtMostOneNonLeafChild (DNode bc bl bk bv br) (bpath @ LeftOf c bk bv r # path)
                | (DLeaf, _) \<Rightarrow> None)
             else removeNodeWithAtMostOneNonLeafChild (DNode c l k v r) path))"

section \<open>Contents\<close>

fun inorder :: "('k, 'v) dnode \<Rightarrow> ('k \<times> 'v) list" where
  "inorder DLeaf = []"
| "inorder (DNode c l k v r) = inorder l @ (k, v) # inorder r"

fun before :: "('k, 'v) path \<Rightarrow> ('k \<times> 'v) list" where
  "before [] = []"
| "before (LeftOf c k v r # p) = before p"
| "before (RightOf c l k v # p) = before p @ inorder l @ [(k, v)]"

fun after :: "('k, 'v) path \<Rightarrow> ('k \<times> 'v) list" where
  "after [] = []"
| "after (LeftOf c k v r # p) = (k, v) # inorder r @ after p"
| "after (RightOf c l k v # p) = after p"

named_theorems contents \<comment> \<open>the entries of a changed tree\<close>

lemma inorder_plug [contents]: "inorder (plug p t) = before p @ inorder t @ after p"
proof (induction p arbitrary: t)
  case (Cons f p)
  then show ?case by (cases f) auto
qed simp

lemma inorder_setColor [contents]: "inorder (setColor c t) = inorder t"
  by (cases t) auto

lemma inorder_rotateLeft [contents]: "inorder (rotateLeft t) = inorder t"
  by (cases t rule: rotateLeft.cases) auto

lemma inorder_rotateRight [contents]: "inorder (rotateRight t) = inorder t"
  by (cases t rule: rotateRight.cases) auto

lemma inorder_plug1 [contents]: "inorder (plug1 f t) = before [f] @ inorder t @ after [f]"
  by (cases f) auto

lemma before_after_set_frame [contents]:
  "before [set_frame c f] = before [f]" "after [set_frame c f] = after [f]"
  by (cases f; simp)+

lemma before_after_set_other [contents]:
  "inorder t = inorder (other_child f) \<Longrightarrow> before [set_other t f] = before [f]"
  "inorder t = inorder (other_child f) \<Longrightarrow> after [set_other t f] = after [f]"
  by (cases f; simp)+

lemma frames_before_after:
  "before (f # p) = before p @ before [f]" "after (f # p) = after [f] @ after p"
  by (cases f; auto)+

lemma before_append: "before (p @ q) = before q @ before p"
proof (induction p)
  case (Cons f p)
  then show ?case by (cases f) auto
qed simp

lemma after_append: "after (p @ q) = after p @ after q"
proof (induction p)
  case (Cons f p)
  then show ?case by (cases f) auto
qed simp

lemma inorder_fixInsert: "fixInsert node p = Some t \<Longrightarrow> inorder t = before p @ inorder node @ after p"
proof (induction node p rule: fixInsert.induct)
  case (3 node p g rest)
  note split = frames_before_after[of p "g # rest"] frames_before_after[of g rest]
  show ?case
  proof (cases "frame_red p \<and> isRed (other_child g)")
    case True
    then have "inorder t = before rest @ inorder (plug1 (set_frame clRed (set_other (setColor clBlack (other_child g)) g))
                           (plug1 (set_frame clBlack p) node)) @ after rest" using 3 by simp
    then show ?thesis unfolding split by (simp add: contents)
  next
    case False
    show ?thesis
    proof (cases "frame_red p")
      case True
      then show ?thesis using False 3(2) unfolding split by (auto simp: contents Let_def split: if_splits)
    next
      case False
      then show ?thesis using 3(2) unfolding split by (auto simp: contents)
    qed
  qed
qed (auto simp: contents split: if_splits)

lemma inorder_far [contents]:
  "inorder (case t of DLeaf \<Rightarrow> DLeaf | DNode c l k v r \<Rightarrow>
     (if b then DNode c l k v (setColor clBlack r) else DNode c (setColor clBlack l) k v r)) = inorder t"
  by (cases t) (auto simp: contents)

lemma inorder_fixRemove_black:
  assumes "fixRemove_black node p rest = Some s"
  shows "case s of Done t \<Rightarrow> inorder t = before rest @ before [p] @ inorder node @ after [p] @ after rest
      | Again t \<Rightarrow> inorder t = before [p] @ inorder node @ after [p]"
proof -
  from assms obtain l k v r where "other_child p = DNode clBlack l k v r"
    by (auto simp: fixRemove_black_def split: dnode.splits Color.splits)
  then show ?thesis using assms
    by (auto simp: fixRemove_black_def Let_def contents simp del: plug1.simps split: if_splits)
qed

lemma inorder_fixRemove: "fixRemove node p = Some t \<Longrightarrow> inorder t = before p @ inorder node @ after p"
proof (induction node p rule: fixRemove.induct)
  case (2 node p rest)
  show ?case
  proof (cases "isBlack (other_child p)")
    case True
    then have "fixRemove node (p # rest) = (case fixRemove_black node p rest of
             Some (Done t) \<Rightarrow> Some t | Some (Again parent) \<Rightarrow> fixRemove parent rest | None \<Rightarrow> None)"
      by (cases "other_child p" rule: isRed.cases) auto
    with 2(3) consider (fin) "fixRemove_black node p rest = Some (Done t)"
      | (again) s where "fixRemove_black node p rest = Some (Again s)" "fixRemove s rest = Some t"
      by (auto split: option.splits fix_step.splits)
    then show ?thesis
    proof cases
      case fin
      then show ?thesis using inorder_fixRemove_black[of node p rest] by (simp add: frames_before_after[of p rest])
    next
      case again
      then have "inorder t = before rest @ inorder s @ after rest"
        by (cases "other_child p" rule: isRed.cases) (use 2(1,2) True in force)+
      then show ?thesis using again inorder_fixRemove_black[of node p rest] by (simp add: frames_before_after[of p rest])
    qed
  next
    case False
    then obtain l k v r where s: "other_child p = DNode clRed l k v r"
      by (cases "other_child p" rule: isRed.cases) auto
    define p' where "p' = (if is_left p then set_frame clRed (set_other l p) else set_frame clRed (set_other r p))"
    define g' where "g' = (if is_left p then LeftOf clBlack k v r else RightOf clBlack l k v)"
    have "fixRemove_black node p' (g' # rest) = Some (Done t)"
      using 2(3) s by (cases p) (auto simp: p'_def g'_def Let_def split: option.splits fix_step.splits)
    from inorder_fixRemove_black[OF this] show ?thesis using s by (cases p) (auto simp: p'_def g'_def)
  qed
qed simp

section \<open>Balance\<close>

text \<open>\<open>rb n t\<close>: every path of \<open>t\<close> has \<open>n\<close> black nodes and no red node has a red child.\<close>

fun rb :: "nat \<Rightarrow> ('k, 'v) dnode \<Rightarrow> bool" where
  "rb n DLeaf = (n = 0)"
| "rb n (DNode clRed l k v r) = (isBlack l \<and> isBlack r \<and> rb n l \<and> rb n r)"
| "rb n (DNode clBlack l k v r) = (\<exists>m. n = Suc m \<and> rb m l \<and> rb m r)"

text \<open>A tree \<open>rb n\<close> may stand at the end of the path.\<close>

fun ctx :: "nat \<Rightarrow> ('k, 'v) path \<Rightarrow> bool" where
  "ctx n [] = True"
| "ctx n (f # p) = (rb n (other_child f) \<and>
     (if frame_red f then isBlack (other_child f) \<and> p \<noteq> [] \<and> \<not> frame_red (hd p) \<and> ctx n p
      else ctx (Suc n) p))"

definition fits :: "('k, 'v) dnode \<Rightarrow> ('k, 'v) path \<Rightarrow> bool" where
  "fits t p \<longleftrightarrow> isBlack t \<or> (p \<noteq> [] \<and> \<not> frame_red (hd p))"

definition balanced :: "('k, 'v) dnode \<Rightarrow> bool" where
  "balanced t \<longleftrightarrow> isBlack t \<and> (\<exists>n. rb n t)"

lemma isRed_isBlack [simp]: "isRed t \<longleftrightarrow> \<not> isBlack t"
  by (cases t rule: isRed.cases) auto

lemma setColor_simps [simp]:
  "isBlack (setColor clBlack t)"
  by (cases t) auto

lemma rb_plug:
  "rb n t \<Longrightarrow> ctx n p \<Longrightarrow> fits t p \<Longrightarrow> balanced (plug p t)"
proof (induction p arbitrary: n t)
  case Nil
  then show ?case by (auto simp: balanced_def fits_def)
next
  case (Cons f p)
  have o: "rb n (other_child f)" using Cons.prems by simp
  show ?case
  proof (cases "frame_red f")
    case True
    then have "rb n (plug1 f t)" using Cons.prems o by (cases f) (auto simp: fits_def frame_red_def)
    moreover have "ctx n p" "fits (plug1 f t) p" using Cons.prems True by (auto simp: fits_def)
    ultimately show ?thesis using Cons.IH by simp
  next
    case False
    have "rb (Suc n) (plug1 f t)" "isBlack (plug1 f t)"
      using Cons.prems o False by (cases f; cases "frame_color f"; auto simp: frame_red_def)+
    then show ?thesis using Cons.IH[of "Suc n"] Cons.prems False by (auto simp: fits_def)
  qed
qed

lemma rb_blacken: "rb n t \<Longrightarrow> isRed t \<Longrightarrow> rb (Suc n) (setColor clBlack t)"
  by (cases t rule: isRed.cases) auto

text \<open>The tree put back where a parent of color \<open>c\<close> was.\<close>

lemma balanced_colored:
  assumes "rb n l" "rb n r" "isBlack l" "isBlack r"
    and "if c = clRed then p \<noteq> [] \<and> \<not> frame_red (hd p) \<and> ctx n p else ctx (Suc n) p"
  shows "balanced (plug p (DNode c l k v r))"
proof (cases c)
  case clBlack
  then show ?thesis using assms by (intro rb_plug[of "Suc n"]) (auto simp: fits_def)
next
  case clRed
  then show ?thesis using assms by (intro rb_plug[of n]) (auto simp: fits_def)
qed

lemma fixInsert_balanced:
  "rb n node \<Longrightarrow> isRed node \<Longrightarrow> ctx n p \<Longrightarrow> \<exists>t. fixInsert node p = Some t \<and> balanced t"
proof (induction node p arbitrary: n rule: fixInsert.induct)
  case (1 node)
  then have "rb (Suc n) (setColor clBlack node)" by (intro rb_blacken)
  then show ?case by (auto simp: balanced_def)
next
  case (2 node p)
  then have "\<not> frame_red p" by (auto split: if_splits)
  moreover from this have "balanced (plug [p] node)" using 2 by (intro rb_plug[of n]) (auto simp: fits_def)
  ultimately show ?case by simp
next
  case (3 node p g rest)
  show ?case
  proof (cases "frame_red p")
    case False
    then have "balanced (plug (p # g # rest) node)" using 3(2-) by (intro rb_plug[of n]) (auto simp: fits_def)
    then show ?thesis using False by simp
  next
    case red: True
    then have p: "rb n (other_child p)" "isBlack (other_child p)" "\<not> frame_red g"
      and g: "rb n (other_child g)" "ctx (Suc n) rest"
      using 3(4) by auto
    show ?thesis
    proof (cases "isRed (other_child g)")
      case True
      let ?g = "plug1 (set_frame clRed (set_other (setColor clBlack (other_child g)) g)) (plug1 (set_frame clBlack p) node)"
      have "rb (Suc n) (setColor clBlack (other_child g))" by (rule rb_blacken) (use g True in auto)
      then have "rb (Suc n) ?g" "isRed ?g" using p 3(2) by (cases p; cases g; simp)+
      then show ?thesis using 3(1)[of "other_child g", OF _ refl, of "Suc n"] red True g by simp
    next
      case False
      from 3(2,3) obtain a k v b where node: "node = DNode clRed a k v b" "rb n a" "rb n b" "isBlack a" "isBlack b"
        by (cases node rule: isRed.cases) auto
      show ?thesis using red False p g node
        by (cases p; cases g) (auto simp: frame_red_def Let_def fits_def intro!: rb_plug[of "Suc n"])
    qed
  qed
qed

text \<open>Removal: \<open>node\<close> has one black node too few.\<close>

lemma fixRemove_black_balanced:
  assumes node: "rb n node" "isBlack node" and p: "ctx (Suc n) (p # rest)" "isBlack (other_child p)"
  shows "(\<exists>t. fixRemove_black node p rest = Some (Done t) \<and> balanced t) \<or>
    (\<exists>t. \<not> frame_red p \<and> fixRemove_black node p rest = Some (Again t) \<and> rb (Suc n) t \<and> isBlack t \<and> ctx (Suc (Suc n)) rest)"
proof -
  from p obtain sl sk sv sr where s: "other_child p = DNode clBlack sl sk sv sr" "rb n sl" "rb n sr"
    by (cases "other_child p" rule: isRed.cases; cases "frame_color p") (auto simp: frame_red_def)
  define c where "c = frame_color p"
  have c: "if c = clRed then rest \<noteq> [] \<and> \<not> frame_red (hd rest) \<and> ctx (Suc n) rest else ctx (Suc (Suc n)) rest"
    using p by (auto simp: c_def frame_red_def)
  show ?thesis
  proof (cases "isBlack sl \<and> isBlack sr")
    case True
    show ?thesis
    proof (cases c)
      case clRed
      then show ?thesis using True node s c unfolding c_def
        by (cases p) (auto simp: fixRemove_black_def frame_red_def Let_def fits_def intro!: rb_plug[of "Suc n"])
    next
      case clBlack
      then show ?thesis using True node s c unfolding c_def
        by (cases p) (auto simp: fixRemove_black_def frame_red_def Let_def)
    qed
  next
    case False
    have red: "\<exists>a k v b. t = DNode clRed a k v b \<and> rb n a \<and> rb n b" if "rb n t" "\<not> isBlack t" for t :: "('a, 'b) dnode"
      using that by (cases t rule: isRed.cases) auto
    have top: "balanced (plug rest (DNode (if frame_red p then clRed else clBlack) (DNode clBlack a ka va b) kb vb (DNode clBlack d kd vd e)))"
      if "rb n a" "rb n b" "rb n d" "rb n e" for a b d e ka va kb vb kd vd
      using that c by (intro balanced_colored[of "Suc n"]) (auto simp: c_def frame_red_def)
    show ?thesis
    proof (cases "isBlack sr \<and> is_left p \<or> isBlack sl \<and> \<not> is_left p")
      case True
      then show ?thesis using False red[of sl] red[of sr] node s top
        by (cases p) (auto simp: fixRemove_black_def Let_def)
    next
      case near: False
      then show ?thesis using False red[of sl] red[of sr] node s top
        by (cases p) (auto simp: fixRemove_black_def Let_def)
    qed
  qed
qed

lemma fixRemove_balanced:
  "rb n node \<Longrightarrow> isBlack node \<Longrightarrow> ctx (Suc n) p \<Longrightarrow> \<exists>t. fixRemove node p = Some t \<and> balanced t"
proof (induction node p arbitrary: n rule: fixRemove.induct)
  case (1 node)
  then show ?case by (auto simp: balanced_def)
next
  case (2 node p rest)
  show ?case
  proof (cases "isBlack (other_child p)")
    case True
    then have eq: "fixRemove node (p # rest) = (case fixRemove_black node p rest of
             Some (Done t) \<Rightarrow> Some t | Some (Again parent) \<Rightarrow> fixRemove parent rest | None \<Rightarrow> None)"
      by (cases "other_child p" rule: isRed.cases) auto
    have IH: "fixRemove_black node p rest = Some (Again t) \<Longrightarrow> rb (Suc n) t \<Longrightarrow> isBlack t \<Longrightarrow> ctx (Suc (Suc n)) rest \<Longrightarrow>
        \<exists>t'. fixRemove t rest = Some t' \<and> balanced t'" for t
      by (cases "other_child p" rule: isRed.cases) (use 2(1,2) True in force)+
    from fixRemove_black_balanced[OF 2(3,4,5) True] IH show ?thesis unfolding eq by auto
  next
    case False
    then obtain l k v r where s: "other_child p = DNode clRed l k v r" "isBlack l" "isBlack r" "rb (Suc n) l" "rb (Suc n) r"
      using 2(5) by (cases "other_child p" rule: isRed.cases) auto
    have nr: "frame_color p = clBlack" "ctx (Suc (Suc n)) rest" using 2(5) False by (cases "frame_color p"; auto simp: frame_red_def)+
    define p' where "p' = (if is_left p then set_frame clRed (set_other l p) else set_frame clRed (set_other r p))"
    define g' where "g' = (if is_left p then LeftOf clBlack k v r else RightOf clBlack l k v)"
    have "ctx (Suc n) (p' # g' # rest)" "isBlack (other_child p')" "frame_red p'"
      using s nr by (cases p; auto simp: p'_def g'_def frame_red_def)+
    from fixRemove_black_balanced[OF 2(3,4) this(1,2)] this(3) s(1) show ?thesis
      by (auto simp: p'_def g'_def)
  qed
qed

section \<open>Looking a key up\<close>

lemma lookupNode_plug: "lookupNode cmp key t p = (t', p') \<Longrightarrow> plug p' t' = plug p t"
  by (induction cmp key t p rule: lookupNode.induct) (auto simp: Let_def split: if_splits)

lemma lookupNode_found: "lookupNode cmp key t p = (DNode c l k v r, p') \<Longrightarrow> cmp key k = 0"
  by (induction cmp key t p rule: lookupNode.induct) (auto simp: Let_def split: if_splits)

text \<open>Going down to a child keeps the position well formed.\<close>

lemma ctx_down:
  assumes "rb n (DNode c l k v r)" "ctx n p" "fits (DNode c l k v r) p"
  shows "\<exists>m. rb m l \<and> rb m r \<and> ctx m (LeftOf c k' v' r # p) \<and> ctx m (RightOf c l k' v' # p) \<and>
    fits l (LeftOf c k' v' r # p) \<and> fits r (RightOf c l k' v' # p)"
  using assms by (cases c) (auto simp: fits_def frame_red_def)

lemma lookupNode_ctx:
  "lookupNode cmp key t p = (t', p') \<Longrightarrow> rb n t \<Longrightarrow> ctx n p \<Longrightarrow> fits t p \<Longrightarrow>
   \<exists>m. rb m t' \<and> ctx m p' \<and> fits t' p'"
proof (induction cmp key t p arbitrary: n rule: lookupNode.induct)
  case (2 cmp key c l k v r path)
  from ctx_down[OF 2(4,5,6), of k v] show ?case
    using 2(1)[OF refl] 2(2)[OF refl] 2(3-6) by (auto simp: Let_def split: if_splits)
qed auto






section \<open>The tree as a finite map\<close>

definition keys_of :: "('k \<times> 'v) list \<Rightarrow> 'k set" where
  "keys_of xs = fst ` set xs"

lemma keys_of_simps [simp]:
  "keys_of [] = {}" "keys_of ((k, v) # xs) = insert k (keys_of xs)" "keys_of (xs @ ys) = keys_of xs \<union> keys_of ys"
  by (auto simp: keys_of_def)

lemma map_of_none: "k \<notin> keys_of xs \<Longrightarrow> map_of xs k = None"
  by (auto simp: keys_of_def map_of_eq_None_iff)

lemma map_of_middle: "k \<notin> keys_of xs \<Longrightarrow> k \<notin> keys_of ys \<Longrightarrow> map_of (xs @ (k, v) # ys) = (map_of (xs @ ys))(k \<mapsto> v)"
  by (rule ext) (auto simp: map_add_def map_of_none split: option.splits)

lemma map_of_without: "k \<notin> keys_of xs \<Longrightarrow> k \<notin> keys_of ys \<Longrightarrow> map_of (xs @ ys) = (map_of (xs @ (k, v) # ys))(k := None)"
  by (rule ext) (auto simp: map_add_def map_of_none split: option.splits)

definition sorted_keys :: "('k \<Rightarrow> 'k \<Rightarrow> int) \<Rightarrow> ('k \<times> 'v) list \<Rightarrow> bool" where
  "sorted_keys cmp xs \<longleftrightarrow> sorted_wrt (\<lambda>x y. cmp (fst x) (fst y) < 0) xs"

lemma sorted_keys_middle: "sorted_keys cmp (xs @ (k, v) # ys) \<longleftrightarrow>
    sorted_keys cmp (xs @ ys) \<and> (\<forall>a\<in>keys_of xs. cmp a k < 0) \<and> (\<forall>b\<in>keys_of ys. cmp k b < 0)"
  by (auto simp: sorted_keys_def sorted_wrt_append keys_of_def)

text \<open>A dictionary's tree: sorted by the order of its keys and balanced.\<close>

definition dict_ok :: "('k \<Rightarrow> 'k \<Rightarrow> int) \<Rightarrow> ('k, 'v) dnode \<Rightarrow> bool" where
  "dict_ok cmp t \<longleftrightarrow> sorted_keys cmp (inorder t) \<and> balanced t"

definition dict_map :: "('k, 'v) dnode \<Rightarrow> 'k \<Rightarrow> 'v option" where
  "dict_map t = map_of (inorder t)"

context feature_order
begin

lemma not_below: "\<forall>a\<in>A. cmp a k < 0 \<Longrightarrow> k \<notin> A"
  by auto

lemma not_above: "\<forall>a\<in>A. cmp k a < 0 \<Longrightarrow> k \<notin> A"
  by auto

lemma sorted_keys_middle_notin:
  "sorted_keys cmp (xs @ (k, v) # ys) \<Longrightarrow> k \<notin> keys_of xs \<and> k \<notin> keys_of ys"
  unfolding sorted_keys_middle by (blast dest: not_below not_above)

lemma lookupNode_between:
  assumes "lookupNode cmp key t p = (t', p')" "sorted_keys cmp (before p @ inorder t @ after p)"
    and "\<forall>a\<in>keys_of (before p). cmp a key < 0" "\<forall>b\<in>keys_of (after p). cmp key b < 0"
  shows "(\<forall>a\<in>keys_of (before p'). cmp a key < 0) \<and> (\<forall>b\<in>keys_of (after p'). cmp key b < 0)"
  using assms
proof (induction cmp\<equiv>cmp key t p rule: lookupNode.induct)
  case (2 key c l k v r path)
  have s: "\<forall>a\<in>keys_of (before path @ inorder l). cmp a k < 0" "\<forall>b\<in>keys_of (inorder r @ after path). cmp k b < 0"
    using 2(4) sorted_keys_middle[of cmp "before path @ inorder l" k v "inorder r @ after path"] by simp_all
  consider "cmp key k = 0" | "cmp key k < 0" | "cmp key k > 0" by linarith
  then show ?case
  proof cases
    case 1
    then show ?thesis using 2(3,5,6) by simp
  next
    case less: 2
    then have "\<forall>b\<in>keys_of (inorder r). cmp key b < 0" using s(2) cmp_trans[of key k] by simp
    then show ?thesis using less 2(1)[OF refl] 2(3-6) by auto
  next
    case 3
    then have "cmp k key < 0" using cmp_anti by simp
    moreover from this have "\<forall>b\<in>keys_of (inorder l). cmp b key < 0" using s(1) cmp_trans[of _ k key] by simp
    ultimately show ?thesis using 3 2(2)[OF refl] 2(3-6) by auto
  qed
qed auto

lemma lookupNode_root:
  assumes "lookupNode cmp key t [] = (t', p')" "dict_ok cmp t"
  shows "inorder t = before p' @ inorder t' @ after p'"
    and "key \<notin> keys_of (before p')" "key \<notin> keys_of (after p')"
    and "\<forall>a\<in>keys_of (before p'). cmp a key < 0" "\<forall>b\<in>keys_of (after p'). cmp key b < 0"
    and "\<exists>m. rb m t' \<and> ctx m p' \<and> fits t' p'"
proof -
  show "inorder t = before p' @ inorder t' @ after p'"
    using lookupNode_plug[OF assms(1)] inorder_plug[of p' t'] by simp
  from lookupNode_between[OF assms(1)] assms(2)
  show b: "\<forall>a\<in>keys_of (before p'). cmp a key < 0" and a: "\<forall>b\<in>keys_of (after p'). cmp key b < 0"
    by (simp_all add: dict_ok_def)
  then show "key \<notin> keys_of (before p')" "key \<notin> keys_of (after p')" by auto
  from assms(2) obtain n where "rb n t" "isBlack t" by (auto simp: dict_ok_def balanced_def)
  then show "\<exists>m. rb m t' \<and> ctx m p' \<and> fits t' p'"
    using lookupNode_ctx[OF assms(1)] by (simp add: fits_def)
qed

lemma dlookup_map: "dict_ok cmp t \<Longrightarrow> dlookup cmp key t = dict_map t key"
proof -
  assume ok: "dict_ok cmp t"
  obtain t' p' where l: "lookupNode cmp key t [] = (t', p')" by (cases "lookupNode cmp key t []")
  note r = lookupNode_root[OF l ok]
  show ?thesis
  proof (cases t')
    case DLeaf
    then show ?thesis using l r(1-3) by (simp add: dict_map_def map_add_def map_of_none)
  next
    case (DNode c lt k v rt)
    then have k: "k = key" using lookupNode_found[of cmp key t "[]"] l cmp_eq[of key k] by simp
    have "sorted_keys cmp ((before p' @ inorder lt) @ (k, v) # inorder rt @ after p')"
      using ok r(1) DNode by (simp add: dict_ok_def)
    from sorted_keys_middle_notin[OF this]
    have "key \<notin> keys_of (before p' @ inorder lt)" "key \<notin> keys_of (inorder rt @ after p')" using k by simp_all
    from map_of_middle[OF this] show ?thesis using l r(1) DNode k by (simp add: dict_map_def)
  qed
qed

lemma lookupOrCreate_map:
  assumes "dict_ok cmp t"
  shows "\<exists>t'. lookupOrCreate cmp x key t = Some (key \<in> dom (dict_map t), t') \<and> dict_ok cmp t' \<and>
    dict_map t' = (if key \<in> dom (dict_map t) then dict_map t else (dict_map t)(key \<mapsto> x))"
proof -
  obtain s p where l: "lookupNode cmp key t [] = (s, p)" by (cases "lookupNode cmp key t []")
  note r = lookupNode_root[OF l assms]
  have m: "key \<in> dom (dict_map t) \<longleftrightarrow> s \<noteq> DLeaf"
    using dlookup_map[OF assms, of key, symmetric] l by (cases s) (auto simp: domIff)
  show ?thesis
  proof (cases s)
    case (DNode c lt k v rt)
    then show ?thesis using assms l m by (simp add: lookupOrCreate_def)
  next
    case DLeaf
    then obtain n where "rb n s" "ctx n p" "n = 0" using r(6) by auto
    then obtain t' where t': "fixInsert (DNode clRed DLeaf key x DLeaf) p = Some t'" "balanced t'"
      using fixInsert_balanced[of 0 "DNode clRed DLeaf key x DLeaf" p] by auto
    have i: "inorder t' = before p @ (key, x) # after p" "inorder t = before p @ after p"
      using inorder_fixInsert[OF t'(1)] r(1) DLeaf by simp_all
    have "sorted_keys cmp (inorder t')" unfolding i(1) sorted_keys_middle
      using assms r(4,5) i(2) by (simp add: dict_ok_def)
    moreover have "dict_map t' = (dict_map t)(key \<mapsto> x)"
      unfolding dict_map_def i by (rule map_of_middle[OF r(2,3)])
    ultimately show ?thesis using t' l m DLeaf by (simp add: lookupOrCreate_def dict_ok_def)
  qed
qed

lemma write_value_map:
  assumes "dict_ok cmp t"
  shows "dict_ok cmp (write_value cmp key x t) \<and>
    (key \<in> dom (dict_map t) \<longrightarrow> dict_map (write_value cmp key x t) = (dict_map t)(key \<mapsto> x))"
proof -
  obtain s p where l: "lookupNode cmp key t [] = (s, p)" by (cases "lookupNode cmp key t []")
  note r = lookupNode_root[OF l assms]
  show ?thesis
  proof (cases s)
    case DLeaf
    then have "key \<notin> dom (dict_map t)" using dlookup_map[OF assms, of key] l by (auto simp: dom_def)
    then show ?thesis using DLeaf l assms by simp
  next
    case (DNode c lt k v rt)
    then have k: "k = key" using lookupNode_found[of cmp key t "[]"] l cmp_eq[of key k] by simp
    let ?t = "plug p (DNode c lt k x rt)"
    have i: "inorder ?t = (before p @ inorder lt) @ (key, x) # inorder rt @ after p"
      "inorder t = (before p @ inorder lt) @ (key, v) # inorder rt @ after p"
      using r(1) DNode k by (simp_all add: inorder_plug)
    have so: "sorted_keys cmp (inorder t)" using assms by (simp add: dict_ok_def)
    then have s1: "sorted_keys cmp (inorder ?t)" unfolding i sorted_keys_middle .
    have n: "key \<notin> keys_of (before p @ inorder lt)" "key \<notin> keys_of (inorder rt @ after p)"
      using sorted_keys_middle_notin[OF s1[unfolded i(1)]] by blast+
    from r(6) DNode obtain m where "rb m s" "ctx m p" "fits s p" by auto
    then have "rb m (DNode c lt k x rt)" "ctx m p" "fits (DNode c lt k x rt) p"
      using DNode by (cases c; simp add: fits_def)+
    then have "balanced ?t" by (rule rb_plug)
    then show ?thesis using s1 l DNode map_of_middle[OF n, of x] map_of_middle[OF n, of v]
      by (simp add: dict_ok_def dict_map_def i)
  qed
qed

end

text \<open>Removal.\<close>

lemma rightMost_append: "rightMost t (p @ q) = (fst (rightMost t p), snd (rightMost t p) @ q)"
proof (induction t arbitrary: p)
  case (DNode c l k v r)
  then show ?case using DNode(2)[of "RightOf c l k v # p"] by simp
qed simp

lemma rightMost_node: "t \<noteq> DLeaf \<Longrightarrow> \<exists>c l k v q. rightMost t [] = (DNode c l k v DLeaf, q) \<and> after q = []"
proof (induction t)
  case (DNode c l k v r)
  show ?case
  proof (cases "r = DLeaf")
    case False
    with DNode(2) obtain c' l' k' v' q where "rightMost r [] = (DNode c' l' k' v' DLeaf, q)" "after q = []" by blast
    then show ?thesis using False rightMost_append[of r "[]" "[RightOf c l k v]"] by (simp add: after_append)
  qed simp
qed simp

lemma rightMost_plug: "rightMost t p = (t', p') \<Longrightarrow> plug p' t' = plug p t"
  by (induction t p rule: rightMost.induct) (auto split: if_splits)

lemma rightMost_ctx:
  "rightMost t p = (t', p') \<Longrightarrow> rb n t \<Longrightarrow> ctx n p \<Longrightarrow> fits t p \<Longrightarrow>
   \<exists>m. rb m t' \<and> ctx m p' \<and> fits t' p'"
proof (induction t p arbitrary: n rule: rightMost.induct)
  case (2 c l k v r path)
  from ctx_down[OF 2(3,4,5), of k v] show ?case using 2(1) 2(2-5) by (auto split: if_splits)
qed auto

lemma rb_leafs: "rb 0 t \<Longrightarrow> isBlack t \<Longrightarrow> t = DLeaf"
  by (cases t rule: isRed.cases) auto

lemma removeNode_correct:
  assumes "rb m (DNode c l k v r)" "ctx m p" "fits (DNode c l k v r) p" "l = DLeaf \<or> r = DLeaf"
  shows "\<exists>t. removeNodeWithAtMostOneNonLeafChild (DNode c l k v r) p = Some t \<and> balanced t \<and>
    inorder t = before p @ inorder l @ inorder r @ after p"
proof -
  let ?child = "getOneChild (DNode c l k v r)"
  have i: "inorder ?child = inorder l @ inorder r" using assms(4) by auto
  show ?thesis
  proof (cases c)
    case clRed
    then have "rb m ?child" "isBlack ?child" using assms(1) by auto
    then have "balanced (plug p ?child)" using assms(2) by (intro rb_plug) (simp_all add: fits_def)
    then show ?thesis using clRed i
      by (simp add: removeNodeWithAtMostOneNonLeafChild_def inorder_plug del: getOneChild.simps)
  next
    case clBlack
    then obtain n where n: "m = Suc n" "rb n l" "rb n r" using assms(1) by auto
    show ?thesis
    proof (cases "?child = DLeaf")
      case True
      then have "l = DLeaf" "r = DLeaf" by (auto split: if_splits)
      moreover from this n have "n = 0" by simp
      ultimately obtain t where "fixRemove DLeaf p = Some t" "balanced t"
        using fixRemove_balanced[of 0 DLeaf p] assms(2) n by auto
      then show ?thesis using clBlack True i inorder_fixRemove[of DLeaf p t]
        by (simp add: removeNodeWithAtMostOneNonLeafChild_def del: getOneChild.simps)
    next
      case False
      have "n = 0" using assms(4) n by auto
      then have "rb 0 ?child" using n by simp
      moreover from this False have "isRed ?child" using rb_leafs unfolding isRed_isBlack by blast
      ultimately have "rb m (setColor clBlack ?child)" using rb_blacken[of 0 ?child] n \<open>n = 0\<close> by simp
      then have "balanced (plug p (setColor clBlack ?child))" using assms(2) by (intro rb_plug) (simp_all add: fits_def)
      then show ?thesis using clBlack False i
        by (simp add: removeNodeWithAtMostOneNonLeafChild_def inorder_plug inorder_setColor del: getOneChild.simps)
    qed
  qed
qed

lemma dremove_found:
  assumes "lookupNode cmp key t [] = (DNode c l k v r, p)" "rb m (DNode c l k v r)" "ctx m p" "fits (DNode c l k v r) p"
  shows "\<exists>t'. dremove cmp key t = Some (True, t') \<and> balanced t' \<and>
    inorder t' = (before p @ inorder l) @ (inorder r @ after p)"
proof (cases "l \<noteq> DLeaf \<and> r \<noteq> DLeaf")
  case False
  then show ?thesis using removeNode_correct[OF assms(2-4)] assms(1) by (auto simp: dremove_def)
next
  case True
  then obtain bc bl bk bv q where b: "rightMost l [] = (DNode bc bl bk bv DLeaf, q)" "after q = []"
    using rightMost_node by blast
  let ?p = "LeftOf c bk bv r # p"
  have at: "rightMost l ?p = (DNode bc bl bk bv DLeaf, q @ ?p)" using rightMost_append[of l "[]" ?p] b by simp
  obtain n where n: "rb n l" "ctx n ?p" "fits l ?p" using ctx_down[OF assms(2-4)] by blast
  from rightMost_ctx[OF at n] obtain m' where "rb m' (DNode bc bl bk bv DLeaf)" "ctx m' (q @ ?p)"
    "fits (DNode bc bl bk bv DLeaf) (q @ ?p)" by blast
  from removeNode_correct[OF this] obtain t' where
    t': "removeNodeWithAtMostOneNonLeafChild (DNode bc bl bk bv DLeaf) (q @ ?p) = Some t'" "balanced t'"
      "inorder t' = before (q @ ?p) @ inorder bl @ after (q @ ?p)" by auto
  have "inorder l = before q @ inorder bl @ [(bk, bv)]"
    using rightMost_plug[OF b(1)] inorder_plug[of q "DNode bc bl bk bv DLeaf"] b(2) by simp
  then have "inorder t' = (before p @ inorder l) @ (inorder r @ after p)"
    using t'(3) b(2) by (simp add: before_append after_append)
  then show ?thesis using t' assms(1) True b(1) by (simp add: dremove_def)
qed

context feature_order
begin

lemma dremove_map:
  assumes "dict_ok cmp t"
  shows "\<exists>t'. dremove cmp key t = Some (key \<in> dom (dict_map t), t') \<and> dict_ok cmp t' \<and>
    dict_map t' = (dict_map t)(key := None)"
proof -
  obtain s p where l: "lookupNode cmp key t [] = (s, p)" by (cases "lookupNode cmp key t []")
  note r = lookupNode_root[OF l assms]
  show ?thesis
  proof (cases s)
    case DLeaf
    then have "dict_map t key = None" using dlookup_map[OF assms, of key] l by simp
    moreover from this have "(dict_map t)(key := None) = dict_map t" by auto
    ultimately show ?thesis using DLeaf l assms by (simp add: dremove_def domIff)
  next
    case (DNode c lt k v rt)
    then have k: "k = key" using lookupNode_found[of cmp key t "[]"] l cmp_eq[of key k] by simp
    have "dict_map t key = Some v" using dlookup_map[OF assms, of key] l DNode by simp
    then have d: "key \<in> dom (dict_map t)" by blast
    have i: "inorder t = (before p @ inorder lt) @ (key, v) # (inorder rt @ after p)" using r(1) DNode k by simp
    have so: "sorted_keys cmp ((before p @ inorder lt) @ (key, v) # (inorder rt @ after p))"
      using assms i by (simp add: dict_ok_def)
    from r(6) DNode obtain m where "rb m (DNode c lt k v rt)" "ctx m p" "fits (DNode c lt k v rt) p" by auto
    from dremove_found[OF l[unfolded DNode] this] obtain t' where
      t': "dremove cmp key t = Some (True, t')" "balanced t'" "inorder t' = (before p @ inorder lt) @ (inorder rt @ after p)"
      by blast
    have "sorted_keys cmp (inorder t')" using so unfolding sorted_keys_middle t'(3) by blast
    moreover have "dict_map t' = (dict_map t)(key := None)"
      unfolding dict_map_def t'(3) i using sorted_keys_middle_notin[OF so] by (intro map_of_without) simp_all
    ultimately show ?thesis using t' d by (simp add: dict_ok_def)
  qed
qed

end

section \<open>Walks, copies and the dictionary type\<close>

datatype WalkOrder = wkPreOrder | wkInOrder | wkPostOrder

text \<open>The callback is given the node and threads a state.\<close>

fun walkInternal :: "WalkOrder \<Rightarrow> bool \<Rightarrow> (('k, 'v) dnode \<Rightarrow> 's \<Rightarrow> 's) \<Rightarrow> ('k, 'v) dnode \<Rightarrow> 's \<Rightarrow> 's" where
  "walkInternal order reversed f DLeaf s = s"
| "walkInternal order reversed f (DNode c l k v r) s =
     (let s = (if order = wkPreOrder then f (DNode c l k v r) s else s);
          s = walkInternal order reversed f (if reversed then r else l) s;
          s = (if order = wkInOrder then f (DNode c l k v r) s else s);
          s = walkInternal order reversed f (if reversed then l else r) s
      in if order = wkPostOrder then f (DNode c l k v r) s else s)"

definition foldRight :: "'s \<Rightarrow> ('k \<Rightarrow> 'v \<Rightarrow> 's \<Rightarrow> 's) \<Rightarrow> ('k, 'v) dnode \<Rightarrow> 's" where
  "foldRight init f t =
     walkInternal wkInOrder True (\<lambda>n s. case n of DNode _ _ k v _ \<Rightarrow> f k v s | DLeaf \<Rightarrow> s) t init"

text \<open>The nodes that are freed, the last one first, and the new root.\<close>

definition removeAll_nodes :: "('k, 'v) dnode \<Rightarrow> ('k, 'v) dnode list \<times> ('k, 'v) dnode" where
  "removeAll_nodes t =
     (if t = DLeaf then ([], t)
      else
        (let freed = walkInternal wkPostOrder False
               (\<lambda>n freed. case n of
                    DNode _ l _ _ r \<Rightarrow>
                      (let freed = (if l \<noteq> DLeaf then l # freed else freed)
                       in if r \<noteq> DLeaf then r # freed else freed)
                  | DLeaf \<Rightarrow> freed) t []
         in (t # freed, DLeaf)))"

text \<open>The copy has the shape and the colors of the source, whatever the keys become.\<close>

fun replicate_nodes :: "('k \<Rightarrow> 'k2) \<Rightarrow> ('v \<Rightarrow> 'v2) \<Rightarrow> ('k, 'v) dnode \<Rightarrow> ('k2, 'v2) dnode" where
  "replicate_nodes copy_key copy_value DLeaf = DLeaf"
| "replicate_nodes copy_key copy_value (DNode c l k v r) =
     DNode c (replicate_nodes copy_key copy_value l) (copy_key k) (copy_value v) (replicate_nodes copy_key copy_value r)"

text \<open>
  Features as arguments: a node that is not a feature yet (an unbound variable suspends the thread, any
  other value is a type error, and an optional name is turned into a name with the identifier that the
  machine generates, which is given).
\<close>

datatype feature_arg = IsFeature feature | Unbound nat | OptionalName UUID | NotAFeature

datatype ('v) dict_error =
    Wait nat                \<comment> \<open>suspended on a variable\<close>
  | TypeError               \<comment> \<open>feature expected\<close>
  | GlobalState             \<comment> \<open>\<open>globalState(dictionary)\<close>\<close>
  | KernelDict feature      \<comment> \<open>kernel error \<open>dict\<close>, the feature\<close>
  | AssertionFailed

fun requireFeature :: "feature_arg \<Rightarrow> 'v dict_error + feature" where
  "requireFeature (IsFeature f) = Inr f"
| "requireFeature (Unbound x) = Inl (Wait x)"
| "requireFeature (OptionalName u) = Inr (FGlobalName u)"
| "requireFeature NotAFeature = Inl TypeError"

record 'v dictionary =
  homed :: bool              \<comment> \<open>\<open>isHomedInCurrentSpace\<close>\<close>
  dict_root :: "(feature, 'v) dnode"

definition dictIsEmpty :: "'v dictionary \<Rightarrow> bool" where
  "dictIsEmpty d = (dict_root d = DLeaf)"

definition dict_lookupFeature :: "'v dictionary \<Rightarrow> feature_arg \<Rightarrow> 'v dict_error + 'v option" where
  "dict_lookupFeature d feat =
     and_then (requireFeature feat) (\<lambda>f. Inr (dlookup compareFeatures f (dict_root d)))"

definition dictMember :: "'v dictionary \<Rightarrow> feature_arg \<Rightarrow> 'v dict_error + bool" where
  "dictMember d feat =
     and_then (requireFeature feat) (\<lambda>f. Inr (dlookup compareFeatures f (dict_root d) \<noteq> None))"

definition dictGet :: "'v dictionary \<Rightarrow> feature_arg \<Rightarrow> 'v dict_error + 'v" where
  "dictGet d feat =
     and_then (requireFeature feat) (\<lambda>f.
       case dlookup compareFeatures f (dict_root d) of
         Some v \<Rightarrow> Inr v
       | None \<Rightarrow> Inl (KernelDict f))"

definition dictCondGet :: "'v dictionary \<Rightarrow> feature_arg \<Rightarrow> 'v \<Rightarrow> 'v dict_error + 'v" where
  "dictCondGet d feat defaultValue =
     and_then (requireFeature feat) (\<lambda>f.
       case dlookup compareFeatures f (dict_root d) of
         Some v \<Rightarrow> Inr v
       | None \<Rightarrow> Inr defaultValue)"

text \<open>\<open>unset\<close> is the value of a node that \<open>newNode\<close> makes.\<close>

definition dictPut :: "'v \<Rightarrow> 'v dictionary \<Rightarrow> feature_arg \<Rightarrow> 'v \<Rightarrow> 'v dict_error + 'v dictionary" where
  "dictPut unset d feat newValue =
     (if \<not> homed d then Inl GlobalState
      else and_then (requireFeature feat) (\<lambda>f.
        case lookupOrCreate compareFeatures unset f (dict_root d) of
          None \<Rightarrow> Inl AssertionFailed
        | Some (_, t) \<Rightarrow> Inr (d\<lparr>dict_root := write_value compareFeatures f newValue t\<rparr>)))"

definition dictExchange :: "'v dictionary \<Rightarrow> feature_arg \<Rightarrow> 'v \<Rightarrow> 'v dict_error + ('v \<times> 'v dictionary)" where
  "dictExchange d feat newValue =
     (if \<not> homed d then Inl GlobalState
      else and_then (requireFeature feat) (\<lambda>f.
        case dlookup compareFeatures f (dict_root d) of
          Some oldValue \<Rightarrow> Inr (oldValue, d\<lparr>dict_root := write_value compareFeatures f newValue (dict_root d)\<rparr>)
        | None \<Rightarrow> Inl (KernelDict f)))"

definition dictCondExchange :: "'v \<Rightarrow> 'v dictionary \<Rightarrow> feature_arg \<Rightarrow> 'v \<Rightarrow> 'v \<Rightarrow>
    'v dict_error + ('v \<times> 'v dictionary)" where
  "dictCondExchange unset d feat defaultValue newValue =
     (if \<not> homed d then Inl GlobalState
      else and_then (requireFeature feat) (\<lambda>f.
        case lookupOrCreate compareFeatures unset f (dict_root d) of
          None \<Rightarrow> Inl AssertionFailed
        | Some (found, t) \<Rightarrow>
            (let oldValue = (if found then the (dlookup compareFeatures f t) else defaultValue)
             in Inr (oldValue, d\<lparr>dict_root := write_value compareFeatures f newValue t\<rparr>))))"

definition dictRemove :: "'v dictionary \<Rightarrow> feature_arg \<Rightarrow> 'v dict_error + 'v dictionary" where
  "dictRemove d feat =
     (if \<not> homed d then Inl GlobalState
      else and_then (requireFeature feat) (\<lambda>f.
        case dremove compareFeatures f (dict_root d) of
          None \<Rightarrow> Inl AssertionFailed
        | Some (_, t) \<Rightarrow> Inr (d\<lparr>dict_root := t\<rparr>)))"

definition dictRemoveAll :: "'v dictionary \<Rightarrow> 'v dict_error + 'v dictionary" where
  "dictRemoveAll d =
     (if \<not> homed d then Inl GlobalState else Inr (d\<lparr>dict_root := snd (removeAll_nodes (dict_root d))\<rparr>))"

definition dictKeys :: "'v dictionary \<Rightarrow> feature list" where
  "dictKeys d = foldRight [] (\<lambda>key value previous. key # previous) (dict_root d)"

definition dictEntries :: "'v dictionary \<Rightarrow> (feature \<times> 'v) list" where
  "dictEntries d = foldRight [] (\<lambda>key value previous. (key, value) # previous) (dict_root d)"

definition dictItems :: "'v dictionary \<Rightarrow> 'v list" where
  "dictItems d = foldRight [] (\<lambda>key value previous. value # previous) (dict_root d)"

text \<open>The clone is homed in the current space.\<close>

definition dictClone :: "'v dictionary \<Rightarrow> 'v dictionary" where
  "dictClone d = \<lparr>homed = True, dict_root = replicate_nodes (\<lambda>k. k) (\<lambda>v. v) (dict_root d)\<rparr>"

section \<open>The operations on the map\<close>

declare dlookup.simps [simp del] write_value.simps [simp del]

lemma foldRight_foldr: "foldRight init f t = foldr (\<lambda>(k, v). f k v) (inorder t) init"
proof -
  have "walkInternal wkInOrder True (\<lambda>n s. case n of DNode _ _ k v _ \<Rightarrow> f k v s | DLeaf \<Rightarrow> s) t s =
      foldr (\<lambda>(k, v). f k v) (inorder t) s" for s
    by (induction t arbitrary: s) simp_all
  then show ?thesis by (simp add: foldRight_def)
qed

lemma dictKeys_eq: "dictKeys d = map fst (inorder (dict_root d))"
proof -
  have "foldr (\<lambda>(k, v). (#) k) xs [] = map fst xs" for xs :: "(feature \<times> 'a) list" by (induction xs) auto
  then show ?thesis by (simp add: dictKeys_def foldRight_foldr)
qed

lemma dictItems_eq: "dictItems d = map snd (inorder (dict_root d))"
proof -
  have "foldr (\<lambda>(k, v). (#) v) xs [] = map snd xs" for xs :: "(feature \<times> 'a) list" by (induction xs) auto
  then show ?thesis by (simp add: dictItems_def foldRight_foldr)
qed

lemma dictEntries_eq: "dictEntries d = inorder (dict_root d)"
proof -
  have "foldr (\<lambda>(k, v). (#) (k, v)) xs [] = xs" for xs :: "(feature \<times> 'a) list" by (induction xs) auto
  then show ?thesis by (simp add: dictEntries_def foldRight_foldr)
qed

lemma replicate_id: "replicate_nodes (\<lambda>k. k) (\<lambda>v. v) t = t"
  by (induction t) auto

text \<open>The entries of a sorted list are determined by its map.\<close>

lemma sorted_keys_linorder: "sorted_keys compareFeatures xs \<longleftrightarrow> sorted_wrt (<) (map fst xs)"
  by (simp add: sorted_keys_def sorted_wrt_map less_feature_def)

lemma sorted_entries_map:
  assumes "sorted_keys compareFeatures xs"
  shows "map fst xs = sorted_list_of_set (dom (map_of xs))"
    and "xs = map (\<lambda>k. (k, the (map_of xs k))) (sorted_list_of_set (dom (map_of xs)))"
proof -
  have s: "sorted_wrt (<) (map fst xs)" using assms by (simp add: sorted_keys_linorder)
  then have d: "distinct (map fst xs)" "sorted (map fst xs)"
    by (auto simp: strict_sorted_iff)
  then show k: "map fst xs = sorted_list_of_set (dom (map_of xs))"
    by (simp add: dom_map_of_conv_image_fst flip: set_map sorted_list_of_set.idem_if_sorted_distinct)
  have "(\<lambda>k. (k, the (map_of xs k))) (fst x) = x" if "x \<in> set xs" for x
  proof -
    have "map_of xs (fst x) = Some (snd x)" by (rule map_of_is_SomeI[OF d(1)]) (simp add: that)
    then show ?thesis by (simp only: option.sel prod.collapse)
  qed
  then have "map (\<lambda>k. (k, the (map_of xs k))) (map fst xs) = xs"
    by (simp add: map_idI)
  then show "xs = map (\<lambda>k. (k, the (map_of xs k))) (sorted_list_of_set (dom (map_of xs)))"
    unfolding k by simp
qed

text \<open>A dictionary as its users see it: requests and answers, over a tree and over a finite map.\<close>

datatype 'v request =
    Put feature_arg 'v | Get feature_arg | CondGet feature_arg 'v | Member feature_arg
  | Exchange feature_arg 'v | CondExchange feature_arg 'v 'v
  | Remove feature_arg | RemoveAll | IsEmpty | Keys | Entries | Items

datatype 'v answer = Nothing | Value 'v | Answer bool | Features "feature list" | Pairs "(feature \<times> 'v) list" | Values "'v list"

fun dict_request :: "'v \<Rightarrow> 'v request \<Rightarrow> 'v dictionary \<Rightarrow> 'v dict_error + 'v answer \<times> 'v dictionary" where
  "dict_request unset (Put f v) d = and_then (dictPut unset d f v) (\<lambda>d. Inr (Nothing, d))"
| "dict_request unset (Get f) d = and_then (dictGet d f) (\<lambda>v. Inr (Value v, d))"
| "dict_request unset (CondGet f v) d = and_then (dictCondGet d f v) (\<lambda>v. Inr (Value v, d))"
| "dict_request unset (Member f) d = and_then (dictMember d f) (\<lambda>b. Inr (Answer b, d))"
| "dict_request unset (Exchange f v) d = and_then (dictExchange d f v) (\<lambda>(v, d). Inr (Value v, d))"
| "dict_request unset (CondExchange f dv v) d = and_then (dictCondExchange unset d f dv v) (\<lambda>(v, d). Inr (Value v, d))"
| "dict_request unset (Remove f) d = and_then (dictRemove d f) (\<lambda>d. Inr (Nothing, d))"
| "dict_request unset RemoveAll d = and_then (dictRemoveAll d) (\<lambda>d. Inr (Nothing, d))"
| "dict_request unset IsEmpty d = Inr (Answer (dictIsEmpty d), d)"
| "dict_request unset Keys d = Inr (Features (dictKeys d), d)"
| "dict_request unset Entries d = Inr (Pairs (dictEntries d), d)"
| "dict_request unset Items d = Inr (Values (dictItems d), d)"

fun map_request :: "bool \<Rightarrow> 'v request \<Rightarrow> (feature \<rightharpoonup> 'v) \<Rightarrow> 'v dict_error + 'v answer \<times> (feature \<rightharpoonup> 'v)" where
  "map_request h (Put f v) m = (if \<not> h then Inl GlobalState else
     and_then (requireFeature f) (\<lambda>k. Inr (Nothing, m(k \<mapsto> v))))"
| "map_request h (Get f) m = and_then (requireFeature f) (\<lambda>k.
     case m k of None \<Rightarrow> Inl (KernelDict k) | Some v \<Rightarrow> Inr (Value v, m))"
| "map_request h (CondGet f dv) m = and_then (requireFeature f) (\<lambda>k. Inr (Value (case m k of None \<Rightarrow> dv | Some v \<Rightarrow> v), m))"
| "map_request h (Member f) m = and_then (requireFeature f) (\<lambda>k. Inr (Answer (k \<in> dom m), m))"
| "map_request h (Exchange f v) m = (if \<not> h then Inl GlobalState else and_then (requireFeature f) (\<lambda>k.
     case m k of None \<Rightarrow> Inl (KernelDict k) | Some old \<Rightarrow> Inr (Value old, m(k \<mapsto> v))))"
| "map_request h (CondExchange f dv v) m = (if \<not> h then Inl GlobalState else and_then (requireFeature f) (\<lambda>k.
     Inr (Value (case m k of None \<Rightarrow> dv | Some old \<Rightarrow> old), m(k \<mapsto> v))))"
| "map_request h (Remove f) m = (if \<not> h then Inl GlobalState else
     and_then (requireFeature f) (\<lambda>k. Inr (Nothing, m(k := None))))"
| "map_request h RemoveAll m = (if \<not> h then Inl GlobalState else Inr (Nothing, Map.empty))"
| "map_request h IsEmpty m = Inr (Answer (m = Map.empty), m)"
| "map_request h Keys m = Inr (Features (sorted_list_of_set (dom m)), m)"
| "map_request h Entries m = Inr (Pairs (map (\<lambda>k. (k, the (m k))) (sorted_list_of_set (dom m))), m)"
| "map_request h Items m = Inr (Values (map (\<lambda>k. the (m k)) (sorted_list_of_set (dom m))), m)"

text \<open>A request that raises leaves the dictionary as it was.\<close>

fun dict_session :: "'v \<Rightarrow> 'v request list \<Rightarrow> 'v dictionary \<Rightarrow> ('v dict_error + 'v answer) list \<times> 'v dictionary" where
  "dict_session unset [] d = ([], d)"
| "dict_session unset (q # qs) d =
     (case dict_request unset q d of
        Inl e \<Rightarrow> apfst ((#) (Inl e)) (dict_session unset qs d)
      | Inr (a, d') \<Rightarrow> apfst ((#) (Inr a)) (dict_session unset qs d'))"

fun map_session :: "bool \<Rightarrow> 'v request list \<Rightarrow> (feature \<rightharpoonup> 'v) \<Rightarrow> ('v dict_error + 'v answer) list \<times> (feature \<rightharpoonup> 'v)" where
  "map_session h [] m = ([], m)"
| "map_session h (q # qs) m =
     (case map_request h q m of
        Inl e \<Rightarrow> apfst ((#) (Inl e)) (map_session h qs m)
      | Inr (a, m') \<Rightarrow> apfst ((#) (Inr a)) (map_session h qs m'))"

abbreviation dict_abs :: "'v dictionary \<Rightarrow> feature \<rightharpoonup> 'v" where
  "dict_abs d \<equiv> dict_map (dict_root d)"

abbreviation dict_inv :: "'v dictionary \<Rightarrow> bool" where
  "dict_inv d \<equiv> dict_ok compareFeatures (dict_root d)"

lemma dict_ok_DLeaf [simp]: "dict_ok cmp DLeaf" "dict_map DLeaf = Map.empty"
  by (auto simp: dict_ok_def sorted_keys_def balanced_def dict_map_def)

lemma create_write:
  assumes "dict_inv d"
  obtains t where "lookupOrCreate compareFeatures x f (dict_root d) = Some (f \<in> dom (dict_abs d), t)"
    and "dict_ok compareFeatures (write_value compareFeatures f v t)"
    and "dict_map (write_value compareFeatures f v t) = (dict_abs d)(f \<mapsto> v)"
    and "f \<in> dom (dict_abs d) \<Longrightarrow> dlookup compareFeatures f t = dict_abs d f"
proof -
  from features.lookupOrCreate_map[OF assms, of x f] obtain t where
    t: "lookupOrCreate compareFeatures x f (dict_root d) = Some (f \<in> dom (dict_abs d), t)" "dict_ok compareFeatures t"
      "dict_map t = (if f \<in> dom (dict_abs d) then dict_abs d else (dict_abs d)(f \<mapsto> x))" by blast
  have "f \<in> dom (dict_map t)" unfolding t(3) by auto
  then have w: "dict_map (write_value compareFeatures f v t) = (dict_map t)(f \<mapsto> v)"
    using features.write_value_map[OF t(2)] by blast
  show thesis
    by (rule that[OF t(1)]) (use features.write_value_map[OF t(2)] w t(3) features.dlookup_map[OF t(2)] in auto)
qed

lemma dict_map_empty: "dict_root d = DLeaf \<longleftrightarrow> dict_abs d = Map.empty"
  by (cases "dict_root d") (auto simp: dict_map_def)

lemma dict_lists:
  assumes "dict_inv d"
  shows "dictKeys d = sorted_list_of_set (dom (dict_abs d))"
    and "dictEntries d = map (\<lambda>k. (k, the (dict_abs d k))) (sorted_list_of_set (dom (dict_abs d)))"
    and "dictItems d = map (\<lambda>k. the (dict_abs d k)) (sorted_list_of_set (dom (dict_abs d)))"
proof -
  have s: "sorted_keys compareFeatures (inorder (dict_root d))" using assms by (simp add: dict_ok_def)
  show "dictKeys d = sorted_list_of_set (dom (dict_abs d))"
    using sorted_entries_map(1)[OF s] by (simp add: dictKeys_eq dict_map_def)
  show e: "dictEntries d = map (\<lambda>k. (k, the (dict_abs d k))) (sorted_list_of_set (dom (dict_abs d)))"
    using sorted_entries_map(2)[OF s] by (simp add: dictEntries_eq dict_map_def)
  have "dictItems d = map snd (dictEntries d)" by (simp add: dictItems_eq dictEntries_eq)
  then show "dictItems d = map (\<lambda>k. the (dict_abs d k)) (sorted_list_of_set (dom (dict_abs d)))"
    unfolding e by simp
qed

definition refines :: "bool \<Rightarrow> 'v dict_error + 'v answer \<times> 'v dictionary \<Rightarrow> 'v dict_error + 'v answer \<times> (feature \<rightharpoonup> 'v) \<Rightarrow> bool" where
  "refines h r s \<longleftrightarrow> (case r of Inl e \<Rightarrow> s = Inl e
     | Inr (a, d) \<Rightarrow> s = Inr (a, dict_abs d) \<and> homed d = h \<and> dict_inv d)"

lemma refines_simps [simp]:
  "refines h (Inl e) s \<longleftrightarrow> s = Inl e"
  "refines h (Inr (a, d)) s \<longleftrightarrow> s = Inr (a, dict_abs d) \<and> homed d = h \<and> dict_inv d"
  by (simp_all add: refines_def)

lemma refines_feature:
  "(\<And>k. refines h (F k) (G k)) \<Longrightarrow> refines h (and_then (requireFeature f) F) (and_then (requireFeature f) G)"
  by (cases f) simp_all

lemma dict_request_refines:
  assumes inv: "dict_inv d"
  shows "refines (homed d) (dict_request unset q d) (map_request (homed d) q (dict_abs d))"
proof (cases q)
  case (Put f v)
  have "refines (homed d) (and_then (case lookupOrCreate compareFeatures unset k (dict_root d) of
        None \<Rightarrow> Inl AssertionFailed | Some (_, t) \<Rightarrow> Inr (d\<lparr>dict_root := write_value compareFeatures k v t\<rparr>)) (\<lambda>d. Inr (Nothing, d)))
      (Inr (Nothing, (dict_abs d)(k \<mapsto> v)))" for k
    by (rule create_write[OF inv, of unset k v]) simp
  then show ?thesis using Put by (cases "homed d") (simp_all add: dictPut_def and_then_assoc refines_feature)
next
  case (Exchange f v)
  have "refines (homed d) (and_then (case dlookup compareFeatures k (dict_root d) of
          Some oldValue \<Rightarrow> Inr (oldValue, d\<lparr>dict_root := write_value compareFeatures k v (dict_root d)\<rparr>)
        | None \<Rightarrow> Inl (KernelDict k)) (\<lambda>(v, d). Inr (Value v, d)))
      (case dict_abs d k of None \<Rightarrow> Inl (KernelDict k) | Some old \<Rightarrow> Inr (Value old, (dict_abs d)(k \<mapsto> v)))" for k
    using features.write_value_map[OF inv, of k v]
    by (auto simp: features.dlookup_map[OF inv] split: option.split)
  then show ?thesis using Exchange by (cases "homed d") (simp_all add: dictExchange_def and_then_assoc refines_feature)
next
  case (CondExchange f dv v)
  have "refines (homed d) (and_then (case lookupOrCreate compareFeatures unset k (dict_root d) of
          None \<Rightarrow> Inl AssertionFailed
        | Some (found, t) \<Rightarrow>
            (let oldValue = (if found then the (dlookup compareFeatures k t) else dv)
             in Inr (oldValue, d\<lparr>dict_root := write_value compareFeatures k v t\<rparr>))) (\<lambda>(v, d). Inr (Value v, d)))
      (Inr (Value (case dict_abs d k of None \<Rightarrow> dv | Some old \<Rightarrow> old), (dict_abs d)(k \<mapsto> v)))" for k
    by (rule create_write[OF inv, of unset k v]) (auto split: option.split)
  then show ?thesis using CondExchange by (cases "homed d") (simp_all add: dictCondExchange_def and_then_assoc refines_feature)
next
  case (Remove f)
  have "refines (homed d) (and_then (case dremove compareFeatures k (dict_root d) of
          None \<Rightarrow> Inl AssertionFailed | Some (_, t) \<Rightarrow> Inr (d\<lparr>dict_root := t\<rparr>)) (\<lambda>d. Inr (Nothing, d)))
      (Inr (Nothing, (dict_abs d)(k := None)))" for k
    using features.dremove_map[OF inv, of k] by auto
  then show ?thesis using Remove by (cases "homed d") (simp_all add: dictRemove_def and_then_assoc refines_feature)
next
  case (Get f)
  then show ?thesis using inv
    by (simp add: dictGet_def and_then_assoc features.dlookup_map)
       (rule refines_feature; simp split: option.split)
next
  case (CondGet f dv)
  then show ?thesis using inv
    by (simp add: dictCondGet_def and_then_assoc features.dlookup_map)
       (rule refines_feature; simp split: option.split)
next
  case (Member f)
  then show ?thesis using inv
    by (simp add: dictMember_def and_then_assoc features.dlookup_map domIff refines_feature)
next
  case RemoveAll
  then show ?thesis using inv by (simp add: dictRemoveAll_def removeAll_nodes_def Let_def)
next
  case IsEmpty
  then show ?thesis using inv by (simp add: dictIsEmpty_def dict_map_empty)
qed (use inv dict_lists[OF inv] in simp_all)

lemma dict_session_refines:
  "dict_inv d \<Longrightarrow> dict_inv (snd (dict_session unset qs d)) \<and>
     map_session (homed d) qs (dict_abs d) = apsnd dict_abs (dict_session unset qs d)"
proof (induction qs arbitrary: d)
  case (Cons q qs)
  note r = dict_request_refines[OF Cons.prems, of unset q]
  show ?case
  proof (cases "dict_request unset q d")
    case (Inl e)
    then show ?thesis using r Cons.IH[OF Cons.prems] by simp
  next
    case (Inr ad)
    obtain a d' where "ad = (a, d')" by (cases ad)
    then show ?thesis using Inr r Cons.IH[of d'] by (auto simp: apfst_def apsnd_def map_prod_def split: prod.splits)
  qed
qed simp

lemma dict_session_ok: "dict_inv (snd (dict_session unset qs \<lparr>homed = h, dict_root = DLeaf\<rparr>))"
  by (rule dict_session_refines[THEN conjunct1]) simp

lemma map_session_no_assertion: "Inl AssertionFailed \<notin> set (fst (map_session h qs m))"
proof (induction qs arbitrary: m)
  case (Cons q qs)
  have f: "requireFeature f \<noteq> Inl AssertionFailed" for f by (cases f) simp_all
  have "map_request h q m \<noteq> Inl AssertionFailed"
    by (cases q) (auto simp: and_then_Inl_iff f split: option.splits)
  then show ?case using Cons by (auto split: sum.split)
qed simp

text \<open>The nodes of a tree.\<close>

fun all_nodes :: "('k, 'v) dnode \<Rightarrow> ('k, 'v) dnode list" where
  "all_nodes DLeaf = []"
| "all_nodes (DNode c l k v r) = DNode c l k v r # all_nodes l @ all_nodes r"

lemma add_mset_chain: "add_mset l A = S + L \<Longrightarrow> add_mset r B = A + R \<Longrightarrow> add_mset r (add_mset l B) = S + (L + R)"
  by (metis add_mset_commute union_assoc union_mset_add_mset_left)

lemma walk_frees:
  defines "f \<equiv> \<lambda>n freed. case n of
      DNode _ l _ _ r \<Rightarrow> (let freed = (if l \<noteq> DLeaf then l # freed else freed) in if r \<noteq> DLeaf then r # freed else freed)
    | DLeaf \<Rightarrow> freed"
  shows "t \<noteq> DLeaf \<Longrightarrow> add_mset t (mset (walkInternal wkPostOrder False f t s)) = mset s + mset (all_nodes t)"
proof (induction t arbitrary: s)
  case (DNode c l k v r)
  have l: "mset (if l \<noteq> DLeaf then l # s' else s') + mset (walkInternal wkPostOrder False f l s) = mset s' + mset s + mset (all_nodes l)" for s s'
    using DNode.IH(1)[of s] by (cases "l = DLeaf") auto
  have r: "mset (if r \<noteq> DLeaf then r # s' else s') + mset (walkInternal wkPostOrder False f r s) = mset s' + mset s + mset (all_nodes r)" for s s'
    using DNode.IH(2)[of s] by (cases "r = DLeaf") auto
  let ?A = "walkInternal wkPostOrder False f l s"
  let ?B = "walkInternal wkPostOrder False f r ?A"
  have f: "f (DNode c l k v r) s' = (if r \<noteq> DLeaf then r # (if l \<noteq> DLeaf then l # s' else s') else if l \<noteq> DLeaf then l # s' else s')" for c l k v r s'
    by (simp add: f_def Let_def)
  consider "l = DLeaf" "r = DLeaf" | "l = DLeaf" "r \<noteq> DLeaf" | "l \<noteq> DLeaf" "r = DLeaf" | "l \<noteq> DLeaf" "r \<noteq> DLeaf" by blast
  then show ?case
  proof cases
    case 4
    then have "add_mset r (add_mset l (mset ?B)) = mset s + (mset (all_nodes l) + mset (all_nodes r))"
      using DNode.IH by (intro add_mset_chain)
    then show ?thesis using 4 by (simp add: f)
  qed (use l[of "[]" s] r[of "[]" ?A] in \<open>simp_all add: f\<close>)
qed simp

section \<open>Copies\<close>

text \<open>Space cloning gives every cloned name a fresh identifier; \<open>new\<close> is the environment's generator.\<close>

fun sclone_feature :: "(UUID \<Rightarrow> UUID) \<Rightarrow> feature \<Rightarrow> feature" where
  "sclone_feature new (FGlobalName u) = FGlobalName (new u)"
| "sclone_feature new (FNamedName u) = FNamedName (new u)"
| "sclone_feature new f = f"

definition sclone_dictionary :: "(UUID \<Rightarrow> UUID) \<Rightarrow> 'v dictionary \<Rightarrow> 'v dictionary" where
  "sclone_dictionary new d = d\<lparr>dict_root := replicate_nodes (sclone_feature new) (\<lambda>v. v) (dict_root d)\<rparr>"

lemma inorder_replicate: "inorder (replicate_nodes f g t) = map (\<lambda>(k, v). (f k, g v)) (inorder t)"
  by (induction t) auto

lemma isBlack_replicate: "isBlack (replicate_nodes f g t) = isBlack t"
  by (cases t rule: isBlack.cases) auto

lemma rb_replicate: "rb n (replicate_nodes f g t) = rb n t"
  by (induction n t rule: rb.induct) (auto simp: isBlack_replicate)

lemma replicate_ok:
  assumes "dict_ok compareFeatures t" "\<forall>a\<in>dom (dict_map t). \<forall>b\<in>dom (dict_map t). a < b \<longrightarrow> f a < f b"
  shows "dict_ok compareFeatures (replicate_nodes f g t)"
proof -
  have d: "dom (dict_map t) = fst ` set (inorder t)" by (simp add: dict_map_def dom_map_of_conv_image_fst)
  have "sorted_wrt (\<lambda>x y. fst x < fst y) (inorder t)"
    using assms(1) by (simp add: dict_ok_def sorted_keys_def less_feature_def)
  then have "sorted_wrt (\<lambda>x y. f (fst x) < f (fst y)) (inorder t)"
    by (rule sorted_wrt_mono_rel[rotated]) (use assms(2) d in auto)
  then have "sorted_keys compareFeatures (inorder (replicate_nodes f g t))"
    by (simp add: sorted_keys_def less_feature_def inorder_replicate sorted_wrt_map case_prod_beta)
  then show ?thesis using assms(1) by (simp add: dict_ok_def balanced_def rb_replicate isBlack_replicate)
qed

lemma map_of_renamed:
  "inj_on f (insert k (fst ` set xs)) \<Longrightarrow> map_of (map (\<lambda>(k, v). (f k, v)) xs) (f k) = map_of xs k"
  by (induction xs) (auto simp: inj_on_def)

section \<open>Properties\<close>

text \<open>C4. A dictionary is a finite map. Whatever requests are made of an empty dictionary, in any
  order, each is answered as by the map (values, membership, the lists of keys, entries and items in
  the order of the features), and each error is the one of the map: a feature that is unbound or not a
  feature, an update from another space, a missing feature. No assertion of the balancing fails.\<close>

theorem dictionary_refines_map:
  "fst (dict_session unset qs \<lparr>homed = h, dict_root = DLeaf\<rparr>) = fst (map_session h qs Map.empty) \<and>
   Inl AssertionFailed \<notin> set (fst (dict_session unset qs \<lparr>homed = h, dict_root = DLeaf\<rparr>))"
  using dict_session_refines[of "\<lparr>homed = h, dict_root = DLeaf\<rparr>" unset qs] map_session_no_assertion[of h qs Map.empty]
  by simp


text \<open>Removing all the entries of a dictionary frees each of its nodes exactly once and leaves
  the empty dictionary.\<close>

theorem removeAll_frees_once:
  "mset (fst (removeAll_nodes t)) = mset (all_nodes t) \<and> snd (removeAll_nodes t) = DLeaf"
  using walk_frees[of t "[]"] by (auto simp: removeAll_nodes_def Let_def)

text \<open>C38. A space clone's dictionary has the entries of the original under the renamed features, as
  long as the fresh identifiers of the names are in the order of the old ones.\<close>

theorem sclone_dictionary_ordered:
  assumes "dict_ok compareFeatures (dict_root d)"
    and "\<forall>a\<in>insert f (dom (dict_map (dict_root d))). \<forall>b\<in>insert f (dom (dict_map (dict_root d))).
           a < b \<longrightarrow> sclone_feature new a < sclone_feature new b"
  shows "dictMember (sclone_dictionary new d) (IsFeature (sclone_feature new f)) = dictMember d (IsFeature f)"
proof -
  let ?t = "dict_root d" let ?r = "sclone_feature new"
  have ok: "dict_ok compareFeatures (replicate_nodes ?r (\<lambda>v. v) ?t)" using assms by (intro replicate_ok) auto
  have "inj_on ?r (insert f (dom (dict_map ?t)))"
  proof (rule inj_onI)
    fix x y assume "x \<in> insert f (dom (dict_map ?t))" "y \<in> insert f (dom (dict_map ?t))" "?r x = ?r y"
    then show "x = y" using assms(2) by (metis less_irrefl linorder_neqE)
  qed
  then have "dict_map (replicate_nodes ?r (\<lambda>v. v) ?t) (?r f) = dict_map ?t f"
    unfolding dict_map_def inorder_replicate by (intro map_of_renamed) (simp add: dom_map_of_conv_image_fst)
  then show ?thesis
    by (simp add: dictMember_def sclone_dictionary_def features.dlookup_map ok assms(1))
qed

text \<open>Three names in an empty dictionary.\<close>

definition names_dictionary :: "nat dictionary" where
  "names_dictionary = snd (dict_session 0 (map (\<lambda>i. Put (IsFeature (FGlobalName (UUID 0 (of_nat i)))) i) [1, 2, 3])
     \<lparr>homed = True, dict_root = DLeaf\<rparr>)"

theorem sclone_dictionary_ordered_witness:
  "dictMember (sclone_dictionary (\<lambda>u. UUID 5 (data1 u)) names_dictionary) (IsFeature (FGlobalName (UUID 5 2))) = Inr True"
proof -
  let ?new = "\<lambda>u. UUID 5 (data1 u)"
  have i: "map fst (inorder (dict_root names_dictionary)) = [FGlobalName (UUID 0 1), FGlobalName (UUID 0 2), FGlobalName (UUID 0 3)]"
    by code_simp
  have d: "dom (dict_map (dict_root names_dictionary)) = {FGlobalName (UUID 0 1), FGlobalName (UUID 0 2), FGlobalName (UUID 0 3)}"
    by (simp add: dict_map_def dom_map_of_conv_image_fst i flip: set_map)
  have ok: "dict_ok compareFeatures (dict_root names_dictionary)"
    unfolding names_dictionary_def by (rule dict_session_ok)
  have "\<forall>a\<in>insert (FGlobalName (UUID 0 2)) (dom (dict_map (dict_root names_dictionary))).
      \<forall>b\<in>insert (FGlobalName (UUID 0 2)) (dom (dict_map (dict_root names_dictionary))).
           a < b \<longrightarrow> sclone_feature ?new a < sclone_feature ?new b"
    unfolding d by (simp add: less_feature_def) code_simp
  from sclone_dictionary_ordered[OF ok this]
  have "dictMember (sclone_dictionary ?new names_dictionary) (IsFeature (FGlobalName (UUID 5 2))) =
      dictMember names_dictionary (IsFeature (FGlobalName (UUID 0 2)))" by simp
  also have "\<dots> = Inr True" by code_simp
  finally show ?thesis .
qed


end
