(* ===== verification/Scheduling.thy ===== *)
theory Scheduling
  imports Prelude
begin

text \<open>
  The thread pool (\<open>vm/vm/main/threadpool-decl.hh\<close>, \<open>threadpool.hh\<close>): three queues of
  runnable threads, one per priority, and the counters that give a thread of a lower priority its turn.
\<close>

section \<open>Queues\<close>

type_synonym thread_id = nat

datatype ThreadPriority = tpLow | tpMiddle | tpHi

fun queue_remove :: "thread_id \<Rightarrow> thread_id list \<Rightarrow> thread_id list" where
  "queue_remove item [] = []"
| "queue_remove item (t # c) = (if t = item then c else t # queue_remove item c)"

fun queue_isScheduled :: "thread_id \<Rightarrow> thread_id list \<Rightarrow> bool" where
  "queue_isScheduled thread [] = False"
| "queue_isScheduled thread (t # c) = (if t = thread then True else queue_isScheduled thread c)"

section \<open>The pool\<close>

record thread_pool =
  queues :: "ThreadPriority \<Rightarrow> thread_id list"
  remainings :: "ThreadPriority \<Rightarrow> int"

definition HiToMiddlePriorityRatio :: int where
  "HiToMiddlePriorityRatio = 10"

definition MiddleToLowPriorityRatio :: int where
  "MiddleToLowPriorityRatio = 10"

definition new_pool :: thread_pool where
  "new_pool = \<lparr>queues = (\<lambda>_. []), remainings = (\<lambda>_. 0)\<rparr>"

definition pool_empty :: "thread_pool \<Rightarrow> bool" where
  "pool_empty pool \<longleftrightarrow> queues pool tpMiddle = [] \<and> queues pool tpHi = [] \<and> queues pool tpLow = []"

definition getRunnableCount :: "thread_pool \<Rightarrow> nat" where
  "getRunnableCount pool = length (queues pool tpLow) + length (queues pool tpMiddle) + length (queues pool tpHi) + 1"

definition isScheduled :: "thread_id \<Rightarrow> thread_pool \<Rightarrow> bool" where
  "isScheduled thread pool \<longleftrightarrow>
     queue_isScheduled thread (queues pool tpMiddle) \<or> queue_isScheduled thread (queues pool tpHi) \<or>
     queue_isScheduled thread (queues pool tpLow)"

text \<open>\<open>None\<close>: the thread is in the pool already. The caller has checked that it is runnable.\<close>

definition schedule :: "thread_id \<Rightarrow> ThreadPriority \<Rightarrow> thread_pool \<Rightarrow> thread_pool option" where
  "schedule thread priority pool =
     (if isScheduled thread pool then None
      else Some (pool\<lparr>queues := (queues pool)(priority := queues pool priority @ [thread])\<rparr>))"

definition unschedule :: "thread_id \<Rightarrow> thread_pool \<Rightarrow> thread_pool" where
  "unschedule thread pool =
     (let qs = queues pool;
          qs = qs(tpLow := queue_remove thread (qs tpLow));
          qs = qs(tpMiddle := queue_remove thread (qs tpMiddle));
          qs = qs(tpHi := queue_remove thread (qs tpHi))
      in pool\<lparr>queues := qs\<rparr>)"

definition reschedule :: "thread_id \<Rightarrow> ThreadPriority \<Rightarrow> thread_pool \<Rightarrow> thread_pool option" where
  "reschedule thread priority pool = schedule thread priority (unschedule thread pool)"

definition popFront :: "ThreadPriority \<Rightarrow> thread_pool \<Rightarrow> thread_id \<times> thread_pool" where
  "popFront priority pool =
     (hd (queues pool priority), pool\<lparr>queues := (queues pool)(priority := tl (queues pool priority))\<rparr>)"

text \<open>One round of the loop; it returns a thread, or falls through.\<close>

definition popNext_round :: "thread_pool \<Rightarrow> thread_id option \<times> thread_pool" where
  "popNext_round pool =
     (if queues pool tpHi \<noteq> [] \<and> remainings pool tpHi > 0 then
        apfst Some (popFront tpHi (pool\<lparr>remainings := (remainings pool)(tpHi := remainings pool tpHi - 1)\<rparr>))
      else
        (let pool = pool\<lparr>remainings := (remainings pool)(tpHi := HiToMiddlePriorityRatio)\<rparr>
         in if queues pool tpMiddle \<noteq> [] \<and> remainings pool tpMiddle > 0 then
              apfst Some (popFront tpMiddle (pool\<lparr>remainings := (remainings pool)(tpMiddle := remainings pool tpMiddle - 1)\<rparr>))
            else
              (let pool = pool\<lparr>remainings := (remainings pool)(tpMiddle := MiddleToLowPriorityRatio)\<rparr>
               in if queues pool tpLow \<noteq> [] then apfst Some (popFront tpLow pool)
                  else (None, pool))))"

text \<open>The loop; \<open>None\<close> if it does not end, \<open>Some (None, _)\<close> when there is no thread.\<close>

partial_function (option) popNext :: "thread_pool \<Rightarrow> (thread_id option \<times> thread_pool) option" where
  "popNext pool =
     (case popNext_round pool of
        (Some t, pool') \<Rightarrow> Some (Some t, pool')
      | (None, pool') \<Rightarrow> if pool_empty pool' then Some (None, pool') else popNext pool')"

section \<open>Lemmas on the pool\<close>

lemma queue_isScheduled_set [simp]: "queue_isScheduled t q \<longleftrightarrow> t \<in> set q"
  by (induction q) auto

lemma queue_remove_remove1 [simp]: "queue_remove t q = remove1 t q"
  by (induction q) auto

lemma all_priorities: "(\<forall>p. P p) \<longleftrightarrow> P tpMiddle \<and> P tpHi \<and> P tpLow"
  by (metis ThreadPriority.exhaust)

lemma isScheduled_queues: "isScheduled t pool \<longleftrightarrow> (\<exists>p. t \<in> set (queues pool p))"
proof -
  have "(\<exists>p. t \<in> set (queues pool p)) \<longleftrightarrow> t \<in> set (queues pool tpLow) \<or> t \<in> set (queues pool tpMiddle) \<or> t \<in> set (queues pool tpHi)"
    by (metis ThreadPriority.exhaust)
  then show ?thesis by (auto simp: isScheduled_def)
qed

lemma pool_empty_queues: "pool_empty pool \<longleftrightarrow> (\<forall>p. queues pool p = [])"
  by (simp add: pool_empty_def all_priorities)

text \<open>What a round does, by the queue it takes from.\<close>

lemmas ratios = HiToMiddlePriorityRatio_def MiddleToLowPriorityRatio_def

definition takes :: "ThreadPriority \<Rightarrow> thread_id \<Rightarrow> thread_pool \<Rightarrow> thread_pool \<Rightarrow> bool" where
  "takes p t pool pool' \<longleftrightarrow> queues pool p = t # queues pool' p \<and> (\<forall>q. q \<noteq> p \<longrightarrow> queues pool' q = queues pool q)"

lemma round_cases:
  obtains (hi) t pool' where "popNext_round pool = (Some t, pool')" "takes tpHi t pool pool'"
      "remainings pool tpHi > 0" "remainings pool' tpHi = remainings pool tpHi - 1"
      "remainings pool' tpMiddle = remainings pool tpMiddle"
  | (middle) t pool' where "popNext_round pool = (Some t, pool')" "takes tpMiddle t pool pool'"
      "queues pool tpHi = [] \<or> remainings pool tpHi \<le> 0"
      "remainings pool tpMiddle > 0" "remainings pool' tpHi = 10" "remainings pool' tpMiddle = remainings pool tpMiddle - 1"
  | (low) t pool' where "popNext_round pool = (Some t, pool')" "takes tpLow t pool pool'"
      "queues pool tpHi = [] \<or> remainings pool tpHi \<le> 0" "queues pool tpMiddle = [] \<or> remainings pool tpMiddle \<le> 0"
      "remainings pool' tpHi = 10" "remainings pool' tpMiddle = 10"
  | (none) pool' where "popNext_round pool = (None, pool')" "queues pool' = queues pool" "queues pool tpLow = []"
      "queues pool tpHi = [] \<or> remainings pool tpHi \<le> 0" "queues pool tpMiddle = [] \<or> remainings pool tpMiddle \<le> 0"
      "remainings pool' tpHi = 10" "remainings pool' tpMiddle = 10"
proof -
  consider "queues pool tpHi \<noteq> [] \<and> remainings pool tpHi > 0"
    | "\<not> (queues pool tpHi \<noteq> [] \<and> remainings pool tpHi > 0)" "queues pool tpMiddle \<noteq> [] \<and> remainings pool tpMiddle > 0"
    | "\<not> (queues pool tpHi \<noteq> [] \<and> remainings pool tpHi > 0)" "\<not> (queues pool tpMiddle \<noteq> [] \<and> remainings pool tpMiddle > 0)" "queues pool tpLow \<noteq> []"
    | "\<not> (queues pool tpHi \<noteq> [] \<and> remainings pool tpHi > 0)" "\<not> (queues pool tpMiddle \<noteq> [] \<and> remainings pool tpMiddle > 0)" "queues pool tpLow = []"
    by blast
  then show thesis
  proof cases
    case 1
    show thesis by (rule hi, simp add: popNext_round_def popFront_def 1) (use 1 in \<open>auto simp: takes_def\<close>)
  next
    case 2
    show thesis by (rule middle, simp add: popNext_round_def popFront_def Let_def 2) (use 2 in \<open>auto simp: takes_def ratios\<close>)
  next
    case 3
    show thesis by (rule low, simp add: popNext_round_def popFront_def Let_def 3) (use 3 in \<open>auto simp: takes_def ratios\<close>)
  next
    case 4
    show thesis by (rule none, simp add: popNext_round_def Let_def 4) (use 4 in \<open>auto simp: ratios\<close>)
  qed
qed

text \<open>The loop ends after two rounds at most: the first one fills the counters.\<close>

lemma popNext_cases:
  obtains (some) p t pool' where "popNext pool = Some (Some t, pool')" "takes p t pool pool'"
  | (none) pool' where "popNext pool = Some (None, pool')" "pool_empty pool" "queues pool' = queues pool"
proof (cases pool rule: round_cases)
  case (hi t pool')
  then show thesis by (intro some[of t pool' tpHi]) (simp_all add: popNext.simps)
next
  case (middle t pool')
  then show thesis by (intro some[of t pool' tpMiddle]) (simp_all add: popNext.simps)
next
  case (low t pool')
  then show thesis by (intro some[of t pool' tpLow]) (simp_all add: popNext.simps)
next
  case n: (none pool')
  then have first: "popNext pool = (if pool_empty pool' then Some (None, pool') else popNext pool')"
    by (simp add: popNext.simps[of pool])
  show thesis
  proof (cases "pool_empty pool'")
    case True
    then show thesis using first n by (intro none[of pool']) (simp_all add: pool_empty_def)
  next
    case False
    then have eq: "popNext pool = popNext pool'" using first by simp
    show thesis
    proof (cases pool' rule: round_cases)
      case (hi t pool'')
      then show thesis using n eq by (intro some[of t pool'' tpHi]) (simp_all add: popNext.simps[of pool'] takes_def)
    next
      case (middle t pool'')
      then show thesis using n eq by (intro some[of t pool'' tpMiddle]) (simp_all add: popNext.simps[of pool'] takes_def)
    next
      case (low t pool'')
      then show thesis using n eq by (intro some[of t pool'' tpLow]) (simp_all add: popNext.simps[of pool'] takes_def)
    next
      case (none pool'')
      then have "pool_empty pool'" using n by (auto simp: pool_empty_def)
      then show thesis using False by simp
    qed
  qed
qed

text \<open>When the low queue is not empty the first round takes a thread; how it moves the counters.\<close>

lemma popNext_low:
  assumes "queues pool tpLow \<noteq> []"
  shows "\<exists>t pool'. popNext_round pool = (Some t, pool') \<and> popNext pool = Some (Some t, pool')"
  using assms by (cases pool rule: round_cases) (auto simp: popNext.simps)

section \<open>Sessions of the pool\<close>

datatype pool_event = Schedule thread_id ThreadPriority | PopNext

text \<open>The popped threads, and the pool. A thread that is scheduled already is not scheduled again.\<close>

fun pool_run :: "pool_event list \<Rightarrow> thread_pool \<Rightarrow> thread_id list \<times> thread_pool" where
  "pool_run [] pool = ([], pool)"
| "pool_run (Schedule t p # es) pool =
     (case schedule t p pool of None \<Rightarrow> pool_run es pool | Some pool' \<Rightarrow> pool_run es pool')"
| "pool_run (PopNext # es) pool =
     (case popNext pool of
        Some (Some t, pool') \<Rightarrow> apfst ((#) t) (pool_run es pool')
      | Some (None, pool') \<Rightarrow> pool_run es pool'
      | None \<Rightarrow> pool_run es pool)"

definition pops :: "pool_event list \<Rightarrow> nat" where
  "pops es = length (filter (\<lambda>e. e = PopNext) es)"

lemma pops_simps [simp]:
  "pops [] = 0" "pops (Schedule t p # es) = pops es" "pops (PopNext # es) = Suc (pops es)"
  by (simp_all add: pops_def)

definition counters_ok :: "thread_pool \<Rightarrow> bool" where
  "counters_ok pool \<longleftrightarrow> remainings pool tpHi \<le> 10 \<and> remainings pool tpMiddle \<le> 10"

text \<open>A bound on the pops before one takes from the low queue.\<close>

definition turns :: "thread_pool \<Rightarrow> nat" where
  "turns pool = nat (remainings pool tpHi) + 11 * nat (remainings pool tpMiddle)"

lemma turns_le: "counters_ok pool \<Longrightarrow> turns pool \<le> 120"
  by (auto simp: turns_def counters_ok_def)

lemma low_step:
  assumes "queues pool tpLow = xs @ t # ys" "counters_ok pool"
  obtains (taken) pool' where "popNext pool = Some (Some t, pool')" "xs = []"
  | (waits) u pool' xs' where "popNext pool = Some (Some u, pool')" "queues pool' tpLow = xs' @ t # ys" "counters_ok pool'"
      "121 * length xs' + turns pool' < 121 * length xs + turns pool"
proof -
  obtain u pool' where p: "popNext_round pool = (Some u, pool')" "popNext pool = Some (Some u, pool')"
    using popNext_low[of pool] assms by auto
  show thesis
  proof (cases pool rule: round_cases)
    case (hi v pool'')
    then show thesis using p assms
      by (intro waits[of u pool' xs]) (auto simp: takes_def counters_ok_def turns_def)
  next
    case (middle v pool'')
    then show thesis using p assms
      by (intro waits[of u pool' xs]) (auto simp: takes_def counters_ok_def turns_def)
  next
    case (low v pool'')
    show thesis
    proof (cases xs)
      case Nil
      then show thesis using low p assms by (intro taken[of pool']) (auto simp: takes_def)
    next
      case (Cons x xs')
      then show thesis using low p assms
        by (intro waits[of u pool' xs']) (auto simp: takes_def counters_ok_def turns_def)
    qed
  next
    case (none pool'')
    then show thesis using p by simp
  qed
qed

lemma low_served:
  "queues pool tpLow = xs @ t # ys \<Longrightarrow> counters_ok pool \<Longrightarrow> 121 * length xs + turns pool < pops es \<Longrightarrow>
   t \<in> set (fst (pool_run es pool))"
proof (induction es arbitrary: pool xs ys)
  case (Cons e es)
  show ?case
  proof (cases e)
    case (Schedule u p)
    show ?thesis
    proof (cases "schedule u p pool")
      case (Some pool')
      then have "counters_ok pool'" "turns pool' = turns pool"
        using Cons.prems(2) by (auto simp: schedule_def counters_ok_def turns_def split: if_splits)
      moreover have "\<exists>ys'. queues pool' tpLow = xs @ t # ys'"
        using Some Cons.prems(1) by (auto simp: schedule_def split: if_splits)
      ultimately show ?thesis using Cons.IH[of pool' xs] Cons.prems(3) Schedule Some by auto
    qed (use Cons Schedule in auto)
  next
    case PopNext
    from Cons.prems(1,2) show ?thesis
    proof (cases pool rule: low_step[consumes 2])
      case (taken pool')
      then show ?thesis using PopNext by simp
    next
      case (waits u pool' xs')
      then show ?thesis using PopNext Cons.IH[of pool' xs' ys] Cons.prems(3) by simp
    qed
  qed
qed simp

lemma counters_ok_round: "counters_ok pool \<Longrightarrow> counters_ok (snd (popNext_round pool))"
  by (cases pool rule: round_cases) (auto simp: counters_ok_def)

lemma popNext_rounds: "popNext pool = Some r \<Longrightarrow> r = popNext_round pool \<or> r = popNext_round (snd (popNext_round pool))"
proof (cases pool rule: round_cases)
  case (none pool')
  assume p: "popNext pool = Some r"
  show ?thesis
  proof (cases "pool_empty pool'")
    case True
    then show ?thesis using none p by (simp add: popNext.simps[of pool])
  next
    case False
    then have "popNext pool' = Some r" using none p by (simp add: popNext.simps[of pool])
    moreover have "fst (popNext_round pool') \<noteq> None"
      using none False by (cases pool' rule: round_cases) (auto simp: pool_empty_def)
    ultimately show ?thesis using none by (auto simp: popNext.simps[of pool'] split: prod.splits)
  qed
qed (simp_all add: popNext.simps[of pool])

lemma popNext_counters: "popNext pool = Some r \<Longrightarrow> counters_ok pool \<Longrightarrow> counters_ok (snd r)"
  using popNext_rounds[of pool r] counters_ok_round by auto

lemma counters_ok_run: "counters_ok pool \<Longrightarrow> counters_ok (snd (pool_run es pool))"
proof (induction es pool rule: pool_run.induct)
  case (2 t p es pool)
  then show ?case by (auto simp: schedule_def counters_ok_def split: option.splits if_splits)
next
  case (3 es pool)
  then show ?case using popNext_counters[of pool] by (fastforce split: option.splits prod.splits)
qed simp

text \<open>No thread is twice in the pool.\<close>

definition pool_distinct :: "thread_pool \<Rightarrow> bool" where
  "pool_distinct pool \<longleftrightarrow> (\<forall>p. distinct (queues pool p)) \<and>
     (\<forall>p q. p \<noteq> q \<longrightarrow> set (queues pool p) \<inter> set (queues pool q) = {})"

lemma takes_distinct: "takes p t pool pool' \<Longrightarrow> pool_distinct pool \<Longrightarrow> pool_distinct pool' \<and> \<not> isScheduled t pool'"
proof -
  assume a: "takes p t pool pool'" "pool_distinct pool"
  have sub: "set (queues pool' q) \<subseteq> set (queues pool q)" "distinct (queues pool' q)" for q
    using a by (cases "q = p"; auto simp: takes_def pool_distinct_def; metis distinct.simps(2))+
  have h: "distinct (t # queues pool' p)" using a unfolding takes_def pool_distinct_def by metis
  have "t \<notin> set (queues pool' q)" for q
  proof (cases "q = p")
    case False
    have "t \<in> set (queues pool p)" using a(1) by (simp add: takes_def)
    then show ?thesis using False a unfolding takes_def pool_distinct_def by (metis disjoint_iff)
  qed (use h in simp)
  moreover have "pool_distinct pool'" using a(2) sub unfolding pool_distinct_def by blast
  ultimately show ?thesis by (simp add: isScheduled_queues)
qed

lemma schedule_distinct: "schedule t p pool = Some pool' \<Longrightarrow> pool_distinct pool \<Longrightarrow> pool_distinct pool' \<and> isScheduled t pool'"
  by (auto simp: schedule_def isScheduled_queues pool_distinct_def split: if_splits; blast)

lemma pool_run_distinct: "pool_distinct pool \<Longrightarrow> pool_distinct (snd (pool_run es pool))"
proof (induction es pool rule: pool_run.induct)
  case (2 t p es pool)
  then show ?case using schedule_distinct[of t p pool] by (auto split: option.splits)
next
  case (3 es pool)
  show ?case
  proof (cases pool rule: popNext_cases)
    case (some p t pool')
    then show ?thesis using 3 takes_distinct by simp
  next
    case (none pool')
    then show ?thesis using 3 by (simp add: pool_distinct_def)
  qed
qed simp

section \<open>Properties\<close>

text \<open>C29. Choosing the next thread always ends. It takes the first thread of one of the queues and
  leaves the others alone, and answers that there is none only when all the queues are empty.\<close>

theorem popNext_returns:
  "\<exists>r pool'. popNext pool = Some (r, pool') \<and>
     (case r of None \<Rightarrow> pool_empty pool \<and> queues pool' = queues pool
      | Some t \<Rightarrow> \<exists>p. takes p t pool pool')"
  by (cases pool rule: popNext_cases) auto

text \<open>C14. No thread starves: a thread of the low priority with \<open>k\<close> others before it in its queue
  runs within \<open>121 * (k + 1)\<close> choices, however many threads of the higher priorities are scheduled
  meanwhile.\<close>

theorem low_priority_served:
  assumes "queues (snd (pool_run es new_pool)) tpLow = xs @ t # ys"
    and "121 * Suc (length xs) \<le> pops es'"
  shows "t \<in> set (fst (pool_run es' (snd (pool_run es new_pool))))"
proof -
  have "counters_ok new_pool" by (simp add: counters_ok_def new_pool_def)
  then have "counters_ok (snd (pool_run es new_pool))" by (rule counters_ok_run)
  then show ?thesis using assms turns_le by (intro low_served[OF assms(1)]) fastforce+
qed

theorem low_priority_served_witness:
  "7 \<in> set (fst (pool_run (concat (replicate 121 [Schedule 1 tpHi, PopNext]))
     (snd (pool_run [Schedule 1 tpHi, Schedule 7 tpLow] new_pool))))"
proof (rule low_priority_served)
  show "queues (snd (pool_run [Schedule 1 tpHi, Schedule 7 tpLow] new_pool)) tpLow = [] @ 7 # []"
    by code_simp
  have "pops (concat (replicate n [Schedule 1 tpHi, PopNext])) = n" for n by (induction n) simp_all
  then show "121 * Suc (length ([] :: thread_id list)) \<le> pops (concat (replicate 121 [Schedule 1 tpHi, PopNext]))" by simp
qed

text \<open>Whatever is scheduled and chosen, the pool never holds a thread twice, and the chosen thread
  is not in the pool any more.\<close>

theorem pool_holds_once:
  "let pool = snd (pool_run es new_pool)
   in pool_distinct pool \<and>
      (case popNext pool of Some (Some t, pool') \<Rightarrow> \<not> isScheduled t pool' | _ \<Rightarrow> True)"
proof -
  let ?pool = "snd (pool_run es new_pool)"
  have d: "pool_distinct ?pool" by (rule pool_run_distinct) (simp add: pool_distinct_def new_pool_def)
  then show ?thesis by (cases ?pool rule: popNext_cases) (auto dest: takes_distinct)
qed

end
