(* ===== verification/Memory.thy ===== *)
theory Memory
  imports Integers "HOL-Library.Multiset"
begin

text \<open>
  The memory manager (\<open>vm/vm/main/memmanager.hh\<close>, \<open>memmanager.cc\<close>) and the size of the heap
  (\<open>adjustHeapSize\<close> in \<open>vm.hh\<close>, the thresholds in \<open>properties-decl.hh\<close>, the settings in
  \<open>properties.cc\<close>). Sizes are 64-bit words, addresses are natural numbers. The memory of the C
  library is an argument: the address that \<open>::malloc\<close> answers when it is called, \<open>0\<close> when it has none.
\<close>

section \<open>The state\<close>

datatype mem_error = BadAlloc | DividedByZero | Hang

record heap_config =
  heapSize :: u64
  minimalHeapSize :: u64
  maximalHeapSize :: u64
  desiredFreeMemPercentageAfterGC :: u64
  gcThreshold :: u64
  maxGCThreshold :: u64
  gcThresholdTolerance :: u64

record vm_heap = heap_config +
  nextBlock :: nat
  baseBlock :: nat
  blockSize :: u64
  allocated :: u64
  freeListBuckets :: "nat \<Rightarrow> nat list"
  allocatedInFreeList :: u64
  extraAllocs :: "nat list"
  allocatedInExtra :: u64
  activeMemory :: u64
  gcRequested :: bool

section \<open>Thresholds and the heap size\<close>

definition computeGCThreshold :: "u64 \<Rightarrow> 'a heap_config_scheme \<Rightarrow> mem_error + 'a heap_config_scheme" where
  "computeGCThreshold active h =
     (let divisor = 100 - desiredFreeMemPercentageAfterGC h
      in if divisor = 0 then Inl DividedByZero
         else Inr (h\<lparr>gcThreshold := min (maxGCThreshold h) (active div divisor * 100)\<rparr>))"






definition set_gc_free :: "u64 \<Rightarrow> 'a heap_config_scheme \<Rightarrow> 'a heap_config_scheme" where
  "set_gc_free value h = h\<lparr>desiredFreeMemPercentageAfterGC := value\<rparr>"

definition set_gc_tolerance :: "u64 \<Rightarrow> 'a heap_config_scheme \<Rightarrow> 'a heap_config_scheme" where
  "set_gc_tolerance value h = h\<lparr>gcThresholdTolerance := value\<rparr>"

text \<open>The two loops; \<open>None\<close> when they do not end.\<close>

partial_function (option) grow_heap :: "u64 \<Rightarrow> u64 \<Rightarrow> u64 option" where
  "grow_heap wished sz = (if wished > sz then grow_heap wished (sz * 2) else Some sz)"

partial_function (option) shrink_heap :: "u64 \<Rightarrow> u64 \<Rightarrow> u64 option" where
  "shrink_heap wished sz = (if wished < sz div 2 then shrink_heap wished (sz div 2) else Some sz)"

definition wishedHeapSize :: "'a heap_config_scheme \<Rightarrow> u64" where
  "wishedHeapSize h = gcThreshold h div 100 * (100 + gcThresholdTolerance h)"

definition adjustHeapSize :: "'a vm_heap_scheme \<Rightarrow> mem_error + 'a vm_heap_scheme" where
  "adjustHeapSize h =
     (let wished = wishedHeapSize h
      in if wished > heapSize h then
           (if heapSize h = maximalHeapSize h then Inr h
            else case grow_heap wished (heapSize h) of
                   None \<Rightarrow> Inl Hang
                 | Some sz \<Rightarrow> Inr (h\<lparr>heapSize := min sz (maximalHeapSize h), gcRequested := True\<rparr>))
         else if wished < heapSize h div 2 then
           (if heapSize h = minimalHeapSize h then Inr h
            else case shrink_heap wished (heapSize h) of
                   None \<Rightarrow> Inl Hang
                 | Some sz \<Rightarrow> Inr (h\<lparr>heapSize := max sz (minimalHeapSize h), gcRequested := True\<rparr>))
         else Inr h)"

section \<open>Allocation\<close>

definition AllocGranularity :: u64 where
  "AllocGranularity = 16"

definition MaxBuckets :: u64 where
  "MaxBuckets = 65"

definition bucketFor :: "u64 \<Rightarrow> u64" where
  "bucketFor sz = (sz + (AllocGranularity - 1)) div AllocGranularity"

text \<open>A new heap when its size has changed, then all of it is free; \<open>sys\<close> is its address.\<close>

definition mem_init :: "nat \<Rightarrow> vm_heap \<Rightarrow> mem_error + vm_heap" where
  "mem_init sys h =
     and_then (if blockSize h \<noteq> heapSize h then
                 (if sys = 0 then Inl BadAlloc else Inr (h\<lparr>baseBlock := sys, blockSize := heapSize h\<rparr>))
               else Inr h)
       (\<lambda>h. Inr (h\<lparr>nextBlock := baseBlock h, allocated := 0, freeListBuckets := (\<lambda>_. []), allocatedInFreeList := 0\<rparr>))"

definition getMoreMemory :: "nat \<Rightarrow> u64 \<Rightarrow> vm_heap \<Rightarrow> mem_error + nat \<times> vm_heap" where
  "getMoreMemory sys sz h =
     (if sys = 0 then Inl BadAlloc
      else (let h = h\<lparr>extraAllocs := sys # extraAllocs h, allocatedInExtra := allocatedInExtra h + sz\<rparr>
            in and_then (computeGCThreshold (activeMemory h + sz) h) (\<lambda>h.
               and_then (adjustHeapSize h) (\<lambda>h.
               Inr (sys, h\<lparr>gcRequested := True\<rparr>)))))"

definition getMemory :: "nat \<Rightarrow> u64 \<Rightarrow> vm_heap \<Rightarrow> mem_error + nat \<times> vm_heap" where
  "getMemory sys sz h =
     (if allocated h + sz > blockSize h then getMoreMemory sys sz h
      else Inr (nextBlock h, h\<lparr>nextBlock := nextBlock h + unat sz, allocated := allocated h + sz\<rparr>))"

definition mem_malloc :: "nat \<Rightarrow> u64 \<Rightarrow> vm_heap \<Rightarrow> mem_error + nat \<times> vm_heap" where
  "mem_malloc sys sz h =
     (if sz = 0 then Inr (0, h)
      else (let bucket = bucketFor sz
            in if bucket < MaxBuckets then
                 (case freeListBuckets h (unat bucket) of
                    list # rest \<Rightarrow> Inr (list, h\<lparr>freeListBuckets := (freeListBuckets h)(unat bucket := rest)\<rparr>)
                  | [] \<Rightarrow>
                      (let chunkSize = bucket * AllocGranularity
                       in getMemory sys chunkSize (h\<lparr>allocatedInFreeList := allocatedInFreeList h + chunkSize\<rparr>)))
               else Inr (sys, h)))"

text \<open>A big block goes back to the C library.\<close>

definition mem_free :: "nat \<Rightarrow> u64 \<Rightarrow> vm_heap \<Rightarrow> vm_heap" where
  "mem_free ptr sz h =
     (if sz = 0 then h
      else (let bucket = bucketFor sz
            in if bucket < MaxBuckets then
                 h\<lparr>freeListBuckets := (freeListBuckets h)(unat bucket := ptr # freeListBuckets h (unat bucket))\<rparr>
               else h))"

definition releaseExtraAllocs :: "vm_heap \<Rightarrow> vm_heap" where
  "releaseExtraAllocs h = h\<lparr>extraAllocs := [], allocatedInExtra := 0\<rparr>"

definition getAllocated :: "vm_heap \<Rightarrow> u64" where
  "getAllocated h = allocated h + allocatedInExtra h"

definition getAllocatedOutsideFreeList :: "vm_heap \<Rightarrow> u64" where
  "getAllocatedOutsideFreeList h = getAllocated h - allocatedInFreeList h"

definition isGCRequired :: "bool \<Rightarrow> vm_heap \<Rightarrow> bool" where
  "isGCRequired autoGC h \<longleftrightarrow> getAllocated h \<ge> gcThreshold h \<and> autoGC"

section \<open>The loops end\<close>



section \<open>The size of the heap\<close>







definition vm_heap_of :: "heap_config \<Rightarrow> vm_heap" where
  "vm_heap_of c = heap_config.extend c
     \<lparr>nextBlock = 0, baseBlock = 0, blockSize = 0, allocated = 0, freeListBuckets = (\<lambda>_. []), allocatedInFreeList = 0,
      extraAllocs = [], allocatedInExtra = 0, activeMemory = 0, gcRequested = False\<rparr>"

lemma tolerance_10 [simp]: "(100 :: u64) + 10 = 110"
  by simp








section \<open>Blocks\<close>

text \<open>A block is its address and its length, in bytes. A request gets a block of the length of its bucket.\<close>

definition covers :: "nat \<times> nat \<Rightarrow> nat \<Rightarrow> bool" where
  "covers b a \<longleftrightarrow> fst b \<le> a \<and> a < fst b + snd b"

definition owners :: "(nat \<times> nat) multiset \<Rightarrow> nat \<Rightarrow> nat" where
  "owners B a = size (filter_mset (\<lambda>b. covers b a) B)"

lemma owners_simps [simp]:
  "owners {#} a = 0" "owners (add_mset b B) a = (if covers b a then Suc (owners B a) else owners B a)"
  "owners (B + C) a = owners B a + owners C a"
  by (auto simp: owners_def)

definition block_length :: "u64 \<Rightarrow> nat" where
  "block_length sz = (if bucketFor sz < MaxBuckets then unat (bucketFor sz * AllocGranularity) else unat sz)"

definition free_blocks :: "vm_heap \<Rightarrow> (nat \<times> nat) multiset" where
  "free_blocks h = (\<Sum>b < 65. image_mset (\<lambda>p. (p, b * 16)) (mset (freeListBuckets h b)))"

definition live_blocks :: "(nat \<times> u64) multiset \<Rightarrow> (nat \<times> nat) multiset" where
  "live_blocks live = image_mset (\<lambda>(p, sz). (p, block_length sz)) live"

text \<open>What the C library promises of a block it gives: it is not in use.\<close>

definition sys_fresh :: "nat \<Rightarrow> u64 \<Rightarrow> vm_heap \<Rightarrow> (nat \<times> u64) multiset \<Rightarrow> bool" where
  "sys_fresh sys sz h live \<longleftrightarrow>
     (\<forall>a. covers (sys, block_length sz) a \<longrightarrow>
        owners (free_blocks h + live_blocks live) a = 0 \<and> \<not> covers (baseBlock h, unat (blockSize h)) a)"

text \<open>The blocks in use of a heap that was initialised and used since. A request is below the size of
  the address space, and a block is freed with the size it was requested with.\<close>

inductive in_use :: "vm_heap \<Rightarrow> (nat \<times> u64) multiset \<Rightarrow> bool" where
  start: "mem_init sys h0 = Inr h \<Longrightarrow> unat (heapSize h0) \<le> 2 ^ 63 \<Longrightarrow> in_use h {#}"
| malloc: "in_use h live \<Longrightarrow> sz \<noteq> 0 \<Longrightarrow> unat sz \<le> 2 ^ 63 \<Longrightarrow> sys_fresh sys sz h live \<Longrightarrow>
    mem_malloc sys sz h = Inr (p, h') \<Longrightarrow> in_use h' (add_mset (p, sz) live)"
| free: "in_use h (add_mset (p, sz) live) \<Longrightarrow> in_use (mem_free p sz h) live"

definition heap_inv :: "vm_heap \<Rightarrow> (nat \<times> nat) multiset \<Rightarrow> bool" where
  "heap_inv h B \<longleftrightarrow> (\<forall>a. owners B a \<le> 1) \<and>
     (\<forall>a. covers (nextBlock h, unat (blockSize h) - unat (allocated h)) a \<longrightarrow> owners B a = 0) \<and>
     nextBlock h = baseBlock h + unat (allocated h) \<and> allocated h \<le> blockSize h \<and> unat (blockSize h) \<le> 2 ^ 63"

lemma bucketFor_bounds:
  assumes "sz \<noteq> 0" "unat sz \<le> 2 ^ 63"
  shows "0 < unat (bucketFor sz)" "unat sz \<le> unat (bucketFor sz) * 16"
proof -
  have "unat (sz + 15) = unat sz + 15" using assms(2) by (simp add: unat_word_ariths)
  then have b: "unat (bucketFor sz) = (unat sz + 15) div 16" by (simp add: bucketFor_def AllocGranularity_def unat_div)
  moreover have "0 < unat sz" using assms(1) by (simp add: unat_gt_0)
  ultimately show "0 < unat (bucketFor sz)" "unat sz \<le> unat (bucketFor sz) * 16" by simp_all
qed

lemma bucket_length: "bucketFor sz < MaxBuckets \<Longrightarrow> unat (bucketFor sz * AllocGranularity) = unat (bucketFor sz) * 16 \<and> unat (bucketFor sz) < 65"
  by (simp add: MaxBuckets_def AllocGranularity_def word_less_nat_alt unat_word_ariths)

lemma free_blocks_update:
  assumes "b < 65"
  shows "free_blocks (h\<lparr>freeListBuckets := (freeListBuckets h)(b := ps)\<rparr>) + image_mset (\<lambda>p. (p, b * 16)) (mset (freeListBuckets h b)) =
    free_blocks h + image_mset (\<lambda>p. (p, b * 16)) (mset ps)"
proof -
  have "{..<65} = insert b ({..<65} - {b})" using assms by auto
  then show ?thesis unfolding free_blocks_def by (simp add: sum.insert_remove sum.remove[of "{..<65}" b] assms)
qed

text \<open>Where a request changes the lists.\<close>

lemma config_fields:
  "computeGCThreshold a h = Inr h' \<Longrightarrow> freeListBuckets h' = freeListBuckets h \<and> blockSize h' = blockSize h \<and>
     nextBlock h' = nextBlock h \<and> baseBlock h' = baseBlock h \<and> allocated h' = allocated (h :: vm_heap)"
  "adjustHeapSize g = Inr g' \<Longrightarrow> freeListBuckets g' = freeListBuckets g \<and> blockSize g' = blockSize g \<and>
     nextBlock g' = nextBlock g \<and> baseBlock g' = baseBlock g \<and> allocated g' = allocated (g :: vm_heap)"
  by (auto simp: computeGCThreshold_def adjustHeapSize_def Let_def split: if_splits option.splits)

lemma getMoreMemory_fields:
  "getMoreMemory sys sz h = Inr (p, h') \<Longrightarrow> p = sys \<and> freeListBuckets h' = freeListBuckets h \<and> blockSize h' = blockSize h \<and>
     nextBlock h' = nextBlock h \<and> baseBlock h' = baseBlock h \<and> allocated h' = allocated h"
  by (auto simp: getMoreMemory_def Let_def and_then_Inr_iff dest!: config_fields split: if_splits)

lemma heap_inv_add:
  assumes "heap_inv h B" "\<forall>a. covers b a \<longrightarrow> owners B a = 0 \<and> \<not> covers (baseBlock h, unat (blockSize h)) a"
  shows "heap_inv h (add_mset b B)"
proof -
  have "covers (baseBlock h, unat (blockSize h)) a" if "covers (nextBlock h, unat (blockSize h) - unat (allocated h)) a" for a
    using that assms(1) by (auto simp: heap_inv_def covers_def word_le_nat_alt)
  then have "\<not> covers b a" if "covers (nextBlock h, unat (blockSize h) - unat (allocated h)) a" for a
    using that assms(2) by blast
  then show ?thesis using assms by (auto simp: heap_inv_def)
qed

lemma getMemory_inv:
  assumes "getMemory sys sz h = Inr (p, h')" "heap_inv h B" "unat sz \<le> 2 ^ 62"
    and "\<forall>a. covers (sys, unat sz) a \<longrightarrow> owners B a = 0 \<and> \<not> covers (baseBlock h, unat (blockSize h)) a"
  shows "heap_inv h' (add_mset (p, unat sz) B) \<and> freeListBuckets h' = freeListBuckets h"
proof (cases "allocated h + sz > blockSize h")
  case True
  then have "getMoreMemory sys sz h = Inr (p, h')" using assms(1) by (simp add: getMemory_def)
  note f = getMoreMemory_fields[OF this]
  then have "heap_inv h' B" using assms(2) by (simp add: heap_inv_def)
  then show ?thesis using f assms(4) heap_inv_add[of h' B "(sys, unat sz)"] by simp
next
  case False
  have al: "unat (allocated h) \<le> unat (blockSize h)" "unat (blockSize h) \<le> 2 ^ 63"
    using assms(2) by (simp_all add: heap_inv_def word_le_nat_alt)
  then have u: "unat (allocated h + sz) = unat (allocated h) + unat sz"
    using assms(3) by (simp add: unat_word_ariths)
  then have fits: "unat (allocated h) + unat sz \<le> unat (blockSize h)" using False by (simp add: word_less_nat_alt)
  have h': "p = nextBlock h" "h' = h\<lparr>nextBlock := nextBlock h + unat sz, allocated := allocated h + sz\<rparr>"
    using assms(1) False by (auto simp: getMemory_def)
  have c: "covers (nextBlock h, unat (blockSize h) - unat (allocated h)) a" if "covers (nextBlock h, unat sz) a" for a
    using that fits by (auto simp: covers_def)
  have c': "covers (nextBlock h, unat (blockSize h) - unat (allocated h)) a \<and> \<not> covers (nextBlock h, unat sz) a"
    if "covers (nextBlock h + unat sz, unat (blockSize h) - (unat (allocated h) + unat sz)) a" for a
    using that fits by (auto simp: covers_def)
  show ?thesis using assms(2) c c' u fits unfolding h'
    by (auto simp: heap_inv_def word_le_nat_alt)
qed

lemma heap_inv_sub: "heap_inv h (add_mset b B) \<Longrightarrow> heap_inv h B"
  unfolding heap_inv_def by (metis Suc_leD less_eq_nat.simps(1) owners_simps(2) le_0_eq)

lemma in_use_inv: "in_use h live \<Longrightarrow> heap_inv h (free_blocks h + live_blocks live)"
proof (induction rule: in_use.induct)
  case (start sys h0 h)
  then show ?case
    by (auto simp: mem_init_def and_then_Inr_iff heap_inv_def free_blocks_def live_blocks_def split: if_splits)
next
  case (malloc h live sz sys p h')
  let ?b = "unat (bucketFor sz)"
  note bounds = bucketFor_bounds[OF malloc(2,3)]
  show ?case
  proof (cases "bucketFor sz < MaxBuckets")
    case False
    then have "p = sys" "h' = h" "block_length sz = unat sz" using malloc(2,5) by (simp_all add: mem_malloc_def block_length_def)
    moreover have "heap_inv h (add_mset (sys, block_length sz) (free_blocks h + live_blocks live))"
      using malloc(4) by (intro heap_inv_add[OF malloc(6)]) (auto simp: sys_fresh_def)
    ultimately show ?thesis by (simp add: live_blocks_def)
  next
    case True
    note len = bucket_length[OF True]
    then have bl: "block_length sz = ?b * 16" using True by (simp add: block_length_def)
    show ?thesis
    proof (cases "freeListBuckets h ?b")
      case (Cons q qs)
      then have h': "p = q" "h' = h\<lparr>freeListBuckets := (freeListBuckets h)(?b := qs)\<rparr>"
        using malloc(2,5) True by (simp_all add: mem_malloc_def Let_def)
      have "free_blocks h' + image_mset (\<lambda>p. (p, ?b * 16)) (mset (q # qs)) = free_blocks h + image_mset (\<lambda>p. (p, ?b * 16)) (mset qs)"
        using free_blocks_update[of ?b h qs] len Cons unfolding h' by simp
      then have "add_mset (p, ?b * 16) (free_blocks h') = free_blocks h" unfolding h'(1) by simp
      then have B: "free_blocks h' + live_blocks (add_mset (p, sz) live) = free_blocks h + live_blocks live"
        by (simp add: live_blocks_def bl flip: union_mset_add_mset_left)
      show ?thesis unfolding B using malloc(6) unfolding h' by (simp add: heap_inv_def)
    next
      case Nil
      let ?h = "h\<lparr>allocatedInFreeList := allocatedInFreeList h + bucketFor sz * AllocGranularity\<rparr>"
      have g: "getMemory sys (bucketFor sz * AllocGranularity) ?h = Inr (p, h')"
        using malloc(2,5) True Nil by (simp add: mem_malloc_def Let_def)
      have fb: "free_blocks ?h = free_blocks h" by (simp add: free_blocks_def)
      have "heap_inv ?h (free_blocks h + live_blocks live)" using malloc(6) by (simp add: heap_inv_def)
      from getMemory_inv[OF g this] malloc(4) len
      have r: "heap_inv h' (add_mset (p, ?b * 16) (free_blocks h + live_blocks live))" "freeListBuckets h' = freeListBuckets h"
        by (auto simp: sys_fresh_def bl)
      moreover have "free_blocks h' = free_blocks h" using r(2) by (simp add: free_blocks_def)
      ultimately show ?thesis by (simp add: live_blocks_def bl)
    qed
  qed
next
  case (free h p sz live)
  let ?b = "unat (bucketFor sz)"
  have B: "heap_inv h (add_mset (p, block_length sz) (free_blocks h + live_blocks live))"
    using free(2) by (simp add: live_blocks_def)
  show ?case
  proof (cases "sz \<noteq> 0 \<and> bucketFor sz < MaxBuckets")
    case True
    note len = bucket_length[OF conjunct2[OF True]]
    have h': "mem_free p sz h = h\<lparr>freeListBuckets := (freeListBuckets h)(?b := p # freeListBuckets h ?b)\<rparr>"
      using True by (simp add: mem_free_def Let_def)
    have "free_blocks (mem_free p sz h) = add_mset (p, ?b * 16) (free_blocks h)"
      using free_blocks_update[of ?b h "p # freeListBuckets h ?b"] len unfolding h' by simp
    moreover have "block_length sz = ?b * 16" using True len by (simp add: block_length_def)
    ultimately show ?thesis using B unfolding h' by (simp add: heap_inv_def)
  next
    case False
    then have "mem_free p sz h = h" by (auto simp: mem_free_def Let_def)
    then show ?thesis using heap_inv_sub[OF B] by simp
  qed
qed

lemma in_use_length: "in_use h live \<Longrightarrow> x \<in># live \<Longrightarrow> unat (snd x) \<le> block_length (snd x)"
proof (induction arbitrary: rule: in_use.induct)
  case (malloc h live sz sys p h')
  have "unat sz \<le> block_length sz"
    using bucketFor_bounds[OF malloc(2,3)] bucket_length[of sz] by (simp add: block_length_def)
  then show ?case using malloc by auto
qed auto

section \<open>Properties\<close>

text \<open>C12. No byte of memory belongs to two blocks in use, and a block is at least as long as was
  requested, whatever was requested and freed since the heap was initialised, from the free lists, the
  heap and the C library.\<close>

theorem blocks_disjoint:
  assumes "in_use h live"
  shows "owners (live_blocks live) a \<le> 1 \<and> (\<forall>x\<in>#live. unat (snd x) \<le> block_length (snd x))"
proof -
  have "owners (free_blocks h + live_blocks live) a \<le> 1" using in_use_inv[OF assms] by (simp add: heap_inv_def)
  then show ?thesis using in_use_length[OF assms] by auto
qed

theorem blocks_disjoint_witness:
  "owners (live_blocks {#(4128, 40), (4096, 24)#}) 4100 \<le> 1"
proof -
  let ?c = "\<lparr>heapSize = 1024, minimalHeapSize = 1024, maximalHeapSize = 4096, desiredFreeMemPercentageAfterGC = 75,
    gcThreshold = 900, maxGCThreshold = 900, gcThresholdTolerance = 10\<rparr>"
  obtain h where h: "mem_init 4096 (vm_heap_of ?c) = Inr h" "heapSize (vm_heap_of ?c) = 1024"
      "baseBlock h = 4096" "nextBlock h = 4096" "blockSize h = 1024" "allocated h = 0" "freeListBuckets h = (\<lambda>_. [])"
    by (simp add: mem_init_def vm_heap_of_def heap_config.defs)
  have u: "in_use h {#}" by (rule in_use.start[OF h(1)]) (simp add: h)
  obtain h1 where h1: "mem_malloc 9000 24 h = Inr (4096, h1)" "baseBlock h1 = 4096" "nextBlock h1 = 4128" "blockSize h1 = 1024"
      "allocated h1 = 32" "freeListBuckets h1 = (\<lambda>_. [])"
    by (simp add: mem_malloc_def bucketFor_def AllocGranularity_def MaxBuckets_def getMemory_def Let_def h)
  have l: "block_length 24 = 32" "block_length 40 = 48"
    by (simp_all add: block_length_def bucketFor_def AllocGranularity_def MaxBuckets_def)
  have u1: "in_use h1 {#(4096, 24)#}"
    by (rule in_use.malloc[OF u _ _ _ h1(1)])
      (simp_all add: sys_fresh_def covers_def free_blocks_def live_blocks_def h h1 l)
  obtain h2 where h2: "mem_malloc 9000 40 h1 = Inr (4128, h2)"
    by (simp add: mem_malloc_def bucketFor_def AllocGranularity_def MaxBuckets_def getMemory_def Let_def h1)
  have "in_use h2 {#(4128, 40), (4096, 24)#}"
    by (rule in_use.malloc[OF u1 _ _ _ h2]) (simp_all add: sys_fresh_def covers_def free_blocks_def live_blocks_def h1 l)
  from blocks_disjoint[OF this] show ?thesis by blast
qed



text \<open>The property \<open>gc.free\<close> takes any percentage: \<open>100\<close> makes the next computation of the
  threshold divide by zero, and above that the threshold becomes zero, so that a collection is always
  required and the loop of the machine that collects never ends.\<close>

theorem gc_free_unchecked:
  "computeGCThreshold active (set_gc_free 100 h) = Inl DividedByZero \<and>
   computeGCThreshold 1000000 (set_gc_free 101 (h :: vm_heap)) = Inr (h\<lparr>desiredFreeMemPercentageAfterGC := 101, gcThreshold := 0\<rparr>) \<and>
   isGCRequired True (h\<lparr>desiredFreeMemPercentageAfterGC := 101, gcThreshold := 0\<rparr>)"
  by (simp add: computeGCThreshold_def set_gc_free_def isGCRequired_def min_def)

end
