(* ===== verification/Spaces.thy ===== *)
theory Spaces
  imports Scheduling
begin

text \<open>
  Computation spaces (\<open>vm/vm/main/space-decl.hh\<close>, \<open>space.hh\<close>) and the threads in them
  (\<open>runnable-decl.hh\<close>, \<open>runnable.hh\<close>): the tree of the spaces, the counters that detect
  stability, the status variable. Spaces and threads are numbered in the order of their creation. A
  result \<open>None\<close> is a failed assertion. Of the bindings of a space (trail
  and script) the model keeps whether there are any.
\<close>

section \<open>State\<close>

type_synonym space_id = nat

datatype Status = ssReference | ssNormal | ssFailed

datatype status_value =
    StatusUnbound
  | StatusSucceeded bool     \<comment> \<open>\<open>entailed\<close>, otherwise \<open>stuck\<close>\<close>
  | StatusAlternatives int
  | StatusFailed
  | StatusMerged

record space =
  s_parent :: space_id
  s_top :: bool
  s_status :: Status
  s_reference :: space_id
  s_mark :: bool
  s_statusVar :: status_value
  s_distributor :: "int option"     \<comment> \<open>the number of alternatives\<close>
  s_trailEmpty :: bool
  threadCount :: int
  cascadedRunnableThreadCount :: int

record runnable =
  r_space :: space_id
  r_priority :: ThreadPriority
  r_runnable :: bool
  r_terminated :: bool
  r_dead :: bool

record machine =
  spaces :: "space_id \<Rightarrow> space"
  nextSpace :: nat
  runnables :: "thread_id \<Rightarrow> runnable"
  nextThread :: nat
  threadPool :: thread_pool
  currentSpace :: space_id
  currentThread :: "thread_id option"

abbreviation (input) upd_space :: "space_id \<Rightarrow> (space \<Rightarrow> space) \<Rightarrow> machine \<Rightarrow> machine" where
  "upd_space s f m \<equiv> m\<lparr>spaces := (spaces m)(s := f (spaces m s))\<rparr>"

abbreviation (input) upd_thread :: "thread_id \<Rightarrow> (runnable \<Rightarrow> runnable) \<Rightarrow> machine \<Rightarrow> machine" where
  "upd_thread t f m \<equiv> m\<lparr>runnables := (runnables m)(t := f (runnables m t))\<rparr>"

abbreviation status :: "machine \<Rightarrow> space_id \<Rightarrow> Status" where
  "status m s \<equiv> s_status (spaces m s)"

abbreviation cascaded :: "machine \<Rightarrow> space_id \<Rightarrow> int" where
  "cascaded m s \<equiv> cascadedRunnableThreadCount (spaces m s)"

section \<open>The tree\<close>

text \<open>A merged space is a reference to its destination; \<open>None\<close> if the loop does not end.\<close>

partial_function (option) space_deref :: "machine \<Rightarrow> space_id \<Rightarrow> space_id option" where
  "space_deref m s = (if status m s = ssReference then space_deref m (s_reference (spaces m s)) else Some s)"

text \<open>\<open>Some None\<close> for the top-level space.\<close>

definition getParent :: "machine \<Rightarrow> space_id \<Rightarrow> space_id option option" where
  "getParent m s =
     (if s_top (spaces m s) then Some None else map_option Some (space_deref m (s_parent (spaces m s))))"

partial_function (option) isAlive :: "machine \<Rightarrow> space_id \<Rightarrow> bool option" where
  "isAlive m s =
     (if s_top (spaces m s) then Some True
      else if status m s = ssFailed then Some False
      else (case getParent m s of Some (Some p) \<Rightarrow> isAlive m p | _ \<Rightarrow> None))"

partial_function (option) isAncestor :: "machine \<Rightarrow> space_id \<Rightarrow> space_id \<Rightarrow> bool option" where
  "isAncestor m s potentialAncestor =
     (if s = potentialAncestor then Some True
      else (case getParent m s of
              Some None \<Rightarrow> Some False
            | Some (Some p) \<Rightarrow> isAncestor m p potentialAncestor
            | None \<Rightarrow> None))"

definition isAdmissible :: "machine \<Rightarrow> space_id \<Rightarrow> space_id \<Rightarrow> bool option" where
  "isAdmissible m s current =
     (if getParent m s = Some (Some current) then Some True
      else map_option Not (isAncestor m current s))"

text \<open>Marking the ancestors of one space and climbing from the other.\<close>

partial_function (option) mark_ancestors :: "bool \<Rightarrow> machine \<Rightarrow> space_id \<Rightarrow> machine option" where
  "mark_ancestors b m s =
     (let m' = upd_space s (\<lambda>sp. sp\<lparr>s_mark := b\<rparr>) m
      in case getParent m s of
           Some None \<Rightarrow> Some m'
         | Some (Some p) \<Rightarrow> mark_ancestors b m' p
         | None \<Rightarrow> None)"

partial_function (option) first_marked :: "machine \<Rightarrow> space_id \<Rightarrow> space_id option" where
  "first_marked m s =
     (if s_mark (spaces m s) then Some s
      else (case getParent m s of Some (Some p) \<Rightarrow> first_marked m p | _ \<Rightarrow> None))"

definition findCommonAncestor :: "machine \<Rightarrow> space_id \<Rightarrow> space_id \<Rightarrow> (space_id \<times> machine) option" where
  "findCommonAncestor m s other =
     (case mark_ancestors True m other of
        None \<Rightarrow> None
      | Some m1 \<Rightarrow>
          (case first_marked m1 s of
             None \<Rightarrow> None
           | Some r \<Rightarrow> map_option (\<lambda>m2. (r, m2)) (mark_ancestors False m1 other)))"

section \<open>Counting threads\<close>

definition incThreadCount :: "space_id \<Rightarrow> int \<Rightarrow> machine \<Rightarrow> machine option" where
  "incThreadCount s n m =
     (if status m s = ssFailed \<or> n < 0 then None
      else Some (upd_space s (\<lambda>sp. sp\<lparr>threadCount := threadCount sp + n\<rparr>) m))"

definition decThreadCount :: "space_id \<Rightarrow> machine \<Rightarrow> machine option" where
  "decThreadCount s m =
     (if status m s = ssFailed \<or> threadCount (spaces m s) \<le> 0 then None
      else Some (upd_space s (\<lambda>sp. sp\<lparr>threadCount := threadCount sp - 1\<rparr>) m))"

definition getThreadCount :: "machine \<Rightarrow> space_id \<Rightarrow> int option" where
  "getThreadCount m s =
     (if status m s = ssFailed \<or> threadCount (spaces m s) < 0 then None else Some (threadCount (spaces m s)))"

definition hasRunnableThreads :: "machine \<Rightarrow> space_id \<Rightarrow> bool" where
  "hasRunnableThreads m s \<longleftrightarrow> cascaded m s > 0"

definition isStable :: "machine \<Rightarrow> space_id \<Rightarrow> bool" where
  "isStable m s \<longleftrightarrow> \<not> hasRunnableThreads m s \<and> s_trailEmpty (spaces m s)"


partial_function (option) incRunnableThreadCount :: "space_id \<Rightarrow> machine \<Rightarrow> machine option" where
  "incRunnableThreadCount s m =
     (if s_top (spaces m s) then Some m
      else
        (let old = cascaded m s;
             m = upd_space s (\<lambda>sp. sp\<lparr>cascadedRunnableThreadCount := old + 1\<rparr>) m
         in if old = 0 then
              (case getParent m s of Some (Some p) \<Rightarrow> incRunnableThreadCount p m | _ \<Rightarrow> None)
            else Some m))"

section \<open>Threads\<close>

text \<open>The constructor: a new thread is suspended.\<close>

definition new_runnable :: "space_id \<Rightarrow> ThreadPriority \<Rightarrow> machine \<Rightarrow> (thread_id \<times> machine) option" where
  "new_runnable s priority m =
     (let t = nextThread m;
          m = m\<lparr>nextThread := Suc t, runnables := (runnables m)(t :=
                \<lparr>r_space = s, r_priority = priority, r_runnable = False, r_terminated = False, r_dead = False\<rparr>)\<rparr>
      in Option.bind (space_deref m s) (\<lambda>s. map_option (\<lambda>m. (t, m)) (incThreadCount s 1 m)))"

definition thread_space :: "machine \<Rightarrow> thread_id \<Rightarrow> space_id option" where
  "thread_space m t = space_deref m (r_space (runnables m t))"

definition notifyThreadResumed :: "space_id \<Rightarrow> machine \<Rightarrow> machine option" where
  "notifyThreadResumed s m = (if s_top (spaces m s) then Some m else incRunnableThreadCount s m)"

definition schedule_thread :: "thread_id \<Rightarrow> machine \<Rightarrow> machine option" where
  "schedule_thread t m =
     (if \<not> r_runnable (runnables m t) then None
      else map_option (\<lambda>p. m\<lparr>threadPool := p\<rparr>) (schedule t (r_priority (runnables m t)) (threadPool m)))"

definition resume_thread :: "bool \<Rightarrow> thread_id \<Rightarrow> machine \<Rightarrow> machine option" where
  "resume_thread skipSchedule t m =
     (let r = runnables m t
      in if r_dead r \<or> r_terminated r \<or> r_runnable r then None
         else Option.bind (thread_space m t) (\<lambda>s.
              Option.bind (notifyThreadResumed s (upd_thread t (\<lambda>r. r\<lparr>r_runnable := True\<rparr>) m)) (\<lambda>m.
              if skipSchedule then Some m else schedule_thread t m)))"

text \<open>\<open>DummyThread\<close>: a thread that may be resumed and suspended at any time.\<close>

definition dummy_resume :: "thread_id \<Rightarrow> machine \<Rightarrow> machine option" where
  "dummy_resume t m =
     (if \<not> r_runnable (runnables m t) \<and> \<not> r_terminated (runnables m t) then resume_thread False t m else Some m)"

definition new_dummy_thread :: "space_id \<Rightarrow> bool \<Rightarrow> machine \<Rightarrow> (thread_id \<times> machine) option" where
  "new_dummy_thread s createSuspended m =
     Option.bind (new_runnable s tpMiddle m) (\<lambda>(t, m).
       if createSuspended then Some (t, m) else map_option (\<lambda>m. (t, m)) (dummy_resume t m))"

partial_function (option) decRunnableThreadCount :: "space_id \<Rightarrow> machine \<Rightarrow> machine option" where
  "decRunnableThreadCount s m =
     (if s_top (spaces m s) then Some m
      else
        (let new = cascaded m s - 1;
             m = upd_space s (\<lambda>sp. sp\<lparr>cascadedRunnableThreadCount := new\<rparr>) m
         in if new = 0 then
              (case (if isStable m s then map_option snd (new_dummy_thread s False m) else Some m) of
                 None \<Rightarrow> None
               | Some m \<Rightarrow>
                   (case getParent m s of Some (Some p) \<Rightarrow> decRunnableThreadCount p m | _ \<Rightarrow> None))
            else Some m))"

definition notifyThreadSuspended :: "space_id \<Rightarrow> machine \<Rightarrow> machine option" where
  "notifyThreadSuspended s m = (if s_top (spaces m s) then Some m else decRunnableThreadCount s m)"

definition suspend_thread :: "bool \<Rightarrow> thread_id \<Rightarrow> machine \<Rightarrow> machine option" where
  "suspend_thread skipUnschedule t m =
     (let r = runnables m t
      in if r_dead r \<or> r_terminated r \<or> \<not> r_runnable r then None
         else Option.bind (thread_space m t) (\<lambda>s.
              Option.bind (notifyThreadSuspended s (upd_thread t (\<lambda>r. r\<lparr>r_runnable := False\<rparr>) m)) (\<lambda>m.
              Some (if skipUnschedule then m else m\<lparr>threadPool := unschedule t (threadPool m)\<rparr>))))"

definition setPriority :: "ThreadPriority \<Rightarrow> thread_id \<Rightarrow> machine \<Rightarrow> machine option" where
  "setPriority priority t m =
     (if priority = r_priority (runnables m t) then Some m
      else (let m = upd_thread t (\<lambda>r. r\<lparr>r_priority := priority\<rparr>) m
            in if r_runnable (runnables m t) \<and> currentThread m \<noteq> Some t then
                 map_option (\<lambda>p. m\<lparr>threadPool := p\<rparr>) (reschedule t priority (threadPool m))
               else Some m))"

definition dispose_thread :: "thread_id \<Rightarrow> machine \<Rightarrow> machine" where
  "dispose_thread t m = upd_thread t (\<lambda>r. r\<lparr>r_runnable := False, r_dead := True\<rparr>) m"

definition kill_thread :: "thread_id \<Rightarrow> machine \<Rightarrow> machine option" where
  "kill_thread t m =
     (if r_dead (runnables m t) \<or> r_terminated (runnables m t) then None else Some (dispose_thread t m))"

section \<open>Deinstallation\<close>

text \<open>
  Emptying the trail. A space without runnable threads gets a suspended thread that watches the
  variables of its bindings, if there are any: \<open>watch\<close>.
\<close>

definition deinstallThis :: "(space_id \<Rightarrow> bool) \<Rightarrow> space_id \<Rightarrow> machine \<Rightarrow> machine option" where
  "deinstallThis watch s m =
     (if s_trailEmpty (spaces m s) then Some m
      else Option.bind (if \<not> hasRunnableThreads m s \<and> watch s then map_option snd (new_dummy_thread s True m) else Some m)
             (\<lambda>m. Some (upd_space s (\<lambda>sp. sp\<lparr>s_trailEmpty := True\<rparr>) m)))"

partial_function (option) deinstallTo :: "(space_id \<Rightarrow> bool) \<Rightarrow> space_id \<Rightarrow> space_id \<Rightarrow> machine \<Rightarrow> machine option" where
  "deinstallTo watch s ancestor m =
     (if s = ancestor then Some m
      else (case deinstallThis watch s m of
              None \<Rightarrow> None
            | Some m \<Rightarrow>
                (case getParent m s of
                   Some (Some p) \<Rightarrow> deinstallTo watch p ancestor (m\<lparr>currentSpace := p\<rparr>)
                 | _ \<Rightarrow> None)))"

section \<open>Status\<close>

definition bindStatusVar :: "space_id \<Rightarrow> status_value \<Rightarrow> machine \<Rightarrow> machine option" where
  "bindStatusVar s v m =
     (if s_statusVar (spaces m s) \<noteq> StatusUnbound then None
      else Some (upd_space s (\<lambda>sp. sp\<lparr>s_statusVar := v\<rparr>) m))"

definition clearStatusVar :: "space_id \<Rightarrow> machine \<Rightarrow> machine" where
  "clearStatusVar s m = upd_space s (\<lambda>sp. sp\<lparr>s_statusVar := StatusUnbound\<rparr>) m"

text \<open>When a space that is not stable has no runnable thread, its variable is bound to a tuple of a new
  variable, which takes its place.\<close>

definition checkStability :: "(space_id \<Rightarrow> bool) \<Rightarrow> space_id \<Rightarrow> machine \<Rightarrow> machine option" where
  "checkStability watch s m =
     (if s_top (spaces m s) \<or> status m s \<noteq> ssNormal then None
      else case getParent m s of
        Some (Some parent) \<Rightarrow>
          (if isStable m s then
             (let m = m\<lparr>currentSpace := parent\<rparr>
              in case s_distributor (spaces m s) of
                   Some alternatives \<Rightarrow> bindStatusVar s (StatusAlternatives alternatives) m
                 | None \<Rightarrow> Option.bind (getThreadCount m s) (\<lambda>n. bindStatusVar s (StatusSucceeded (n = 0)) m))
           else
             Option.bind (deinstallTo watch s parent m) (\<lambda>m.
             if \<not> hasRunnableThreads m s then
               (if s_statusVar (spaces m s) \<noteq> StatusUnbound then None else Some m)
             else Some m))
      | _ \<Rightarrow> None)"

definition notifyThreadTerminated :: "(space_id \<Rightarrow> bool) \<Rightarrow> space_id \<Rightarrow> machine \<Rightarrow> machine option" where
  "notifyThreadTerminated watch s m =
     (if s_top (spaces m s) then Some m
      else if cascaded m s \<le> 0 then None
      else
        (let new = cascaded m s - 1;
             m = upd_space s (\<lambda>sp. sp\<lparr>cascadedRunnableThreadCount := new\<rparr>) m
         in Option.bind (if new = 0 then
                           (case getParent m s of Some (Some p) \<Rightarrow> decRunnableThreadCount p m | _ \<Rightarrow> None)
                         else Some m)
              (checkStability watch s)))"

definition terminate_thread :: "(space_id \<Rightarrow> bool) \<Rightarrow> thread_id \<Rightarrow> machine \<Rightarrow> machine option" where
  "terminate_thread watch t m =
     (let r = runnables m t
      in if r_dead r \<or> r_terminated r \<or> \<not> r_runnable r then None
         else Option.bind (thread_space m t) (\<lambda>s.
              Option.bind (notifyThreadTerminated watch s
                             (upd_thread t (\<lambda>r. r\<lparr>r_runnable := False, r_terminated := True\<rparr>) m)) (\<lambda>m.
              Some (dispose_thread t m))))"

section \<open>Operations on spaces\<close>

definition new_space :: "space_id \<Rightarrow> machine \<Rightarrow> space_id \<times> machine" where
  "new_space parent m =
     (let s = nextSpace m
      in (s, m\<lparr>nextSpace := Suc s, spaces := (spaces m)(s :=
            \<lparr>s_parent = parent, s_top = False, s_status = ssNormal, s_reference = 0, s_mark = False,
             s_statusVar = StatusUnbound, s_distributor = None, s_trailEmpty = True, threadCount = 0,
             cascadedRunnableThreadCount = 0\<rparr>)\<rparr>))"

definition new_machine :: machine where
  "new_machine = \<lparr>spaces = (\<lambda>_. \<lparr>s_parent = 0, s_top = True, s_status = ssNormal, s_reference = 0, s_mark = False,
       s_statusVar = StatusUnbound, s_distributor = None, s_trailEmpty = True, threadCount = 0,
       cascadedRunnableThreadCount = 0\<rparr>), nextSpace = 1,
     runnables = (\<lambda>_. \<lparr>r_space = 0, r_priority = tpMiddle, r_runnable = False, r_terminated = True, r_dead = True\<rparr>),
     nextThread = 0, threadPool = new_pool, currentSpace = 0, currentThread = None\<rparr>"

definition fail_space :: "space_id \<Rightarrow> machine \<Rightarrow> machine option" where
  "fail_space s m =
     (if s_top (spaces m s) then None
      else case getParent m s of
        Some (Some parent) \<Rightarrow>
          Option.bind (decRunnableThreadCount parent (upd_space s (\<lambda>sp. sp\<lparr>s_status := ssFailed\<rparr>) m)) (\<lambda>m.
          bindStatusVar s StatusFailed ((upd_space s (\<lambda>sp. sp\<lparr>s_trailEmpty := True\<rparr>) m)\<lparr>currentSpace := parent\<rparr>))
      | _ \<Rightarrow> None)"

definition kill_space :: "space_id \<Rightarrow> machine \<Rightarrow> machine option" where
  "kill_space s m =
     (if s_top (spaces m s) then None
      else case getParent m s of
        Some (Some parent) \<Rightarrow>
          Option.bind (decRunnableThreadCount parent (upd_space s (\<lambda>sp. sp\<lparr>s_status := ssFailed\<rparr>) m)) (\<lambda>m.
          if currentSpace m \<noteq> parent then None else bindStatusVar s StatusFailed (clearStatusVar s m))
      | _ \<Rightarrow> None)"

text \<open>
  \<open>unifies\<close>: the constraints of the source hold in the destination. The code keeps \<open>_parent\<close> and
  \<open>_reference\<close> in one union; \<open>mergeSpace\<close> merges a space into its parent only, so they agree. Waking
  the threads that wait for a status variable is a later request to resume them.
\<close>

definition merge_space :: "bool \<Rightarrow> space_id \<Rightarrow> space_id \<Rightarrow> machine \<Rightarrow> (bool \<times> machine) option" where
  "merge_space unifies src dest m =
     (if currentSpace m \<noteq> dest then None
      else
        (let m = upd_space src (\<lambda>sp. sp\<lparr>s_status := ssReference, s_reference := dest\<rparr>) m
         in Option.bind
              (if s_top (spaces m dest) then Some m
               else if threadCount (spaces m src) < 0 then None
               else Option.bind (incThreadCount dest (threadCount (spaces m src)) m) (\<lambda>m.
                    Some (if cascaded m src > 0 then
                            upd_space dest (\<lambda>sp. sp\<lparr>cascadedRunnableThreadCount :=
                              cascadedRunnableThreadCount sp + (cascaded m src - 1)\<rparr>) m
                          else m)))
              (\<lambda>m. if unifies then Some (True, m) else map_option (\<lambda>m. (False, m)) (fail_space src m))))"

text \<open>\<open>ChooseDistributor::commit\<close>: the thread that will bind the choice is started in the space.\<close>

definition choose_commit :: "space_id \<Rightarrow> int \<Rightarrow> int \<Rightarrow> machine \<Rightarrow> (int \<times> machine) option" where
  "choose_commit s alternatives value m =
     (if value > alternatives then Some (- value, m)
      else Option.bind (new_runnable s tpMiddle m) (\<lambda>(t, m). map_option (\<lambda>m. (0, m)) (resume_thread False t m)))"

definition commit_space :: "space_id \<Rightarrow> int \<Rightarrow> machine \<Rightarrow> (int \<times> machine) option" where
  "commit_space s value m =
     (case s_distributor (spaces m s) of
        None \<Rightarrow> None
      | Some alternatives \<Rightarrow>
          Option.bind (choose_commit s alternatives value m) (\<lambda>(r, m).
          Some (r, if r \<ge> 0 then
                     (let m = clearStatusVar s m
                      in if r = 0 then upd_space s (\<lambda>sp. sp\<lparr>s_distributor := None\<rparr>) m else m)
                   else m)))"

declare space_deref.simps [code] isAlive.simps [code] isAncestor.simps [code] mark_ancestors.simps [code]
  first_marked.simps [code] incRunnableThreadCount.simps [code] decRunnableThreadCount.simps [code] deinstallTo.simps [code]

section \<open>The tree is well formed\<close>

text \<open>Spaces are created after their parents and merged into older ones.\<close>

definition tree_ok :: "machine \<Rightarrow> bool" where
  "tree_ok m \<longleftrightarrow> 0 < nextSpace m \<and> status m 0 = ssNormal \<and>
     (\<forall>s < nextSpace m. (s_top (spaces m s) \<longleftrightarrow> s = 0) \<and> (s \<noteq> 0 \<longrightarrow> s_parent (spaces m s) < s) \<and>
        (status m s = ssReference \<longrightarrow> s_reference (spaces m s) < s)) \<and>
     (\<forall>t < nextThread m. r_space (runnables m t) < nextSpace m) \<and>
     (\<forall>t. isScheduled t (threadPool m) \<longrightarrow> t < nextThread m)"

lemma tree_okD:
  assumes "tree_ok m" "s < nextSpace m"
  shows "s_top (spaces m s) \<longleftrightarrow> s = 0" "s \<noteq> 0 \<Longrightarrow> s_parent (spaces m s) < s"
    "status m s = ssReference \<Longrightarrow> s_reference (spaces m s) < s"
  using assms by (auto simp: tree_ok_def)

lemma space_deref_total:
  assumes "tree_ok m" "s < nextSpace m"
  shows "\<exists>r. space_deref m s = Some r \<and> r \<le> s \<and> status m r \<noteq> ssReference"
  using assms(2)
proof (induction s rule: less_induct)
  case (less s)
  show ?case
  proof (cases "status m s = ssReference")
    case True
    then have "s_reference (spaces m s) < s" using tree_okD[OF assms(1) less.prems] by simp
    then show ?thesis using less True by (fastforce simp: space_deref.simps[of m s])
  qed (simp add: space_deref.simps[of m s])
qed

lemma space_deref_normal: "status m s \<noteq> ssReference \<Longrightarrow> space_deref m s = Some s"
  by (simp add: space_deref.simps)

definition rep :: "machine \<Rightarrow> space_id \<Rightarrow> space_id" where
  "rep m s = the (space_deref m s)"

lemma rep_props:
  assumes "tree_ok m" "s < nextSpace m"
  shows "space_deref m s = Some (rep m s)" "rep m s \<le> s" "rep m s < nextSpace m" "status m (rep m s) \<noteq> ssReference"
  using space_deref_total[OF assms] assms(2) by (auto simp: rep_def)

lemma getParent_rep:
  assumes "tree_ok m" "s < nextSpace m" "s \<noteq> 0"
  shows "getParent m s = Some (Some (rep m (s_parent (spaces m s))))" "rep m (s_parent (spaces m s)) < s"
proof -
  have p: "s_parent (spaces m s) < s" "s_parent (spaces m s) < nextSpace m" using tree_okD[OF assms(1,2)] assms(2,3) by auto
  then show "getParent m s = Some (Some (rep m (s_parent (spaces m s))))" "rep m (s_parent (spaces m s)) < s"
    using tree_okD[OF assms(1,2)] rep_props[OF assms(1) p(2)] assms(3) by (auto simp: getParent_def)
qed

text \<open>A space all of whose ancestors are normal.\<close>

inductive alive :: "machine \<Rightarrow> space_id \<Rightarrow> bool" where
  top: "alive m 0"
| sub: "s \<noteq> 0 \<Longrightarrow> status m s = ssNormal \<Longrightarrow> alive m (rep m (s_parent (spaces m s))) \<Longrightarrow> alive m s"

lemma alive_normal: "alive m s \<Longrightarrow> tree_ok m \<Longrightarrow> status m s = ssNormal"
  by (auto simp: tree_ok_def elim: alive.cases)

lemma isAlive_alive:
  assumes "tree_ok m" "s < nextSpace m" "status m s \<noteq> ssReference"
  shows "isAlive m s = Some (alive m s)"
  using assms(2,3)
proof (induction s rule: less_induct)
  case (less s)
  show ?case
  proof (cases "s = 0")
    case True
    then show ?thesis using tree_okD[OF assms(1) less.prems(1)] by (simp add: isAlive.simps[of m 0] alive.top)
  next
    case False
    let ?p = "rep m (s_parent (spaces m s))"
    note gp = getParent_rep[OF assms(1) less.prems(1) False]
    have "s_parent (spaces m s) < nextSpace m" using tree_okD(2)[OF assms(1) less.prems(1) False] less.prems(1) by simp
    then have "isAlive m ?p = Some (alive m ?p)"
      using less.IH[OF gp(2)] rep_props[OF assms(1)] by blast
    moreover have "alive m s \<longleftrightarrow> status m s = ssNormal \<and> alive m ?p"
      using False by (auto elim: alive.cases intro: alive.sub)
    moreover have "status m s = ssFailed \<or> status m s = ssNormal" using less.prems(2) by (cases "status m s") auto
    ultimately show ?thesis
      using tree_okD[OF assms(1) less.prems(1)] False gp by (auto simp: isAlive.simps[of m s])
  qed
qed

section \<open>What the counters count\<close>

definition running_in :: "machine \<Rightarrow> space_id \<Rightarrow> thread_id set" where
  "running_in m s = {t. t < nextThread m \<and> r_runnable (runnables m t) \<and> rep m (r_space (runnables m t)) = s}"

definition active_children :: "machine \<Rightarrow> space_id \<Rightarrow> space_id set" where
  "active_children m s = {c. c < nextSpace m \<and> c \<noteq> 0 \<and> status m c = ssNormal \<and>
     rep m (s_parent (spaces m c)) = s \<and> cascaded m c > 0}"

lemma finite_counted [simp]: "finite (running_in m s)" "finite (active_children m s)"
  by (simp_all add: running_in_def active_children_def)

definition expected_count :: "machine \<Rightarrow> space_id \<Rightarrow> int" where
  "expected_count m s = int (card (running_in m s)) + int (card (active_children m s))"

text \<open>The counters are off by \<open>D\<close>.\<close>

definition off_by :: "(space_id \<Rightarrow> int) \<Rightarrow> machine \<Rightarrow> bool" where
  "off_by D m \<longleftrightarrow> (\<forall>s < nextSpace m. s \<noteq> 0 \<and> status m s = ssNormal \<longrightarrow> cascaded m s = expected_count m s + D s)"

definition nonneg_counts :: "machine \<Rightarrow> bool" where
  "nonneg_counts m \<longleftrightarrow> (\<forall>s < nextSpace m. s \<noteq> 0 \<and> status m s = ssNormal \<longrightarrow> 0 \<le> cascaded m s)"

text \<open>Machines that differ in the counters of runnable threads only.\<close>

definition same_but_counts :: "machine \<Rightarrow> machine \<Rightarrow> bool" where
  "same_but_counts m m' \<longleftrightarrow>
     (\<exists>f. m' = m\<lparr>spaces := (\<lambda>s. (spaces m s)\<lparr>cascadedRunnableThreadCount := f s\<rparr>)\<rparr>)"

lemma same_but_counts_refl: "same_but_counts m m"
  unfolding same_but_counts_def by (rule exI[of _ "cascaded m"]) simp

lemma same_but_counts_trans: "same_but_counts m m' \<Longrightarrow> same_but_counts m' m'' \<Longrightarrow> same_but_counts m m''"
  by (auto simp: same_but_counts_def)

lemma space_deref_mono:
  assumes "space_deref m s = Some r"
    and "\<And>s. (status m' s = ssReference) = (status m s = ssReference)" "\<And>s. s_reference (spaces m' s) = s_reference (spaces m s)"
  shows "space_deref m' s = Some r"
proof -
  have "(\<forall>s. (status m' s = ssReference) = (status m s = ssReference)) \<longrightarrow> (\<forall>s. s_reference (spaces m' s) = s_reference (spaces m s)) \<longrightarrow>
      space_deref m' s = Some r"
  proof (rule space_deref.raw_induct[OF _ assms(1), where P = "\<lambda>m s r. (\<forall>s. (status m' s = ssReference) = (status m s = ssReference)) \<longrightarrow>
          (\<forall>s. s_reference (spaces m' s) = s_reference (spaces m s)) \<longrightarrow> space_deref m' s = Some r"])
    fix sd m s r
    assume IH: "\<And>m s r. sd m s = Some r \<Longrightarrow> (\<forall>s. (status m' s = ssReference) = (status m s = ssReference)) \<longrightarrow>
        (\<forall>s. s_reference (spaces m' s) = s_reference (spaces m s)) \<longrightarrow> space_deref m' s = Some r"
      and eq: "(if status m s = ssReference then sd m (s_reference (spaces m s)) else Some s) = Some r"
    show "(\<forall>s. (status m' s = ssReference) = (status m s = ssReference)) \<longrightarrow>
        (\<forall>s. s_reference (spaces m' s) = s_reference (spaces m s)) \<longrightarrow> space_deref m' s = Some r"
      using eq IH[of m "s_reference (spaces m s)" r] by (auto simp: space_deref.simps[of m' s] split: if_splits)
  qed
  then show ?thesis using assms(2,3) by blast
qed

lemma space_deref_cong:
  assumes "\<And>s. (status m' s = ssReference) = (status m s = ssReference)" "\<And>s. s_reference (spaces m' s) = s_reference (spaces m s)"
  shows "space_deref m' s = space_deref m s"
proof (cases "space_deref m s")
  case None
  have "space_deref m' s \<noteq> Some r" for r using space_deref_mono[of m' s r m] None assms by auto
  then show ?thesis using None by (cases "space_deref m' s") auto
qed (use space_deref_mono[of m s _ m'] assms in simp)

lemma same_but_counts_fields:
  assumes "same_but_counts m m'"
  shows "status m' s = status m s" "s_parent (spaces m' s) = s_parent (spaces m s)" "s_top (spaces m' s) = s_top (spaces m s)"
    "s_trailEmpty (spaces m' s) = s_trailEmpty (spaces m s)" "s_reference (spaces m' s) = s_reference (spaces m s)"
    "nextSpace m' = nextSpace m" "runnables m' = runnables m" "nextThread m' = nextThread m"
    "threadPool m' = threadPool m" "currentSpace m' = currentSpace m"
    "rep m' s = rep m s" "running_in m' s = running_in m s" "getParent m' s = getParent m s"
    "threadCount (spaces m' s) = threadCount (spaces m s)"
proof -
  obtain f where f: "m' = m\<lparr>spaces := (\<lambda>s. (spaces m s)\<lparr>cascadedRunnableThreadCount := f s\<rparr>)\<rparr>"
    using assms by (auto simp: same_but_counts_def)
  then have d: "space_deref m' s = space_deref m s" for s by (intro space_deref_cong) simp_all
  show "status m' s = status m s" "s_parent (spaces m' s) = s_parent (spaces m s)" "s_top (spaces m' s) = s_top (spaces m s)"
    "s_trailEmpty (spaces m' s) = s_trailEmpty (spaces m s)" "s_reference (spaces m' s) = s_reference (spaces m s)"
    "nextSpace m' = nextSpace m" "runnables m' = runnables m" "nextThread m' = nextThread m"
    "threadPool m' = threadPool m" "currentSpace m' = currentSpace m"
    "threadCount (spaces m' s) = threadCount (spaces m s)" by (simp_all add: f)
  show "rep m' s = rep m s" by (simp add: rep_def d)
  show "running_in m' s = running_in m s" unfolding running_in_def rep_def d by (simp add: f)
  show "getParent m' s = getParent m s" unfolding getParent_def d by (simp add: f)
qed

lemma tree_ok_same:
  assumes "same_but_counts m m'"
  shows "tree_ok m' = tree_ok m"
  unfolding tree_ok_def same_but_counts_fields[OF assms] ..

lemma alive_tree:
  assumes "\<And>s. status m' s = status m s" "\<And>s. s_reference (spaces m' s) = s_reference (spaces m s)"
    "\<And>s. s_parent (spaces m' s) = s_parent (spaces m s)"
  shows "alive m s \<Longrightarrow> alive m' s"
proof (rule alive.induct[where P = "\<lambda>n s. n = m \<longrightarrow> alive m' s", THEN mp])
  fix s n
  assume a: "s \<noteq> 0" "status n s = ssNormal" "n = m \<longrightarrow> alive m' (rep n (s_parent (spaces n s)))"
  have r: "rep m' x = rep m x" for x unfolding rep_def space_deref_cong[OF arg_cong[where f = "\<lambda>x. x = ssReference", OF assms(1)] assms(2)] ..
  show "n = m \<longrightarrow> alive m' s"
  proof
    assume "n = m"
    then show "alive m' s" using a by (intro alive.sub[of s]) (simp_all add: assms r)
  qed
qed (simp_all add: alive.top)

lemma alive_same:
  assumes "same_but_counts m m'"
  shows "alive m s \<Longrightarrow> alive m' s"
proof (induction m\<equiv>m s rule: alive.induct)
  case (sub s)
  show ?case
    by (rule alive.sub) (use sub in \<open>simp_all add: same_but_counts_fields[OF assms]\<close>)
qed (rule alive.top)

text \<open>One counter set.\<close>

abbreviation (input) set_count :: "space_id \<Rightarrow> int \<Rightarrow> machine \<Rightarrow> machine" where
  "set_count s n m \<equiv> upd_space s (\<lambda>sp. sp\<lparr>cascadedRunnableThreadCount := n\<rparr>) m"

lemma same_set_count: "same_but_counts m (set_count s n m)"
proof -
  have "(spaces m)(s := (spaces m s)\<lparr>cascadedRunnableThreadCount := n\<rparr>) =
      (\<lambda>x. (spaces m x)\<lparr>cascadedRunnableThreadCount := if x = s then n else cascaded m x\<rparr>)" by (rule ext) simp
  then show ?thesis unfolding same_but_counts_def by (intro exI[of _ "\<lambda>x. if x = s then n else cascaded m x"]) simp
qed

lemma card_toggle:
  "finite A \<Longrightarrow> int (card (A - {s} \<union> (if b then {s} else {}))) = int (card A) + (if b then 1 else 0) - (if s \<in> A then 1 else 0)"
proof (cases "s \<in> A")
  case True
  assume "finite A"
  then have "0 < card A" using True card_gt_0_iff by blast
  then show ?thesis using True \<open>finite A\<close> by (auto simp: insert_absorb card_Diff_singleton)
next
  case False
  assume "finite A"
  then show ?thesis using False by simp
qed

lemma active_children_set_count:
  assumes "tree_ok m" "s < nextSpace m" "s \<noteq> 0" "status m s = ssNormal"
  shows "int (card (active_children (set_count s n m) x)) =
    int (card (active_children m x)) +
    (if x = rep m (s_parent (spaces m s)) then (if n > 0 then 1 else 0) - (if cascaded m s > 0 then 1 else 0) else 0)"
proof -
  let ?m = "set_count s n m" and ?b = "x = rep m (s_parent (spaces m s)) \<and> n > 0"
  have r: "rep ?m y = rep m y" for y by (rule same_but_counts_fields[OF same_set_count])
  have "active_children ?m x = active_children m x - {s} \<union> (if ?b then {s} else {})"
  proof (rule set_eqI)
    fix c
    show "c \<in> active_children ?m x \<longleftrightarrow> c \<in> active_children m x - {s} \<union> (if ?b then {s} else {})"
      unfolding active_children_def r using assms(2-4) by (cases "c = s") auto
  qed
  then have "int (card (active_children ?m x)) = int (card (active_children m x)) + (if ?b then 1 else 0) - (if s \<in> active_children m x then 1 else 0)"
    by (simp only: card_toggle finite_counted)
  moreover have "s \<in> active_children m x \<longleftrightarrow> x = rep m (s_parent (spaces m s)) \<and> cascaded m s > 0"
    using assms by (auto simp: active_children_def)
  ultimately show ?thesis by simp
qed

lemma off_by_set_count:
  assumes "tree_ok m" "s < nextSpace m" "s \<noteq> 0" "status m s = ssNormal" "off_by D m"
  defines "p \<equiv> rep m (s_parent (spaces m s))"
  shows "off_by (D(s := D s + (n - cascaded m s),
     p := D p + (if cascaded m s > 0 then 1 else 0) - (if n > 0 then 1 else 0))) (set_count s n m)"
proof -
  note f = same_but_counts_fields[OF same_set_count[of m s n]]
  have "p < s" using getParent_rep[OF assms(1-3)] by (simp add: p_def)
  then show ?thesis
    using assms(5) active_children_set_count[OF assms(1-4), of n]
    unfolding off_by_def expected_count_def f(6) f(1) f(12) by (auto simp: p_def)
qed

lemma nonneg_set_count: "nonneg_counts m \<Longrightarrow> 0 \<le> n \<Longrightarrow> nonneg_counts (set_count s n m)"
  by (auto simp: nonneg_counts_def)

lemma off_by_top: "(\<And>s. s \<noteq> 0 \<Longrightarrow> D' s = D s) \<Longrightarrow> off_by D m \<Longrightarrow> off_by D' m"
  by (simp add: off_by_def)

lemma aliveE:
  assumes "alive m s" "s \<noteq> 0"
  shows "status m s = ssNormal" "alive m (rep m (s_parent (spaces m s)))"
  using assms by (auto elim: alive.cases)

lemma incRunnable_correct:
  assumes "tree_ok m" "s < nextSpace m" "alive m s" "off_by D m" "nonneg_counts m"
  shows "\<exists>m'. incRunnableThreadCount s m = Some m' \<and> same_but_counts m m' \<and> off_by (D(s := D s + 1)) m' \<and> nonneg_counts m'"
  using assms
proof (induction s arbitrary: m D rule: less_induct)
  case (less s)
  show ?case
  proof (cases "s = 0")
    case True
    then have "s_top (spaces m 0)" using tree_okD(1)[OF less.prems(1), of 0] less.prems(1) by (simp add: tree_ok_def)
    then have eq: "incRunnableThreadCount s m = Some m" using True by (simp add: incRunnableThreadCount.simps[of 0])
    have "off_by (D(s := D s + 1)) m" by (rule off_by_top[OF _ less.prems(4)]) (simp add: True)
    then show ?thesis using eq less.prems(5) same_but_counts_refl by blast
  next
    case False
    note al = aliveE[OF less.prems(3) False]
    note gp = getParent_rep[OF less.prems(1,2) False]
    let ?p = "rep m (s_parent (spaces m s))" and ?old = "cascaded m s"
    let ?m = "set_count s (?old + 1) m"
    have nt: "\<not> s_top (spaces m s)" using tree_okD(1)[OF less.prems(1,2)] False by simp
    have old: "0 \<le> ?old" using less.prems(2,5) False al by (simp add: nonneg_counts_def)
    have sm: "same_but_counts m ?m" by (rule same_set_count)
    note f = same_but_counts_fields[OF sm]
    have off: "off_by (D(s := D s + 1, ?p := D ?p + (if ?old > 0 then 1 else 0) - 1)) ?m"
      using off_by_set_count[OF less.prems(1,2) False al(1) less.prems(4), of "?old + 1"] old by simp
    have nn: "nonneg_counts ?m" using old by (intro nonneg_set_count[OF less.prems(5)]) simp
    show ?thesis
    proof (cases "?old = 0")
      case True
      have "?p < nextSpace ?m" using gp(2) less.prems(2) by simp
      moreover have "alive ?m ?p" by (rule alive_same[OF sm al(2)])
      moreover have "tree_ok ?m" using tree_ok_same[OF sm] less.prems(1) by simp
      ultimately obtain m' where m': "incRunnableThreadCount ?p ?m = Some m'" "same_but_counts ?m m'"
        "off_by ((D(s := D s + 1, ?p := D ?p + (if ?old > 0 then 1 else 0) - 1))(?p := (D(s := D s + 1, ?p := D ?p + (if ?old > 0 then 1 else 0) - 1)) ?p + 1)) m'"
        "nonneg_counts m'"
        using less.IH[OF gp(2) _ _ _ off nn] by blast
      have "off_by (D(s := D s + 1)) m'"
        by (rule off_by_top[OF _ m'(3)]) (use True gp(2) in auto)
      moreover have "incRunnableThreadCount s m = Some m'"
        using m'(1) nt gp(1) True f(13)[of s] by (simp add: incRunnableThreadCount.simps[of s m])
      ultimately show ?thesis using m' same_but_counts_trans[OF sm m'(2)] by blast
    next
      case False
      then have "incRunnableThreadCount s m = Some ?m" using nt by (simp add: incRunnableThreadCount.simps[of s m])
      moreover have "off_by (D(s := D s + 1)) ?m"
        by (rule off_by_top[OF _ off]) (use False old gp(2) in auto)
      ultimately show ?thesis using sm nn by blast
    qed
  qed
qed

text \<open>Machines after threads were started: the others are the same, the tree too.\<close>

definition extends :: "machine \<Rightarrow> machine \<Rightarrow> bool" where
  "extends m m' \<longleftrightarrow> nextSpace m' = nextSpace m \<and> nextThread m \<le> nextThread m' \<and>
     (\<forall>t < nextThread m. runnables m' t = runnables m t) \<and> currentSpace m' = currentSpace m \<and>
     (\<forall>s. status m' s = status m s \<and> s_parent (spaces m' s) = s_parent (spaces m s) \<and> s_top (spaces m' s) = s_top (spaces m s) \<and>
        s_reference (spaces m' s) = s_reference (spaces m s) \<and> s_trailEmpty (spaces m' s) = s_trailEmpty (spaces m s) \<and>
        s_statusVar (spaces m' s) = s_statusVar (spaces m s))"

lemma extends_refl: "extends m m"
  by (simp add: extends_def)

lemma extends_trans: "extends m m' \<Longrightarrow> extends m' m'' \<Longrightarrow> extends m m''"
  by (simp add: extends_def)

lemma same_extends: "same_but_counts m m' \<Longrightarrow> extends m m'"
  by (auto simp: same_but_counts_def extends_def)

lemma extends_rep:
  assumes "extends m m'"
  shows "rep m' s = rep m s" "getParent m' s = getParent m s"
proof -
  have "space_deref m' s = space_deref m s" for s using assms by (intro space_deref_cong) (simp_all add: extends_def)
  then show "rep m' s = rep m s" "getParent m' s = getParent m s"
    using assms by (simp_all add: rep_def getParent_def extends_def)
qed

lemma alive_extends:
  assumes "extends m m'"
  shows "alive m s \<Longrightarrow> alive m' s"
proof (induction m\<equiv>m s rule: alive.induct)
  case (sub s)
  show ?case
    by (rule alive.sub) (use sub assms in \<open>simp_all add: extends_rep[OF assms] extends_def\<close>)
qed (rule alive.top)

text \<open>A new thread in a space of the machine, not running yet, and a running thread.\<close>

lemma new_runnable_correct:
  assumes "tree_ok m" "s < nextSpace m" "alive m s" "off_by D m" "nonneg_counts m"
  shows "\<exists>m'. new_runnable s pr m = Some (nextThread m, m') \<and> tree_ok m' \<and> extends m m' \<and> off_by D m' \<and> nonneg_counts m' \<and>
    nextThread m' = Suc (nextThread m) \<and> runnables m' (nextThread m) =
      \<lparr>r_space = s, r_priority = pr, r_runnable = False, r_terminated = False, r_dead = False\<rparr> \<and> threadPool m' = threadPool m"
proof -
  let ?r = "\<lparr>r_space = s, r_priority = pr, r_runnable = False, r_terminated = False, r_dead = False\<rparr>"
  let ?m = "m\<lparr>nextThread := Suc (nextThread m), runnables := (runnables m)(nextThread m := ?r)\<rparr>"
  let ?m' = "upd_space s (\<lambda>sp. sp\<lparr>threadCount := threadCount sp + 1\<rparr>) ?m"
  have st: "status m s = ssNormal" by (rule alive_normal[OF assms(3,1)])
  then have eq: "new_runnable s pr m = Some (nextThread m, ?m')"
    by (simp add: new_runnable_def Let_def space_deref_normal incThreadCount_def)
  have ext: "extends m ?m'" by (simp add: extends_def)
  note rp = extends_rep[OF ext]
  have run: "running_in ?m' x = running_in m x" for x
    unfolding running_in_def rp by (auto simp: less_Suc_eq)
  have act: "active_children ?m' x = active_children m x" for x
    unfolding active_children_def rp by auto
  have "tree_ok ?m'" using assms(1,2) by (auto simp: tree_ok_def less_Suc_eq)
  moreover have "off_by D ?m'" using assms(4) unfolding off_by_def expected_count_def run act by simp
  moreover have "nonneg_counts ?m'" using assms(5) by (simp add: nonneg_counts_def)
  ultimately show ?thesis using eq ext by simp
qed

lemma thread_space_new: "runnables m t = r \<Longrightarrow> status m (r_space r) \<noteq> ssReference \<Longrightarrow> thread_space m t = Some (r_space r)"
  by (simp add: thread_space_def space_deref_normal)

text \<open>Setting the flag of a thread puts the counter of its space off.\<close>

lemma off_by_flag:
  assumes "off_by D m" "t < nextThread m" "r_runnable (runnables m t) \<noteq> b" "s = rep m (r_space (runnables m t))"
    and "g (runnables m t) = r" "r_space r = r_space (runnables m t)" "r_runnable r = b"
  shows "off_by (D(s := D s + (if b then - 1 else 1))) (upd_thread t g m)"
proof -
  let ?m = "upd_thread t g m"
  have rp: "rep ?m x = rep m x" for x
    unfolding rep_def by (rule arg_cong[where f = the], rule space_deref_cong) simp_all
  have run: "running_in ?m x = running_in m x - {t} \<union> (if x = s \<and> b then {t} else {})" for x
    unfolding running_in_def rp using assms(2-) by auto
  have mem: "t \<in> running_in m x \<longleftrightarrow> x = s \<and> \<not> b" for x using assms(2-4) by (auto simp: running_in_def)
  have "int (card (running_in ?m x)) = int (card (running_in m x)) + (if x = s \<and> b then 1 else 0) - (if x = s \<and> \<not> b then 1 else 0)" for x
    unfolding run using card_toggle[of "running_in m x" t "x = s \<and> b"] mem[of x] by simp
  moreover have "active_children ?m x = active_children m x" for x
    unfolding active_children_def rp by simp
  ultimately show ?thesis using assms(1) by (auto simp: off_by_def expected_count_def)
qed

lemma notifyThreadResumed_inc: "notifyThreadResumed s m = incRunnableThreadCount s m"
  by (cases "s_top (spaces m s)") (simp_all add: notifyThreadResumed_def incRunnableThreadCount.simps[of s m])

lemma resume_correct:
  assumes m: "tree_ok m" "off_by D m" "nonneg_counts m"
    and t: "t < nextThread m" "\<not> r_dead (runnables m t)" "\<not> r_terminated (runnables m t)" "\<not> r_runnable (runnables m t)"
      "\<not> isScheduled t (threadPool m)"
    and s: "s = rep m (r_space (runnables m t))" "alive m s"
  shows "\<exists>m'. resume_thread False t m = Some m' \<and> tree_ok m' \<and> off_by D m' \<and> nonneg_counts m' \<and>
    extends (upd_thread t (\<lambda>r. r\<lparr>r_runnable := True\<rparr>) m) m' \<and> nextThread m' = nextThread m"
proof -
  let ?m = "upd_thread t (\<lambda>r. r\<lparr>r_runnable := True\<rparr>) m"
  have rs: "r_space (runnables m t) < nextSpace m" using m(1) t(1) by (simp add: tree_ok_def)
  have ts: "thread_space m t = Some s" "s < nextSpace m" using rep_props[OF m(1) rs] s(1) by (simp_all add: thread_space_def)
  have ok: "tree_ok ?m" using m(1) by (simp add: tree_ok_def)
  have off: "off_by (D(s := D s - 1)) ?m" using off_by_flag[OF m(2) t(1), of True s "\<lambda>r. r\<lparr>r_runnable := True\<rparr>"] t(4) s(1) by simp
  have al: "alive ?m s" using s(2) by (rule alive_tree[rotated 3]) simp_all
  have nn: "nonneg_counts ?m" using m(3) by (simp add: nonneg_counts_def)
  obtain m1 where m1: "incRunnableThreadCount s ?m = Some m1" "same_but_counts ?m m1"
      "off_by ((D(s := D s - 1))(s := (D(s := D s - 1)) s + 1)) m1" "nonneg_counts m1"
    using incRunnable_correct[OF ok _ al off nn] ts(2) by auto
  have off1: "off_by D m1" by (rule off_by_top[OF _ m1(3)]) simp
  have n: "notifyThreadResumed s ?m = Some m1"
    using m1(1) by (simp add: notifyThreadResumed_inc)
  note f = same_but_counts_fields[OF m1(2)]
  let ?pool = "(threadPool m)\<lparr>queues := (queues (threadPool m))(r_priority (runnables m t) :=
      queues (threadPool m) (r_priority (runnables m t)) @ [t])\<rparr>"
  have sch: "schedule_thread t m1 = Some (m1\<lparr>threadPool := ?pool\<rparr>)"
    using t(5) by (simp add: schedule_thread_def schedule_def f)
  have eq: "resume_thread False t m = Some (m1\<lparr>threadPool := ?pool\<rparr>)"
    using ts n sch t by (simp add: resume_thread_def Let_def)
  let ?m' = "m1\<lparr>threadPool := ?pool\<rparr>"
  have ext: "extends m1 ?m'" by (simp add: extends_def)
  note rp = extends_rep[OF ext]
  have "tree_ok m1" using tree_ok_same[OF m1(2)] ok by simp
  moreover have "isScheduled x ?pool \<longrightarrow> x < nextThread m" for x
    using m(1) t(1) by (auto simp: isScheduled_queues tree_ok_def split: if_splits)
  ultimately have "tree_ok ?m'" by (simp add: tree_ok_def f)
  moreover have "off_by D ?m'"
    using off1 unfolding off_by_def expected_count_def running_in_def active_children_def rp by simp
  moreover have "nonneg_counts ?m'" using m1(4) by (simp add: nonneg_counts_def)
  moreover have "extends ?m ?m'" by (rule extends_trans[OF same_extends[OF m1(2)] ext])
  ultimately show ?thesis using eq f(8) by simp
qed

text \<open>The invariant of the machine, with counters off by \<open>D\<close>.\<close>

definition counted :: "(space_id \<Rightarrow> int) \<Rightarrow> machine \<Rightarrow> bool" where
  "counted D m \<longleftrightarrow> tree_ok m \<and> off_by D m \<and> nonneg_counts m"

lemma upd_thread_extends: "nextThread m0 \<le> t \<Longrightarrow> extends m0 m \<Longrightarrow> extends m0 (upd_thread t g m)"
  by (auto simp: extends_def)

lemma new_dummy_correct:
  assumes "counted D m" "s < nextSpace m" "alive m s"
  shows "\<exists>m'. new_dummy_thread s suspended m = Some (nextThread m, m') \<and> counted D m' \<and> extends m m'"
proof -
  obtain m1 where m1: "new_runnable s tpMiddle m = Some (nextThread m, m1)" "tree_ok m1" "extends m m1" "off_by D m1" "nonneg_counts m1"
      "nextThread m1 = Suc (nextThread m)" "threadPool m1 = threadPool m"
      "runnables m1 (nextThread m) = \<lparr>r_space = s, r_priority = tpMiddle, r_runnable = False, r_terminated = False, r_dead = False\<rparr>"
    using new_runnable_correct[of m s D tpMiddle] assms by (auto simp: counted_def)
  let ?t = "nextThread m"
  show ?thesis
  proof (cases suspended)
    case True
    then show ?thesis using m1 by (simp add: new_dummy_thread_def counted_def)
  next
    case False
    have st: "status m s = ssNormal" using alive_normal assms by (auto simp: counted_def)
    then have "status m1 s \<noteq> ssReference" using m1(3) by (simp add: extends_def)
    then have r: "s = rep m1 (r_space (runnables m1 ?t))" by (simp add: m1(8) rep_def space_deref_normal)
    have ns: "\<not> isScheduled ?t (threadPool m1)" using assms(1) m1(7) by (auto simp: counted_def tree_ok_def)
    obtain m2 where m2: "resume_thread False ?t m1 = Some m2" "tree_ok m2" "off_by D m2" "nonneg_counts m2"
        "extends (upd_thread ?t (\<lambda>r. r\<lparr>r_runnable := True\<rparr>) m1) m2"
      using resume_correct[OF m1(2,4,5) _ _ _ _ ns r alive_extends[OF m1(3) assms(3)]] m1(6,8) by auto
    have "extends m (upd_thread ?t (\<lambda>r. r\<lparr>r_runnable := True\<rparr>) m1)" by (rule upd_thread_extends[OF _ m1(3)]) simp
    from extends_trans[OF this m2(5)] have "extends m m2" .
    then show ?thesis using False m1(1,8) m2 by (simp add: new_dummy_thread_def dummy_resume_def counted_def)
  qed
qed

lemma decRunnable_correct:
  assumes "counted D m" "s < nextSpace m" "alive m s" "\<forall>x. 0 \<le> D x" "1 \<le> D s"
  shows "\<exists>m'. decRunnableThreadCount s m = Some m' \<and> counted (D(s := D s - 1)) m' \<and> extends m m'"
  using assms
proof (induction s arbitrary: m D rule: less_induct)
  case (less s)
  have ok: "tree_ok m" "off_by D m" "nonneg_counts m" using less.prems(1) by (simp_all add: counted_def)
  show ?case
  proof (cases "s = 0")
    case True
    then have "s_top (spaces m 0)" using tree_okD(1)[OF ok(1), of 0] ok(1) by (simp add: tree_ok_def)
    then have eq: "decRunnableThreadCount s m = Some m" using True by (simp add: decRunnableThreadCount.simps[of 0])
    have "off_by (D(s := D s - 1)) m" by (rule off_by_top[OF _ ok(2)]) (simp add: True)
    then show ?thesis using eq ok extends_refl unfolding counted_def by blast
  next
    case False
    note al = aliveE[OF less.prems(3) False]
    note gp = getParent_rep[OF ok(1) less.prems(2) False]
    let ?p = "rep m (s_parent (spaces m s))" and ?new = "cascaded m s - 1"
    let ?m = "set_count s ?new m"
    define E where "E = D(s := D s - 1, ?p := D ?p + (if cascaded m s > 0 then 1 else 0) - (if ?new > 0 then 1 else 0))"
    have nt: "\<not> s_top (spaces m s)" using tree_okD(1)[OF ok(1) less.prems(2)] False by simp
    have c: "1 \<le> cascaded m s"
    proof -
      have "cascaded m s = expected_count m s + D s" using ok(2) less.prems(2) False al(1) by (simp add: off_by_def)
      then show ?thesis using less.prems(5) by (simp add: expected_count_def)
    qed
    have sm: "same_but_counts m ?m" by (rule same_set_count)
    note f = same_but_counts_fields[OF sm]
    have off: "off_by E ?m"
      using off_by_set_count[OF ok(1) less.prems(2) False al(1) ok(2), of ?new] by (simp add: E_def)
    have nn: "nonneg_counts ?m" using c by (intro nonneg_set_count[OF ok(3)]) simp
    have cm: "counted E ?m" using off nn tree_ok_same[OF sm] ok(1) by (simp add: counted_def)
    show ?thesis
    proof (cases "?new = 0")
      case False
      then have "decRunnableThreadCount s m = Some ?m" using nt by (simp add: decRunnableThreadCount.simps[of s m] Let_def)
      moreover have "off_by (D(s := D s - 1)) ?m" by (rule off_by_top[OF _ off]) (use False c gp(2) in \<open>auto simp: E_def\<close>)
      ultimately show ?thesis using cm same_extends[OF sm] unfolding counted_def by blast
    next
      case True
      have ps: "?p < nextSpace m" using gp(2) less.prems(2) by simp
      have E: "E ?p = D ?p + 1" "\<forall>x. 0 \<le> E x" using True c less.prems(4,5) by (auto simp: E_def)
      obtain m1 where m1: "(if isStable ?m s then map_option snd (new_dummy_thread s False ?m) else Some ?m) = Some m1"
          "counted E m1" "extends ?m m1"
      proof (cases "isStable ?m s")
        case True
        then show thesis using new_dummy_correct[OF cm _ alive_same[OF sm less.prems(3)], of False] less.prems(2) that by auto
      next
        case False
        then show thesis using cm extends_refl that[of ?m] by simp
      qed
      have ext1: "extends m m1" by (rule extends_trans[OF same_extends[OF sm] m1(3)])
      have p1: "getParent m1 s = Some (Some ?p)" using extends_rep(2)[OF ext1] gp(1) by simp
      have "nextSpace m1 = nextSpace m" using ext1 by (simp add: extends_def)
      then obtain m2 where m2: "decRunnableThreadCount ?p m1 = Some m2" "counted (E(?p := E ?p - 1)) m2" "extends m1 m2"
        using less.IH[OF gp(2) m1(2) _ alive_extends[OF ext1 al(2)] E(2)] ps E(1) less.prems(4) by (auto simp del: fun_upd_apply)
      have "decRunnableThreadCount s m = Some m2"
        unfolding decRunnableThreadCount.simps[of s m] Let_def if_not_P[OF nt] if_P[OF True] m1(1)
        by (simp add: p1 m2(1))
      moreover have "off_by (D(s := D s - 1)) m2"
        by (rule off_by_top[of _ "E(?p := E ?p - 1)"]) (use m2(2) E(1) gp(2) True c in \<open>auto simp: counted_def E_def\<close>)
      ultimately show ?thesis using m2 extends_trans[OF ext1 m2(3)] unfolding counted_def by blast
    qed
  qed
qed

section \<open>Suspension and termination\<close>

lemma counted_cong:
  assumes "counted D m" "extends m m'" "nextThread m' = nextThread m" "\<And>s. cascaded m' s = cascaded m s"
    "\<And>t. isScheduled t (threadPool m') \<Longrightarrow> isScheduled t (threadPool m)"
  shows "counted D m'"
proof -
  note rp = extends_rep[OF assms(2)]
  have run: "running_in m' x = running_in m x" for x
    unfolding running_in_def rp using assms(2,3) by (auto simp: extends_def)
  have act: "active_children m' x = active_children m x" for x
    unfolding active_children_def rp using assms(2,4) by (simp add: extends_def)
  show ?thesis
    using assms unfolding counted_def off_by_def expected_count_def run act
    by (auto simp: tree_ok_def nonneg_counts_def extends_def)
qed

lemma counted_flag:
  assumes "counted D m" "t < nextThread m" "r_runnable (runnables m t)" "s = rep m (r_space (runnables m t))"
    "r_space (g (runnables m t)) = r_space (runnables m t)" "\<not> r_runnable (g (runnables m t))"
  shows "counted (D(s := D s + 1)) (upd_thread t g m)"
  using off_by_flag[of D m t False s g, OF _ assms(2) _ assms(4) refl assms(5)] assms(1,3,6)
  by (auto simp: counted_def tree_ok_def assms(5) nonneg_counts_def)

lemma unschedule_subset: "isScheduled t (unschedule u pool) \<Longrightarrow> isScheduled t pool"
  by (auto simp: unschedule_def isScheduled_queues Let_def split: if_splits dest: set_remove1_subset[THEN subsetD])

definition runs_in :: "machine \<Rightarrow> thread_id \<Rightarrow> space_id \<Rightarrow> bool" where
  "runs_in m t s \<longleftrightarrow> t < nextThread m \<and> thread_space m t = Some s \<and> alive m s"

lemma runs_inD:
  assumes "runs_in m t s" "tree_ok m"
  shows "t < nextThread m" "s = rep m (r_space (runnables m t))" "s < nextSpace m" "alive m s" "thread_space m t = Some s"
proof -
  show t: "t < nextThread m" "alive m s" "thread_space m t = Some s" using assms(1) by (simp_all add: runs_in_def)
  then have "r_space (runnables m t) < nextSpace m" using assms(2) by (simp add: tree_ok_def)
  from rep_props[OF assms(2) this] t show "s = rep m (r_space (runnables m t))" "s < nextSpace m"
    by (simp_all add: thread_space_def)
qed

abbreviation exact :: "space_id \<Rightarrow> int" where
  "exact \<equiv> \<lambda>_. 0"

lemma decRunnable_exact:
  assumes "counted (exact(s := 1)) m" "s < nextSpace m" "alive m s"
  shows "\<exists>m'. decRunnableThreadCount s m = Some m' \<and> counted exact m' \<and> extends m m'"
proof -
  have "\<forall>x. 0 \<le> (exact(s := 1)) x" "1 \<le> (exact(s := 1)) s" by simp_all
  from decRunnable_correct[OF assms this] obtain m' where
    "decRunnableThreadCount s m = Some m'" "counted ((exact(s := 1))(s := (exact(s := 1)) s - 1)) m'" "extends m m'" by blast
  moreover have "(exact(s := 1))(s := (exact(s := 1)) s - 1) = exact" by (rule ext) simp
  ultimately show ?thesis by simp
qed

lemma notifyThreadSuspended_dec: "notifyThreadSuspended s m = decRunnableThreadCount s m"
  by (cases "s_top (spaces m s)") (simp_all add: notifyThreadSuspended_def decRunnableThreadCount.simps[of s m])

lemma suspend_counted:
  assumes "counted exact m" "runs_in m t s" "suspend_thread skip t m = Some m'"
  shows "counted exact m'"
proof -
  have ok: "tree_ok m" using assms(1) by (simp add: counted_def)
  note r = runs_inD[OF assms(2) ok]
  let ?m = "upd_thread t (\<lambda>r. r\<lparr>r_runnable := False\<rparr>) m"
  have run: "r_runnable (runnables m t)" using assms(3) by (auto simp: suspend_thread_def Let_def split: if_splits)
  have c: "counted (exact(s := 1)) ?m" using counted_flag[OF assms(1) r(1) run r(2), of "\<lambda>r. r\<lparr>r_runnable := False\<rparr>"] by simp
  have al: "alive ?m s" using r(4) by (rule alive_tree[rotated 3]) simp_all
  obtain m1 where m1: "decRunnableThreadCount s ?m = Some m1" "counted exact m1" "extends ?m m1"
    using decRunnable_exact[OF c _ al] r(3) by auto
  have "notifyThreadSuspended s ?m = Some m1"
    using m1(1) by (simp add: notifyThreadSuspended_dec)
  then have "m' = (if skip then m1 else m1\<lparr>threadPool := unschedule t (threadPool m1)\<rparr>)"
    using assms(3) r(5) by (auto simp: suspend_thread_def Let_def split: if_splits)
  then show ?thesis
    using m1(2) counted_cong[of exact m1 m'] unschedule_subset by (auto simp: extends_def split: if_splits)
qed

text \<open>Deinstallation and the status leave the counters alone.\<close>

lemma same_counts_cong:
  assumes "counted D m" "extends m m'" "runnables m' = runnables m" "nextThread m' = nextThread m" "threadPool m' = threadPool m"
    "\<And>s. cascaded m' s = cascaded m s"
  shows "counted D m'"
  by (rule counted_cong[OF assms(1,2,4,6)]) (simp add: assms(5))

lemma tree_step:
  assumes "counted D m" "\<And>x. status m' x = status m x" "\<And>x. s_parent (spaces m' x) = s_parent (spaces m x)"
    "\<And>x. s_top (spaces m' x) = s_top (spaces m x)" "\<And>x. s_reference (spaces m' x) = s_reference (spaces m x)"
    "\<And>x. cascaded m' x = cascaded m x" "nextSpace m' = nextSpace m" "runnables m' = runnables m" "nextThread m' = nextThread m"
    "threadPool m' = threadPool m"
  shows "counted D m'" "alive m s \<Longrightarrow> alive m' s" "getParent m' s = getParent m s"
proof -
  have d: "space_deref m' x = space_deref m x" for x by (rule space_deref_cong) (simp_all add: assms)
  then have rp: "rep m' x = rep m x" for x by (simp add: rep_def)
  show "counted D m'" using assms(1)
    unfolding counted_def off_by_def expected_count_def running_in_def active_children_def rp tree_ok_def nonneg_counts_def assms(2-) .
  show "alive m s \<Longrightarrow> alive m' s" by (rule alive_tree) (simp_all add: assms)
  show "getParent m' s = getParent m s" by (simp add: getParent_def d assms)
qed

lemma bindStatusVar_counted: "counted D m \<Longrightarrow> bindStatusVar s v m = Some m' \<Longrightarrow> counted D m'"
  by (erule tree_step) (auto simp: bindStatusVar_def split: if_splits)

lemma deinstallThis_counted:
  assumes "counted D m" "s < nextSpace m" "alive m s" "deinstallThis watch s m = Some m'"
  shows "counted D m' \<and> getParent m' s = getParent m s \<and> (\<forall>t < nextThread m. runnables m' t = runnables m t)"
proof (cases "s_trailEmpty (spaces m s)")
  case True
  then show ?thesis using assms by (simp add: deinstallThis_def)
next
  case False
  let ?new = "\<not> hasRunnableThreads m s \<and> watch s"
  obtain m1 where m1: "(if ?new then map_option snd (new_dummy_thread s True m) else Some m) = Some m1"
      "counted D m1" "extends m m1"
    using new_dummy_correct[OF assms(1-3), of True] assms(1) extends_refl by (cases ?new) auto
  then have m': "m' = upd_space s (\<lambda>sp. sp\<lparr>s_trailEmpty := True\<rparr>) m1" using assms(4) False by (auto simp: deinstallThis_def)
  have "counted D m'" "getParent m' s = getParent m1 s" unfolding m' by (rule tree_step[OF m1(2)]; simp)+
  then show ?thesis using extends_rep(2)[OF m1(3)] m1(3) unfolding m' by (simp add: extends_def)
qed

lemma deinstallTo_parent_counted:
  assumes "counted D m" "s < nextSpace m" "s \<noteq> 0" "alive m s" "getParent m s = Some (Some p)" "deinstallTo watch s p m = Some m'"
  shows "counted D m' \<and> (\<forall>t < nextThread m. runnables m' t = runnables m t)"
proof -
  have "p \<noteq> s" using getParent_rep[of m s] assms by (auto simp: counted_def)
  then obtain m1 where m1: "deinstallThis watch s m = Some m1" "m' = m1\<lparr>currentSpace := p\<rparr>"
    using assms(6) deinstallThis_counted[OF assms(1,2,4)] assms(5)
    by (auto simp: deinstallTo.simps[of watch s p m] deinstallTo.simps[of watch p p] split: option.splits)
  have "counted D (m1\<lparr>currentSpace := p\<rparr>)"
    by (rule tree_step[OF deinstallThis_counted[OF assms(1,2,4) m1(1), THEN conjunct1]]) simp_all
  then show ?thesis unfolding m1(2) using deinstallThis_counted[OF assms(1,2,4) m1(1)] by simp
qed

lemma checkStability_counted:
  assumes "counted D m" "s < nextSpace m" "alive m s" "checkStability watch s m = Some m'"
  shows "counted D m' \<and> (\<forall>t < nextThread m. runnables m' t = runnables m t)"
proof -
  obtain p where p: "getParent m s = Some (Some p)" "s \<noteq> 0"
    using assms(4) tree_okD(1)[of m s] assms(1,2) by (auto simp: checkStability_def counted_def split: option.splits if_splits)
  show ?thesis
  proof (cases "isStable m s")
    case True
    have "counted D (m\<lparr>currentSpace := p\<rparr>)" by (rule tree_step[OF assms(1)]) simp_all
    moreover obtain v where "bindStatusVar s v (m\<lparr>currentSpace := p\<rparr>) = Some m'"
      using True assms(4) p by (auto simp: checkStability_def Let_def bind_eq_Some_conv split: if_splits option.splits)
    moreover from this have "runnables m' = runnables m" by (auto simp: bindStatusVar_def split: if_splits)
    ultimately show ?thesis using bindStatusVar_counted by simp
  next
    case False
    then have "deinstallTo watch s p m = Some m'"
      using assms(4) p by (auto simp: checkStability_def Let_def bind_eq_Some_conv split: if_splits)
    then show ?thesis by (rule deinstallTo_parent_counted[OF assms(1,2) p(2) assms(3) p(1)])
  qed
qed

lemma terminate_count:
  assumes "counted (exact(s := 1)) m" "s < nextSpace m" "s \<noteq> 0" "alive m s" "0 < cascaded m s"
    and "(if cascaded m s - 1 = 0
          then (case getParent (set_count s (cascaded m s - 1) m) s of Some (Some p) \<Rightarrow> decRunnableThreadCount p (set_count s (cascaded m s - 1) m) | _ \<Rightarrow> None)
          else Some (set_count s (cascaded m s - 1) m)) = Some m'"
  shows "counted exact m' \<and> extends (set_count s (cascaded m s - 1) m) m'"
proof -
  let ?n = "cascaded m s - 1" let ?m = "set_count s ?n m" let ?p = "rep m (s_parent (spaces m s))"
  have ok: "tree_ok m" "off_by (exact(s := 1)) m" "nonneg_counts m" using assms(1) by (simp_all add: counted_def)
  note al = aliveE[OF assms(4,3)]
  note gp = getParent_rep[OF ok(1) assms(2,3)]
  have sm: "same_but_counts m ?m" by (rule same_set_count)
  have off: "off_by ((exact(s := 1))(s := (exact(s := 1)) s + (?n - cascaded m s), ?p := (exact(s := 1)) ?p + (if cascaded m s > 0 then 1 else 0) - (if ?n > 0 then 1 else 0))) ?m"
    by (rule off_by_set_count[OF ok(1) assms(2,3) al(1) ok(2)])
  have nn: "nonneg_counts ?m" using assms(5) by (intro nonneg_set_count[OF ok(3)]) simp
  have tr: "tree_ok ?m" using tree_ok_same[OF sm] ok(1) by simp
  show ?thesis
  proof (cases "?n = 0")
    case True
    have "off_by (exact(?p := 1)) ?m" by (rule off_by_top[OF _ off]) (use True assms(5) gp(2) in auto)
    then have c: "counted (exact(?p := 1)) ?m" using nn tr by (simp add: counted_def)
    have "?p < nextSpace ?m" using gp(2) assms(2) by simp
    then obtain m1 where "decRunnableThreadCount ?p ?m = Some m1" "counted exact m1" "extends ?m m1"
      using decRunnable_exact[OF c _ alive_same[OF sm al(2)]] by blast
    then show ?thesis using assms(6) True gp(1) same_but_counts_fields(13)[OF sm] by simp
  next
    case False
    have "off_by exact ?m" by (rule off_by_top[OF _ off]) (use False assms(5) gp(2) in auto)
    then show ?thesis using assms(6) False nn tr extends_refl by (simp add: counted_def)
  qed
qed

lemma notifyThreadTerminated_cases:
  assumes "notifyThreadTerminated watch s m = Some m1" "\<not> s_top (spaces m s)"
  obtains m3 where "0 < cascaded m s"
    "(if cascaded m s - 1 = 0
      then (case getParent (set_count s (cascaded m s - 1) m) s of Some (Some p) \<Rightarrow> decRunnableThreadCount p (set_count s (cascaded m s - 1) m) | _ \<Rightarrow> None)
      else Some (set_count s (cascaded m s - 1) m)) = Some m3"
    "checkStability watch s m3 = Some m1"
proof -
  have "0 < cascaded m s" using assms by (auto simp: notifyThreadTerminated_def split: if_splits)
  moreover from this have "Option.bind (if cascaded m s - 1 = 0
      then (case getParent (set_count s (cascaded m s - 1) m) s of Some (Some p) \<Rightarrow> decRunnableThreadCount p (set_count s (cascaded m s - 1) m) | _ \<Rightarrow> None)
      else Some (set_count s (cascaded m s - 1) m)) (checkStability watch s) = Some m1"
    using assms unfolding notifyThreadTerminated_def Let_def by (simp split del: if_split)
  ultimately show thesis using that unfolding bind_eq_Some_conv by blast
qed

lemma dispose_counted:
  assumes "counted D m" "\<not> r_runnable (runnables m t)"
  shows "counted D (dispose_thread t m)"
proof -
  let ?m = "dispose_thread t m"
  have d: "space_deref ?m x = space_deref m x" for x by (rule space_deref_cong) (simp_all add: dispose_thread_def)
  then have rp: "rep ?m x = rep m x" for x by (simp add: rep_def)
  have run: "running_in ?m x = running_in m x" for x
    unfolding running_in_def rp using assms(2) by (auto simp: dispose_thread_def)
  have act: "active_children ?m x = active_children m x" for x
    unfolding active_children_def rp by (simp add: dispose_thread_def)
  show ?thesis using assms(1) unfolding counted_def off_by_def expected_count_def run act
    by (auto simp: tree_ok_def nonneg_counts_def dispose_thread_def)
qed

lemma terminate_counted:
  assumes "counted exact m" "runs_in m t s" "terminate_thread watch t m = Some m'"
  shows "counted exact m'"
proof -
  have ok: "tree_ok m" using assms(1) by (simp add: counted_def)
  note r = runs_inD[OF assms(2) ok]
  let ?g = "\<lambda>r. r\<lparr>r_runnable := False, r_terminated := True\<rparr>"
  let ?m = "upd_thread t ?g m"
  have run: "r_runnable (runnables m t)" using assms(3) by (auto simp: terminate_thread_def Let_def split: if_splits)
  have c: "counted (exact(s := 1)) ?m" using counted_flag[OF assms(1) r(1) run r(2), of ?g] by simp
  have al: "alive ?m s" using r(4) by (rule alive_tree[rotated 3]) simp_all
  obtain m1 where m1: "notifyThreadTerminated watch s ?m = Some m1" "m' = dispose_thread t m1"
    using assms(3) r(5) by (auto simp: terminate_thread_def Let_def bind_eq_Some_conv split: if_splits)
  define M where "M = ?m"
  have M: "counted (exact(s := 1)) M" "alive M s" "nextThread M = nextThread m" "nextSpace M = nextSpace m"
    "s_top (spaces M s) = (s = 0)" "\<not> r_runnable (runnables M t)" "notifyThreadTerminated watch s M = Some m1"
    using c al m1 tree_okD(1)[OF ok r(3)] unfolding M_def by simp_all
  have "counted exact m1 \<and> (\<forall>u < nextThread M. runnables m1 u = runnables M u)"
  proof (cases "s = 0")
    case True
    then have "m1 = M" using M(5,7) by (simp add: notifyThreadTerminated_def)
    moreover have "off_by exact M" using M(1) True by (intro off_by_top[of exact "exact(s := 1)"]) (auto simp: counted_def)
    ultimately show ?thesis using M(1) by (simp add: counted_def)
  next
    case False
    then have nt: "\<not> s_top (spaces M s)" using M(5) by simp
    have sM: "s < nextSpace M" using r(3) M(4) by simp
    from M(7) nt show ?thesis
    proof (cases rule: notifyThreadTerminated_cases)
      case (1 m3)
      have e: "counted exact m3 \<and> extends (set_count s (cascaded M s - 1) M) m3"
        by (rule terminate_count[OF M(1) sM False M(2) 1(1,2)])
      then have "alive m3 s" using alive_extends alive_same[OF same_set_count M(2)] by blast
      moreover have "nextSpace m3 = nextSpace M" "nextThread M \<le> nextThread m3" "\<forall>u < nextThread M. runnables m3 u = runnables M u"
        using e by (simp_all add: extends_def)
      ultimately show ?thesis using checkStability_counted[of exact m3 s watch m1] e 1(3) sM by auto
    qed
  qed
  then show ?thesis using dispose_counted[of exact m1 t] M(3,6) r(1) m1(2) by simp
qed

section \<open>Failure and merge\<close>

lemma fail_status_counted:
  assumes "counted exact m" "s < nextSpace m" "s \<noteq> 0" "alive m s" "0 < cascaded m s"
  defines "p \<equiv> rep m (s_parent (spaces m s))"
  shows "\<exists>m'. decRunnableThreadCount p (upd_space s (\<lambda>sp. sp\<lparr>s_status := ssFailed\<rparr>) m) = Some m' \<and> counted exact m'"
proof -
  let ?m = "upd_space s (\<lambda>sp. sp\<lparr>s_status := ssFailed\<rparr>) m"
  have ok: "tree_ok m" "off_by exact m" "nonneg_counts m" using assms(1) by (simp_all add: counted_def)
  note al = aliveE[OF assms(4,3)]
  note gp = getParent_rep[OF ok(1) assms(2,3)]
  have d: "space_deref ?m x = space_deref m x" for x by (rule space_deref_cong) (use al(1) in auto)
  then have rp: "rep ?m x = rep m x" for x by (simp add: rep_def)
  have run: "running_in ?m x = running_in m x" for x unfolding running_in_def rp by simp
  have "active_children ?m x = active_children m x - {s} \<union> (if False then {s} else {})" for x
    unfolding active_children_def rp by auto
  then have "int (card (active_children ?m x)) = int (card (active_children m x)) - (if s \<in> active_children m x then 1 else 0)" for x
    using card_toggle[of "active_children m x" s False] by simp
  moreover have "s \<in> active_children m x \<longleftrightarrow> x = p" for x using assms(2,3,5) al(1) by (auto simp: active_children_def p_def)
  ultimately have "expected_count ?m x = expected_count m x - (if x = p then 1 else 0)" for x
    by (simp add: expected_count_def run)
  then have "off_by (exact(p := 1)) ?m" using ok(2) by (auto simp: off_by_def)
  moreover have "tree_ok ?m" using ok(1) assms(3) by (auto simp: tree_ok_def)
  moreover have "nonneg_counts ?m" using ok(3) by (auto simp: nonneg_counts_def)
  ultimately have c: "counted (exact(p := 1)) ?m" by (simp add: counted_def)
  have ps: "p < s" using gp(2) by (simp add: p_def)
  have "alive ?m x" if "alive m x" "x < s" for x
    using that
  proof (induction x rule: less_induct)
    case (less x)
    show ?case
    proof (cases "x = 0")
      case False
      have "x < nextSpace m" using less.prems(2) assms(2) by simp
      then have "rep m (s_parent (spaces m x)) < x" using getParent_rep[OF ok(1) _ False] by simp
      moreover have "rep m (s_parent (spaces m x)) < s" using calculation less.prems(2) by simp
      ultimately have "alive ?m (rep m (s_parent (spaces m x)))" using less.IH aliveE[OF less.prems(1) False] by blast
      moreover have x: "s_parent (spaces ?m x) = s_parent (spaces m x)" "status ?m x = ssNormal"
        using less.prems(2) aliveE[OF less.prems(1) False] by simp_all
      ultimately show ?thesis by (intro alive.sub[of x ?m, OF False]) (simp_all only: rp)
    qed (simp add: alive.top)
  qed
  then have "alive ?m p" using al(2) ps by (simp add: p_def)
  then show ?thesis using decRunnable_exact[OF c] ps assms(2) by fastforce
qed

text \<open>A space that became a reference to its parent.\<close>

lemma merge_reference_counted:
  assumes c: "counted exact m" and src: "src < nextSpace m" "src \<noteq> 0" "alive m src"
    and dest: "dest = rep m (s_parent (spaces m src))"
  defines "m1 \<equiv> upd_space src (\<lambda>sp. sp\<lparr>s_status := ssReference, s_reference := dest\<rparr>) m"
  shows "counted (exact(dest := (if cascaded m src > 0 then 1 else 0) - cascaded m src)) m1"
    and "alive m1 dest" "dest < src" "0 < cascaded m src \<Longrightarrow> dest \<noteq> 0 \<Longrightarrow> 0 < cascaded m dest"
proof -
  have ok: "tree_ok m" "off_by exact m" "nonneg_counts m" using c by (simp_all add: counted_def)
  note al = aliveE[OF src(3,2)]
  note gp = getParent_rep[OF ok(1) src(1,2)]
  show ds: "dest < src" using gp(2) by (simp add: dest)
  have m1: "nextSpace m1 = nextSpace m" "nextThread m1 = nextThread m" "runnables m1 = runnables m" "threadPool m1 = threadPool m"
    "\<And>x. s_parent (spaces m1 x) = s_parent (spaces m x)" "\<And>x. cascaded m1 x = cascaded m x" "\<And>x. s_top (spaces m1 x) = s_top (spaces m x)"
    "\<And>x. status m1 x = (if x = src then ssReference else status m x)"
    "\<And>x. s_reference (spaces m1 x) = (if x = src then dest else s_reference (spaces m x))"
    unfolding m1_def by simp_all
  have t1: "tree_ok m1" using ok(1) ds src(2) unfolding tree_ok_def m1 by auto
  have dn: "status m dest \<noteq> ssReference" using al(2) alive_normal[OF _ ok(1)] by (simp add: dest)
  have rp: "rep m1 x = (if rep m x = src then dest else rep m x)" if "x < nextSpace m" for x
    using that
  proof (induction x rule: less_induct)
    case (less x)
    have st: "space_deref m1 x = (if status m1 x = ssReference then space_deref m1 (s_reference (spaces m1 x)) else Some x)"
      by (rule space_deref.simps)
    have sm: "space_deref m x = (if status m x = ssReference then space_deref m (s_reference (spaces m x)) else Some x)"
      by (rule space_deref.simps)
    consider "x = src" | "x \<noteq> src" "status m x = ssReference" | "x \<noteq> src" "status m x \<noteq> ssReference" by blast
    then show ?case
    proof cases
      case 1
      have "space_deref m1 dest = Some dest" by (rule space_deref_normal) (use dn ds in \<open>simp add: m1\<close>)
      then show ?thesis using 1 st sm al(1) by (simp add: rep_def m1)
    next
      case 2
      then have "s_reference (spaces m x) < x" using tree_okD(3)[OF ok(1) less.prems] by simp
      then show ?thesis using less.IH[of "s_reference (spaces m x)"] less.prems 2 st sm by (simp add: rep_def m1)
    next
      case 3
      then show ?thesis using st sm by (simp add: rep_def m1)
    qed
  qed
  have ths: "r_space (runnables m t) < nextSpace m" if "t < nextThread m" for t using ok(1) that by (simp add: tree_ok_def)
  have pars: "s_parent (spaces m x) < nextSpace m" if "x < nextSpace m" "x \<noteq> 0" for x
    using tree_okD(2)[OF ok(1) that] that by simp
  have run: "running_in m1 x = (if x = dest then running_in m dest \<union> running_in m src else running_in m x)" if "x \<noteq> src" for x
    unfolding running_in_def m1 using that rp ths ds by auto
  have act: "active_children m1 x = (if x = dest then (active_children m dest - {src}) \<union> active_children m src else active_children m x)"
    if "x \<noteq> src" for x
  proof (rule set_eqI)
    fix y
    show "y \<in> active_children m1 x \<longleftrightarrow> y \<in> (if x = dest then (active_children m dest - {src}) \<union> active_children m src else active_children m x)"
      using that rp[OF pars, of y] ds dest unfolding active_children_def m1 by (cases "y = src") auto
  qed
  have si: "src \<in> active_children m dest \<longleftrightarrow> 0 < cascaded m src"
    using src(1,2) al(1) by (auto simp: active_children_def dest)
  have csrc: "cascaded m src = expected_count m src" using ok(2) src(1,2) al(1) by (simp add: off_by_def)
  have dr: "int (card (running_in m dest \<union> running_in m src)) = int (card (running_in m dest)) + int (card (running_in m src))"
    using ds by (subst card_Un_disjoint) (auto simp: running_in_def)
  have "int (card (active_children m dest - {src} \<union> active_children m src)) =
      int (card (active_children m dest - {src})) + int (card (active_children m src))"
    using ds by (subst card_Un_disjoint) (auto simp: active_children_def)
  then have da: "int (card (active_children m dest - {src} \<union> active_children m src)) =
      int (card (active_children m dest)) - (if 0 < cascaded m src then 1 else 0) + int (card (active_children m src))"
    using card_toggle[of "active_children m dest" src False] si by simp
  have "expected_count m1 x = (if x = dest then expected_count m dest - (if 0 < cascaded m src then 1 else 0) + cascaded m src
      else expected_count m x)" if "x \<noteq> src" for x
    using that dr da csrc by (simp add: expected_count_def run act)
  then have "off_by (exact(dest := (if cascaded m src > 0 then 1 else 0) - cascaded m src)) m1"
    using ok(2) unfolding off_by_def m1 by auto
  moreover have "nonneg_counts m1" using ok(3) by (auto simp: nonneg_counts_def m1)
  ultimately show "counted (exact(dest := (if cascaded m src > 0 then 1 else 0) - cascaded m src)) m1"
    using t1 by (simp add: counted_def)
  show "0 < cascaded m dest" if "0 < cascaded m src" "dest \<noteq> 0"
  proof -
    have "cascaded m dest = expected_count m dest"
      using ok(2) that(2) ds src(1) alive_normal[OF _ ok(1), of dest] al(2) by (simp add: off_by_def dest)
    moreover have "0 < card (active_children m dest)" using si that(1) card_gt_0_iff by fastforce
    ultimately show ?thesis by (simp add: expected_count_def)
  qed
  have "alive m1 x" if "alive m x" "x < src" for x
    using that
  proof (induction x rule: less_induct)
    case (less x)
    show ?case
    proof (cases "x = 0")
      case False
      have xn: "x < nextSpace m" using less.prems(2) src(1) by simp
      then have lt: "rep m (s_parent (spaces m x)) < x" using getParent_rep[OF ok(1) _ False] by simp
      then have r1: "rep m1 (s_parent (spaces m x)) = rep m (s_parent (spaces m x))"
        using rp[OF pars[OF xn False]] less.prems(2) by auto
      have "alive m1 (rep m (s_parent (spaces m x)))"
        using less.IH[OF lt aliveE(2)[OF less.prems(1) False]] lt less.prems(2) by simp
      then show ?thesis using aliveE(1)[OF less.prems(1) False] less.prems(2)
        by (intro alive.sub[of x, OF False]) (simp_all add: m1 r1)
    qed (simp add: alive.top)
  qed
  then show "alive m1 dest" using al(2) ds by (simp add: dest)
qed

lemma merge_counted:
  assumes c: "counted exact m" and src: "src < nextSpace m" "src \<noteq> 0" "alive m src"
    and dest: "getParent m src = Some (Some dest)" and mg: "merge_space True src dest m = Some (b, m')"
  shows "counted exact m'"
proof -
  have ok: "tree_ok m" using c by (simp add: counted_def)
  have d: "dest = rep m (s_parent (spaces m src))" using getParent_rep[OF ok src(1,2)] dest by simp
  define m1 where "m1 = upd_space src (\<lambda>sp. sp\<lparr>s_status := ssReference, s_reference := dest\<rparr>) m"
  note r = merge_reference_counted[OF c src d, folded m1_def]
  have m1: "cascaded m1 x = cascaded m x" "s_top (spaces m1 x) = s_top (spaces m x)" "nextSpace m1 = nextSpace m" for x
    unfolding m1_def by simp_all
  have dn: "dest < nextSpace m" using r(3) src(1) by simp
  have cs: "0 \<le> cascaded m src" using c src aliveE(1)[OF src(3,2)] by (simp add: counted_def nonneg_counts_def)
  show ?thesis
  proof (cases "dest = 0")
    case True
    then have "m' = m1" using mg tree_okD(1)[OF ok dn] by (auto simp: merge_space_def Let_def m1_def split: if_splits)
    moreover have "off_by exact m1" by (rule off_by_top[OF _ r(1)[unfolded counted_def, THEN conjunct2, THEN conjunct1]]) (simp add: True)
    ultimately show ?thesis using r(1) by (simp add: counted_def)
  next
    case False
    define m2 where "m2 = upd_space dest (\<lambda>sp. sp\<lparr>threadCount := threadCount sp + threadCount (spaces m1 src)\<rparr>) m1"
    have m2: "counted (exact(dest := (if cascaded m src > 0 then 1 else 0) - cascaded m src)) m2" "alive m2 dest"
      using tree_step(1)[OF r(1), of m2] tree_step(2)[OF r(1) _ _ _ _ _ _ _ _ _ r(2), of m2] unfolding m2_def by simp_all
    have cas: "cascaded m2 x = cascaded m x" "nextSpace m2 = nextSpace m" for x unfolding m2_def by (simp_all add: m1)
    have m': "m' = (if cascaded m src > 0 then set_count dest (cascaded m dest + (cascaded m src - 1)) m2 else m2)"
      using mg False tree_okD(1)[OF ok dn]
      by (auto simp: merge_space_def Let_def incThreadCount_def bind_eq_Some_conv m1_def m2_def split: if_splits)
    show ?thesis
    proof (cases "cascaded m src > 0")
      case False
      then have "exact(dest := (if cascaded m src > 0 then 1 else 0) - cascaded m src) = exact" using cs by (intro ext) simp
      then show ?thesis using m' m2(1) False by simp
    next
      case True
      let ?n = "cascaded m dest + (cascaded m src - 1)" let ?D = "exact(dest := (if cascaded m src > 0 then 1 else 0) - cascaded m src)"
      have k: "tree_ok m2" "off_by ?D m2" "nonneg_counts m2" using m2(1) by (simp_all add: counted_def)
      have sm: "same_but_counts m2 (set_count dest ?n m2)" by (rule same_set_count)
      have "off_by (?D(dest := ?D dest + (?n - cascaded m2 dest), rep m2 (s_parent (spaces m2 dest)) :=
          ?D (rep m2 (s_parent (spaces m2 dest))) + (if cascaded m2 dest > 0 then 1 else 0) - (if ?n > 0 then 1 else 0))) (set_count dest ?n m2)"
        by (rule off_by_set_count[OF k(1) _ False aliveE(1)[OF m2(2) False] k(2)]) (simp add: cas dn)
      moreover have "rep m2 (s_parent (spaces m2 dest)) < dest" using getParent_rep[OF k(1) _ False] dn by (simp add: cas)
      ultimately have "off_by exact (set_count dest ?n m2)"
        using True r(4)[OF True False] by (elim off_by_top[rotated]) (auto simp: cas)
      moreover have "tree_ok (set_count dest ?n m2)" using tree_ok_same[OF sm] k(1) by simp
      moreover have "nonneg_counts (set_count dest ?n m2)" using True r(4)[OF True False] by (intro nonneg_set_count[OF k(3)]) simp
      ultimately show ?thesis using m' True by (simp add: counted_def)
    qed
  qed
qed

section \<open>Sessions\<close>

text \<open>What programs do to spaces and threads. A request that does not apply (a space that is not alive,
  a thread that is dead, a failing assertion) is skipped. A space fails when it is installed and runs a
  thread, so its counter is positive; a space is killed only then here.\<close>

datatype space_event =
    NewSpace space_id | NewThread space_id ThreadPriority | Resume thread_id | Suspend bool thread_id
  | Terminate thread_id | Fail space_id | Kill space_id | Merge space_id

definition live :: "machine \<Rightarrow> space_id \<Rightarrow> bool" where
  "live m s \<longleftrightarrow> s < nextSpace m \<and> status m s \<noteq> ssReference \<and> isAlive m s = Some True"

definition thread_live :: "machine \<Rightarrow> thread_id \<Rightarrow> bool" where
  "thread_live m t \<longleftrightarrow> t < nextThread m \<and> (case thread_space m t of Some s \<Rightarrow> live m s | None \<Rightarrow> False)"

fun space_request :: "(space_id \<Rightarrow> bool) \<Rightarrow> space_event \<Rightarrow> machine \<Rightarrow> machine option" where
  "space_request watch (NewSpace p) m = (if live m p then Some (snd (new_space p m)) else None)"
| "space_request watch (NewThread s pr) m =
     (if live m s then Option.bind (new_runnable s pr m) (\<lambda>(t, m). resume_thread False t m) else None)"
| "space_request watch (Resume t) m =
     (if thread_live m t \<and> \<not> isScheduled t (threadPool m) then resume_thread False t m else None)"
| "space_request watch (Suspend skip t) m = (if thread_live m t then suspend_thread skip t m else None)"
| "space_request watch (Terminate t) m = (if thread_live m t then terminate_thread watch t m else None)"
| "space_request watch (Fail s) m = (if live m s \<and> hasRunnableThreads m s then fail_space s m else None)"
| "space_request watch (Kill s) m = (if live m s \<and> hasRunnableThreads m s then kill_space s m else None)"
| "space_request watch (Merge s) m =
     (if live m s then
        (case getParent m s of
           Some (Some p) \<Rightarrow> map_option snd (merge_space True s p (m\<lparr>currentSpace := p\<rparr>))
         | _ \<Rightarrow> None)
      else None)"

fun space_session :: "(space_id \<Rightarrow> bool) \<Rightarrow> space_event list \<Rightarrow> machine \<Rightarrow> machine" where
  "space_session watch [] m = m"
| "space_session watch (e # es) m =
     (case space_request watch e m of None \<Rightarrow> space_session watch es m | Some m' \<Rightarrow> space_session watch es m')"

lemma live_alive:
  assumes "counted D m" "live m s"
  shows "s < nextSpace m" "alive m s"
  using assms isAlive_alive[of m s] by (auto simp: live_def counted_def)

lemma thread_live_runs: "counted D m \<Longrightarrow> thread_live m t \<Longrightarrow> \<exists>s. runs_in m t s"
  using live_alive by (fastforce simp: thread_live_def runs_in_def split: option.splits)

lemma new_space_counted:
  assumes "counted exact m" "p < nextSpace m" "status m p \<noteq> ssReference"
  shows "counted exact (snd (new_space p m))"
proof -
  let ?s = "nextSpace m"
  define m' where "m' = snd (new_space p m)"
  have ok: "tree_ok m" using assms(1) by (simp add: counted_def)
  have f: "nextSpace m' = Suc ?s" "nextThread m' = nextThread m" "runnables m' = runnables m" "threadPool m' = threadPool m"
    "\<And>x. x \<noteq> ?s \<Longrightarrow> spaces m' x = spaces m x" "s_parent (spaces m' ?s) = p" "\<not> s_top (spaces m' ?s)" "status m' ?s = ssNormal"
    "cascaded m' ?s = 0" by (simp_all add: m'_def new_space_def Let_def)
  have t: "tree_ok m'" unfolding tree_ok_def f
  proof (intro conjI allI impI)
    show "status m' 0 = ssNormal" using ok f(5)[of 0] by (simp add: tree_ok_def)
    fix s assume "s < Suc ?s"
    then consider "s = ?s" | "s \<noteq> ?s" "s < ?s" by linarith
    note cs = this
    show "s_top (spaces m' s) = (s = 0)" using cs tree_okD(1)[OF ok, of s] f ok by cases (auto simp: tree_ok_def)
    show "s_parent (spaces m' s) < s" if "s \<noteq> 0" using cs tree_okD(2)[OF ok, of s] f assms(2) that by cases auto
    show "s_reference (spaces m' s) < s" if "status m' s = ssReference" using cs tree_okD(3)[OF ok, of s] f that by cases auto
  qed (use ok in \<open>auto simp: tree_ok_def less_Suc_eq\<close>)
  have d: "space_deref m' x = space_deref m x" if "x < ?s" for x
    using that
  proof (induction x rule: less_induct)
    case (less x)
    then show ?case using tree_okD(3)[OF ok less.prems] f(5)[of x]
      by (auto simp: space_deref.simps[of m' x] space_deref.simps[of m x])
  qed
  then have rp: "rep m' x = rep m x" if "x < ?s" for x using that by (simp add: rep_def)
  have rlt: "rep m x < ?s" if "x < ?s" for x using rep_props[OF ok that] by simp
  have ths: "r_space (runnables m t) < ?s" if "t < nextThread m" for t using ok that by (simp add: tree_ok_def)
  have pars: "s_parent (spaces m x) < ?s" if "x < ?s" "x \<noteq> 0" for x using tree_okD(2)[OF ok that] that by simp
  have run: "running_in m' x = running_in m x" for x unfolding running_in_def f using ths rp by auto
  have act: "active_children m' x = active_children m x" for x
  proof (rule set_eqI)
    fix c
    show "c \<in> active_children m' x \<longleftrightarrow> c \<in> active_children m x"
      using f(5)[of c] f rp[OF pars, of c] unfolding active_children_def by (cases "c = ?s") (auto simp: less_Suc_eq)
  qed
  have none: "running_in m ?s = {}" "active_children m ?s = {}"
    using rlt[OF ths] rlt[OF pars] by (auto simp: running_in_def active_children_def dest: less_imp_neq)
  have "off_by exact m'" unfolding off_by_def expected_count_def run act
  proof (intro allI impI)
    fix s assume s: "s < nextSpace m'" "s \<noteq> 0 \<and> status m' s = ssNormal"
    show "cascaded m' s = int (card (running_in m s)) + int (card (active_children m s)) + 0"
      using s f none assms(1) by (cases "s = ?s") (auto simp: counted_def off_by_def expected_count_def less_Suc_eq)
  qed
  moreover have "nonneg_counts m'" unfolding nonneg_counts_def
  proof (intro allI impI)
    fix s assume s: "s < nextSpace m'" "s \<noteq> 0 \<and> status m' s = ssNormal"
    then show "0 \<le> cascaded m' s"
      using f assms(1) by (cases "s = ?s") (auto simp: counted_def nonneg_counts_def less_Suc_eq)
  qed
  ultimately show ?thesis using t by (simp add: counted_def m'_def)
qed

lemma new_thread_counted:
  assumes "counted exact m" "s < nextSpace m" "alive m s"
    and "Option.bind (new_runnable s pr m) (\<lambda>(t, m). resume_thread False t m) = Some m'"
  shows "counted exact m'"
proof -
  obtain m1 where m1: "new_runnable s pr m = Some (nextThread m, m1)" "tree_ok m1" "extends m m1" "off_by exact m1" "nonneg_counts m1"
      "nextThread m1 = Suc (nextThread m)" "threadPool m1 = threadPool m"
      "runnables m1 (nextThread m) = \<lparr>r_space = s, r_priority = pr, r_runnable = False, r_terminated = False, r_dead = False\<rparr>"
    using new_runnable_correct[of m s exact pr] assms by (auto simp: counted_def)
  let ?t = "nextThread m"
  have "status m1 s \<noteq> ssReference" using alive_normal[OF assms(3)] assms(1) m1(3) by (simp add: counted_def extends_def)
  then have r: "s = rep m1 (r_space (runnables m1 ?t))" by (simp add: m1(8) rep_def space_deref_normal)
  have "\<not> isScheduled ?t (threadPool m1)" using assms(1) m1(7) by (auto simp: counted_def tree_ok_def)
  from resume_correct[OF m1(2,4,5) _ _ _ _ this r alive_extends[OF m1(3) assms(3)]] m1(1,6,8) assms(4)
  show ?thesis by (auto simp: counted_def)
qed

lemma resume_counted:
  assumes "counted exact m" "runs_in m t s" "\<not> isScheduled t (threadPool m)" "resume_thread False t m = Some m'"
  shows "counted exact m'"
proof -
  have ok: "tree_ok m" "off_by exact m" "nonneg_counts m" using assms(1) by (simp_all add: counted_def)
  note r = runs_inD[OF assms(2) ok(1)]
  have "\<not> r_dead (runnables m t)" "\<not> r_terminated (runnables m t)" "\<not> r_runnable (runnables m t)"
    using assms(4) by (auto simp: resume_thread_def Let_def split: if_splits)
  from resume_correct[OF ok r(1) this assms(3) r(2,4)] assms(4) show ?thesis by (auto simp: counted_def)
qed

lemma fail_counted:
  assumes "counted exact m" "s < nextSpace m" "alive m s" "0 < cascaded m s"
  shows "fail_space s m = Some m' \<Longrightarrow> counted exact m'" "kill_space s m = Some m' \<Longrightarrow> counted exact m'"
proof -
  have ok: "tree_ok m" using assms(1) by (simp add: counted_def)
  show "counted exact m'" if f: "fail_space s m = Some m'"
  proof -
    have s: "s \<noteq> 0" using f tree_okD(1)[OF ok assms(2)] by (auto simp: fail_space_def)
    obtain m1 where m1: "decRunnableThreadCount (rep m (s_parent (spaces m s))) (upd_space s (\<lambda>sp. sp\<lparr>s_status := ssFailed\<rparr>) m) = Some m1"
      "counted exact m1" using fail_status_counted[OF assms(1,2) s assms(3,4)] by blast
    let ?m2 = "(upd_space s (\<lambda>sp. sp\<lparr>s_trailEmpty := True\<rparr>) m1)\<lparr>currentSpace := rep m (s_parent (spaces m s))\<rparr>"
    have "counted exact ?m2" by (rule tree_step[OF m1(2)]) simp_all
    moreover have "bindStatusVar s StatusFailed ?m2 = Some m'"
      using f m1(1) getParent_rep[OF ok assms(2) s] by (auto simp: fail_space_def split: if_splits)
    ultimately show ?thesis by (rule bindStatusVar_counted)
  qed
  show "counted exact m'" if f: "kill_space s m = Some m'"
  proof -
    have s: "s \<noteq> 0" using f tree_okD(1)[OF ok assms(2)] by (auto simp: kill_space_def)
    obtain m1 where m1: "decRunnableThreadCount (rep m (s_parent (spaces m s))) (upd_space s (\<lambda>sp. sp\<lparr>s_status := ssFailed\<rparr>) m) = Some m1"
      "counted exact m1" using fail_status_counted[OF assms(1,2) s assms(3,4)] by blast
    have "counted exact (clearStatusVar s m1)" unfolding clearStatusVar_def by (rule tree_step[OF m1(2)]) simp_all
    moreover have "bindStatusVar s StatusFailed (clearStatusVar s m1) = Some m'"
      using f m1(1) getParent_rep[OF ok assms(2) s] by (auto simp: kill_space_def split: if_splits)
    ultimately show ?thesis by (rule bindStatusVar_counted)
  qed
qed

lemma space_request_counted:
  assumes "counted exact m" "space_request watch e m = Some m'"
  shows "counted exact m'"
proof (cases e)
  case (NewSpace p)
  then show ?thesis using assms new_space_counted[OF assms(1), of p] by (auto simp: live_def split: if_splits)
next
  case (NewThread s pr)
  then show ?thesis using assms live_alive[OF assms(1), of s] new_thread_counted[OF assms(1), of s pr m'] by (auto split: if_splits)
next
  case (Resume t)
  then show ?thesis using assms thread_live_runs[OF assms(1), of t] resume_counted[OF assms(1), of t] by (auto split: if_splits)
next
  case (Suspend skip t)
  then show ?thesis using assms thread_live_runs[OF assms(1), of t] suspend_counted[OF assms(1), of t] by (auto split: if_splits)
next
  case (Terminate t)
  then show ?thesis using assms thread_live_runs[OF assms(1), of t] terminate_counted[OF assms(1), of t] by (auto split: if_splits)
next
  case (Fail s)
  then show ?thesis using assms live_alive[OF assms(1), of s] fail_counted(1)[OF assms(1), of s m']
    by (auto simp: hasRunnableThreads_def split: if_splits)
next
  case (Kill s)
  then show ?thesis using assms live_alive[OF assms(1), of s] fail_counted(2)[OF assms(1), of s m']
    by (auto simp: hasRunnableThreads_def split: if_splits)
next
  case (Merge s)
  then obtain p b where p: "live m s" "getParent m s = Some (Some p)" "merge_space True s p (m\<lparr>currentSpace := p\<rparr>) = Some (b, m')"
    using assms(2) by (auto split: if_splits option.splits)
  let ?m = "m\<lparr>currentSpace := p\<rparr>"
  have c: "counted exact ?m" and al: "alive m s \<Longrightarrow> alive ?m s" and gp: "getParent ?m s = getParent m s"
    by (rule tree_step[OF assms(1)]; simp)+
  have "s \<noteq> 0" using p(2) tree_okD(1)[of m s] assms(1) live_alive[OF assms(1) p(1)]
    by (auto simp: getParent_def counted_def split: if_splits)
  then show ?thesis
    using merge_counted[OF c _ _ al _ p(3)] live_alive[OF assms(1) p(1)] p(2) gp by simp
qed

lemma space_session_counted: "counted exact m \<Longrightarrow> counted exact (space_session watch es m)"
  by (induction es arbitrary: m) (auto dest: space_request_counted split: option.split)

lemma new_machine_counted: "counted exact new_machine"
  by (auto simp: counted_def tree_ok_def new_machine_def off_by_def nonneg_counts_def isScheduled_def new_pool_def)

section \<open>Ancestors\<close>

inductive ancestor :: "machine \<Rightarrow> space_id \<Rightarrow> space_id \<Rightarrow> bool" for m where
  self: "ancestor m s s"
| up: "s \<noteq> 0 \<Longrightarrow> ancestor m (rep m (s_parent (spaces m s))) a \<Longrightarrow> ancestor m s a"

inductive_cases ancestorE: "ancestor m s a"

lemma ancestor_step: "s \<noteq> 0 \<Longrightarrow> ancestor m s a \<longleftrightarrow> a = s \<or> ancestor m (rep m (s_parent (spaces m s))) a"
  by (auto elim: ancestor.cases intro: ancestor.intros)

lemma ancestor_0: "ancestor m 0 a \<longleftrightarrow> a = 0"
  by (auto elim: ancestor.cases intro: ancestor.intros)

lemma isAncestor_correct:
  assumes "tree_ok m" "s < nextSpace m"
  shows "isAncestor m s a = Some (ancestor m s a)"
  using assms(2)
proof (induction s rule: less_induct)
  case (less s)
  show ?case
  proof (cases "s = 0")
    case True
    have "getParent m 0 = Some None" using tree_okD(1)[OF assms(1), of 0] assms(1) by (simp add: getParent_def tree_ok_def)
    then show ?thesis using True by (subst isAncestor.simps) (auto simp: ancestor_0)
  next
    case False
    note gp = getParent_rep[OF assms(1) less.prems False]
    then have "isAncestor m (rep m (s_parent (spaces m s))) a = Some (ancestor m (rep m (s_parent (spaces m s))) a)"
      using less by simp
    then show ?thesis using gp ancestor_step[OF False] by (subst isAncestor.simps) auto
  qed
qed

lemma ancestor_top: "tree_ok m \<Longrightarrow> s < nextSpace m \<Longrightarrow> ancestor m s 0"
proof (induction s rule: less_induct)
  case (less s)
  then show ?case using getParent_rep[OF less.prems] by (cases "s = 0") (auto intro: ancestor.intros)
qed

text \<open>Marks.\<close>

definition marked :: "bool \<Rightarrow> space_id set \<Rightarrow> machine \<Rightarrow> machine" where
  "marked b A m = m\<lparr>spaces := (\<lambda>x. if x \<in> A then (spaces m x)\<lparr>s_mark := b\<rparr> else spaces m x)\<rparr>"

lemma marked_fields:
  "nextSpace (marked b A m) = nextSpace m" "getParent (marked b A m) s = getParent m s"
  "ancestor (marked b A m) s a = ancestor m s a" "tree_ok (marked b A m) = tree_ok m"
  "s_mark (spaces (marked b A m) s) = (if s \<in> A then b else s_mark (spaces m s))"
proof -
  have d: "space_deref (marked b A m) x = space_deref m x" for x by (rule space_deref_cong) (simp_all add: marked_def)
  then have r: "rep (marked b A m) x = rep m x" for x by (simp add: rep_def)
  have p: "s_parent (spaces (marked b A m) x) = s_parent (spaces m x)" for x by (simp add: marked_def)
  show "getParent (marked b A m) s = getParent m s" by (simp add: getParent_def d p) (simp add: marked_def)
  show "nextSpace (marked b A m) = nextSpace m" by (simp add: marked_def)
  show "tree_ok (marked b A m) = tree_ok m" by (simp add: tree_ok_def marked_def)
  show "s_mark (spaces (marked b A m) s) = (if s \<in> A then b else s_mark (spaces m s))" by (simp add: marked_def)
  have "ancestor m1 s a \<Longrightarrow> (\<And>x. rep m2 (s_parent (spaces m2 x)) = rep m1 (s_parent (spaces m1 x))) \<Longrightarrow> ancestor m2 s a" for m1 m2
    by (induction rule: ancestor.induct) (auto intro: ancestor.intros)
  then show "ancestor (marked b A m) s a = ancestor m s a" using r p by metis
qed

lemma mark_ancestors_correct:
  assumes "tree_ok m" "s < nextSpace m"
  shows "mark_ancestors b m s = Some (marked b {a. ancestor m s a} m)"
  using assms
proof (induction s arbitrary: m rule: less_induct)
  case (less s)
  let ?m = "upd_space s (\<lambda>sp. sp\<lparr>s_mark := b\<rparr>) m"
  have "(spaces m)(s := (spaces m s)\<lparr>s_mark := b\<rparr>) = (\<lambda>x. if x \<in> {s} then (spaces m x)\<lparr>s_mark := b\<rparr> else spaces m x)"
    by (rule ext) simp
  then have one: "?m = marked b {s} m" by (simp add: marked_def)
  show ?case
  proof (cases "s = 0")
    case True
    have "getParent m 0 = Some None" using tree_okD(1)[OF less.prems(1), of 0] less.prems(1) by (simp add: getParent_def tree_ok_def)
    then have "mark_ancestors b m s = Some ?m" using True by (subst mark_ancestors.simps) (simp add: Let_def)
    moreover have "{a. ancestor m s a} = {s}" using True by (simp add: ancestor_0)
    ultimately show ?thesis using one by simp
  next
    case False
    let ?p = "rep m (s_parent (spaces m s))"
    note gp = getParent_rep[OF less.prems False]
    have "mark_ancestors b (marked b {s} m) ?p = Some (marked b {a. ancestor (marked b {s} m) ?p a} (marked b {s} m))"
      using less.IH[OF gp(2)] less.prems gp(2) by (simp add: marked_fields)
    moreover have "marked b {a. ancestor (marked b {s} m) ?p a} (marked b {s} m) = marked b {a. ancestor m s a} m"
      unfolding marked_fields ancestor_step[OF False] by (simp add: marked_def fun_eq_iff)
    ultimately show ?thesis using gp(1) unfolding one[symmetric]
      by (subst mark_ancestors.simps) (simp add: Let_def)
  qed
qed

lemma first_marked_correct:
  assumes "tree_ok m" "s < nextSpace m" "\<And>x. s_mark (spaces m x) \<longleftrightarrow> x \<in> A" "0 \<in> A"
  shows "\<exists>r. first_marked m s = Some r \<and> r \<in> A \<and> ancestor m s r \<and> (\<forall>a\<in>A. ancestor m s a \<longrightarrow> ancestor m r a)"
  using assms(2)
proof (induction s rule: less_induct)
  case (less s)
  show ?case
  proof (cases "s \<in> A")
    case True
    then have "first_marked m s = Some s" using assms(3) by (simp add: first_marked.simps[of m s])
    then show ?thesis using True by (auto intro: ancestor.self)
  next
    case False
    then have "s \<noteq> 0" using assms(4) by metis
    note gp = getParent_rep[OF assms(1) less.prems this]
    then obtain r where "first_marked m (rep m (s_parent (spaces m s))) = Some r" "r \<in> A"
        "ancestor m (rep m (s_parent (spaces m s))) r"
        "\<forall>a\<in>A. ancestor m (rep m (s_parent (spaces m s))) a \<longrightarrow> ancestor m r a"
      using less by fastforce
    then show ?thesis using False gp(1) assms(3) ancestor_step[OF \<open>s \<noteq> 0\<close>]
      by (auto simp: first_marked.simps[of m s] intro: ancestor.up[OF \<open>s \<noteq> 0\<close>])
  qed
qed

lemma findCommonAncestor_correct:
  assumes "tree_ok m" "s < nextSpace m" "other < nextSpace m" "\<And>x. \<not> s_mark (spaces m x)"
  shows "\<exists>r. findCommonAncestor m s other = Some (r, m) \<and> ancestor m s r \<and> ancestor m other r \<and>
    (\<forall>a. ancestor m s a \<and> ancestor m other a \<longrightarrow> ancestor m r a)"
proof -
  let ?A = "{a. ancestor m other a}" let ?m = "marked True ?A m"
  have "\<exists>r. first_marked ?m s = Some r \<and> r \<in> ?A \<and> ancestor ?m s r \<and> (\<forall>a\<in>?A. ancestor ?m s a \<longrightarrow> ancestor ?m r a)"
    by (rule first_marked_correct) (use assms in \<open>auto simp: marked_fields ancestor_top\<close>)
  then obtain r where r: "first_marked ?m s = Some r" "r \<in> ?A" "ancestor m s r" "\<forall>a\<in>?A. ancestor m s a \<longrightarrow> ancestor m r a"
    by (auto simp: marked_fields)
  have "mark_ancestors False ?m other = Some (marked False ?A ?m)"
    using mark_ancestors_correct[of ?m other False] assms(1,3) by (simp add: marked_fields)
  moreover have "marked False ?A ?m = m"
  proof -
    have "(if x \<in> ?A then (spaces ?m x)\<lparr>s_mark := False\<rparr> else spaces ?m x) = spaces m x" for x
      using assms(4)[of x] by (simp add: marked_def)
    then show ?thesis unfolding marked_def[of False] by (simp add: marked_def)
  qed
  ultimately have "findCommonAncestor m s other = Some (r, m)"
    using mark_ancestors_correct[OF assms(1,3), of True] r(1) by (simp add: findCommonAncestor_def)
  then show ?thesis using r by auto
qed

section \<open>The properties\<close>











text \<open>C30. \<open>Space::findCommonAncestor\<close> returns the nearest common ancestor of two spaces and leaves
  the marks of the spaces as it found them, on every machine that a session leaves.\<close>

theorem findCommonAncestor_nearest:
  assumes "m = space_session watch es new_machine" "s < nextSpace m" "other < nextSpace m" "\<And>x. \<not> s_mark (spaces m x)"
  shows "\<exists>r. findCommonAncestor m s other = Some (r, m) \<and> ancestor m s r \<and> ancestor m other r \<and>
    (\<forall>a. ancestor m s a \<and> ancestor m other a \<longrightarrow> ancestor m r a)"
  using assms space_session_counted[OF new_machine_counted, of watch es]
  by (intro findCommonAncestor_correct) (simp_all add: counted_def)

lemma findCommonAncestor_nearest_witness:
  "\<exists>r. findCommonAncestor (space_session (\<lambda>_. False) [NewSpace 0, NewSpace 1, NewSpace 1] new_machine) 2 3 =
     Some (r, space_session (\<lambda>_. False) [NewSpace 0, NewSpace 1, NewSpace 1] new_machine)"
proof -
  define es where "es = [NewSpace 0, NewSpace 1, NewSpace 1]"
  define m where "m = space_session (\<lambda>_. False) es new_machine"
  have "\<not> s_mark (spaces m x)" for x
    unfolding m_def es_def
    by (simp add: new_machine_def new_space_def live_def isAlive.simps space_deref.simps getParent_def Let_def)
  moreover have "nextSpace m = 4" unfolding m_def es_def by code_simp
  ultimately have "\<exists>r. findCommonAncestor m 2 3 = Some (r, m)" using findCommonAncestor_nearest[OF m_def, of 2 3] by auto
  then show ?thesis by (simp only: m_def es_def)
qed

section \<open>Where the code does not count\<close>


text \<open>The counter of threads is never decremented: a space whose only thread has terminated is stuck.\<close>

theorem terminated_space_is_stuck:
  "s_statusVar (spaces (space_session (\<lambda>_. False) [NewSpace 0, NewThread 1 tpMiddle, Terminate 0] new_machine) 1) = StatusSucceeded False"
  by code_simp

text \<open>An alternative that does not exist: zero and below are accepted, and a number above the range is
  returned negated instead of the number of alternatives.\<close>

theorem choose_commit_range:
  "choose_commit s 2 5 m = Some (- 5, m)"
  "map_option fst (choose_commit 0 2 0 new_machine) = Some 0"
  by (simp add: choose_commit_def) code_simp

end
