(* ===== verification/VirtualStrings.thy ===== *)
theory VirtualStrings
  imports AtomTable Integers Uuid
begin

text \<open>
  Virtual strings and virtual byte strings (\<open>vm/vm/main/utils.hh\<close>), with the conversion of
  values and the patterns they use (\<open>matchdsl.hh\<close>) and the walk over a list. A determined value is
  given as the tree of its contents, a variable by its name; an operation that meets a variable it
  needs waits for it (\<open>Inl\<close>). What the C library and the big integers print is an argument.
\<close>

section \<open>Values and patterns\<close>

datatype oz_value =
    VTransient nat
  | VSmallInt nativeint
  | VBigInt int
  | VFloat u64        \<comment> \<open>the representation of a \<open>double\<close>\<close>
  | VAtom "u8 list"
  | VString "u8 list"
  | VByteString "u8 list"
  | VCons oz_value oz_value
  | VTuple oz_value "oz_value list"
  | VOther

abbreviation sharp :: "u8 list" where "sharp \<equiv> [35]"
abbreviation nil :: "u8 list" where "nil \<equiv> [110, 105, 108]"

definition matches_atom :: "oz_value \<Rightarrow> u8 list \<Rightarrow> nat + bool" where
  "matches_atom value pattern =
     (case value of VAtom a \<Rightarrow> Inr (a = pattern) | VTransient x \<Rightarrow> Inl x | _ \<Rightarrow> Inr False)"

text \<open>
  A C string as pattern: the units of the atom are compared with those at the pattern, as many as
  the atom has. \<open>None\<close>: the comparison leaves the pattern.
\<close>

definition matches_c_string :: "u8 list \<Rightarrow> u8 list \<Rightarrow> bool option" where
  "matches_c_string valueContents pattern =
     (if length valueContents \<le> length pattern + 1 then Some (valueContents = take (length valueContents) (pattern @ [0]))
      else if take (length pattern + 1) valueContents \<noteq> pattern @ [0] then Some False
      else None)"

text \<open>\<open>ozValueToPrimitiveValue\<close>, followed by the wait of a capture.\<close>

definition capture_int :: "(int \<Rightarrow> bool) \<Rightarrow> (int \<Rightarrow> 'a) \<Rightarrow> oz_value \<Rightarrow> nat + 'a option" where
  "capture_int valid conv value =
     (case value of
        VSmallInt i \<Rightarrow> Inr (if valid (sint i) then Some (conv (sint i)) else None)
      | VTransient x \<Rightarrow> Inl x
      | _ \<Rightarrow> Inr None)"

definition capture_char32 :: "oz_value \<Rightarrow> nat + char32 option" where
  "capture_char32 = capture_int isValidCodePoint_native word_of_int"

definition capture_byte :: "oz_value \<Rightarrow> nat + u8 option" where
  "capture_byte = capture_int (\<lambda>i. i \<ge> 0 \<and> i < 256) word_of_int"

definition capture_size :: "oz_value \<Rightarrow> nat + nat option" where
  "capture_size = capture_int (\<lambda>i. i \<ge> 0) nat"

definition capture_int32 :: "oz_value \<Rightarrow> nat + int option" where
  "capture_int32 = capture_int (\<lambda>i. i \<ge> - 2147483648 \<and> i \<le> 2147483647) (\<lambda>i. i)"

section \<open>Lists\<close>

text \<open>\<open>Inr (False, s)\<close>: the list has ended in something else, or an element has another type;
  \<open>f\<close> has been applied to the elements before.\<close>

fun ozListForEachNoRaise :: "(oz_value \<Rightarrow> nat + 'a option) \<Rightarrow> ('a \<Rightarrow> 's \<Rightarrow> 's) \<Rightarrow> oz_value \<Rightarrow> 's \<Rightarrow> nat + (bool \<times> 's)" where
  "ozListForEachNoRaise capture f (VCons head tail) s =
     and_then (capture head) (\<lambda>h.
       case h of None \<Rightarrow> Inr (False, s) | Some h \<Rightarrow> ozListForEachNoRaise capture f tail (f h s))"
| "ozListForEachNoRaise capture f list s = and_then (matches_atom list nil) (\<lambda>b. Inr (b, s))"

text \<open>\<open>Inr None\<close>: a type error.\<close>

fun ozListLength :: "oz_value \<Rightarrow> nat + nat option" where
  "ozListLength (VCons head tail) = and_then (ozListLength tail) (\<lambda>n. Inr (map_option Suc n))"
| "ozListLength list = and_then (matches_atom list nil) (\<lambda>b. Inr (if b then Some 0 else None))"

section \<open>Numbers\<close>

record libraries =
  snprintf_5g :: "u64 \<Rightarrow> u8 list"    \<comment> \<open>\<open>snprintf("%.5g")\<close>\<close>
  big_str :: "int \<Rightarrow> u8 list"        \<comment> \<open>\<open>BigIntImplem::str\<close>\<close>

definition getIntToStrBufferSize :: nat where "getIntToStrBufferSize = 21"
definition getFloatToStrBufferSize :: nat where "getFloatToStrBufferSize = 32"

fun nat_digits :: "nat \<Rightarrow> u8 list" where
  "nat_digits n = (if n < 10 then [word_of_nat (48 + n)] else nat_digits (n div 10) @ [word_of_nat (48 + n mod 10)])"

declare nat_digits.simps [simp del]

definition decimal :: "int \<Rightarrow> u8 list" where
  "decimal i = (if i < 0 then 45 # nat_digits (nat (- i)) else nat_digits (nat i))"

definition intToStrBuffer :: "nativeint \<Rightarrow> u8 list" where
  "intToStrBuffer value = decimal (sint value)"

fun float_units :: "u8 list \<Rightarrow> bool \<Rightarrow> bool \<Rightarrow> u8 list" where
  "float_units [] hasDot hasDigit = (if hasDot then [] else ascii ''.'') @ (if hasDigit then [] else ascii ''0'')"
| "float_units (c # cs) hasDot hasDigit =
     (if c = of_char CHR ''+'' then float_units cs hasDot hasDigit
      else if c = of_char CHR ''e'' then
        (if hasDot then [] else ascii ''.'') @ (if hasDigit then [] else ascii ''0'') @ c # float_units cs True True
      else if c = of_char CHR ''.'' then c # float_units cs True hasDigit
      else if c \<ge> of_char CHR ''0'' \<and> c \<le> of_char CHR ''9'' then c # float_units cs hasDot (hasDot \<or> hasDigit)
      else c # float_units cs hasDot hasDigit)"

definition floatToStrBuffer :: "libraries \<Rightarrow> u64 \<Rightarrow> u8 list" where
  "floatToStrBuffer L value = float_units (snprintf_5g L value) False False"

section \<open>Virtual strings\<close>

text \<open>The length of a buffer for the string, \<open>-1\<close> for something else.\<close>

fun ozVSLengthForBufferNoRaise :: "libraries \<Rightarrow> oz_value \<Rightarrow> nat + int"
  and ozVSLength_parts :: "libraries \<Rightarrow> oz_value list \<Rightarrow> int \<Rightarrow> nat + int" where
  "ozVSLengthForBufferNoRaise L (VTransient x) = Inl x"
| "ozVSLengthForBufferNoRaise L (VTuple label parts) =
     and_then (matches_atom label sharp) (\<lambda>b. if b then ozVSLength_parts L parts 0 else Inr (- 1))"
| "ozVSLengthForBufferNoRaise L (VAtom a) =
     Inr (if a = sharp then 0 else if a \<noteq> nil then int (length a) else 0)"
| "ozVSLengthForBufferNoRaise L (VCons head tail) =
     and_then (ozListForEachNoRaise capture_char32 (\<lambda>c result. result + 4) (VCons head tail) 0)
       (\<lambda>(ok, result). Inr (if ok then result else - 1))"
| "ozVSLengthForBufferNoRaise L (VString s) = Inr (int (length s))"
| "ozVSLengthForBufferNoRaise L (VSmallInt i) = Inr (int getIntToStrBufferSize)"
| "ozVSLengthForBufferNoRaise L (VBigInt i) = Inr (int (length (big_str L i)))"
| "ozVSLengthForBufferNoRaise L (VFloat d) = Inr (int getFloatToStrBufferSize)"
| "ozVSLengthForBufferNoRaise L (VByteString b) = Inr (- 1)"
| "ozVSLengthForBufferNoRaise L VOther = Inr (- 1)"
| "ozVSLength_parts L [] result = Inr result"
| "ozVSLength_parts L (p # ps) result =
     and_then (ozVSLengthForBufferNoRaise L p) (\<lambda>partResult.
       if partResult < 0 then Inr (- 1) else ozVSLength_parts L ps (result + partResult))"

definition code_point_units :: "char32 \<Rightarrow> u8 list" where
  "code_point_units c = (case to_utf8 c of Inr us \<Rightarrow> us | Inl _ \<Rightarrow> [])"

text \<open>The units are appended to \<open>output\<close>; \<open>False\<close> for something else.\<close>

fun ozVSGetNoRaise :: "libraries \<Rightarrow> oz_value \<Rightarrow> u8 list \<Rightarrow> nat + (bool \<times> u8 list)"
  and ozVSGet_parts :: "libraries \<Rightarrow> oz_value list \<Rightarrow> u8 list \<Rightarrow> nat + (bool \<times> u8 list)" where
  "ozVSGetNoRaise L (VTransient x) output = Inl x"
| "ozVSGetNoRaise L (VTuple label parts) output =
     and_then (matches_atom label sharp) (\<lambda>b. if b then ozVSGet_parts L parts output else Inr (False, output))"
| "ozVSGetNoRaise L (VAtom a) output =
     Inr (True, if a = sharp then output else if a \<noteq> nil then output @ a else output)"
| "ozVSGetNoRaise L (VCons head tail) output =
     ozListForEachNoRaise capture_char32 (\<lambda>c output. output @ code_point_units c) (VCons head tail) output"
| "ozVSGetNoRaise L (VString s) output = Inr (True, output @ s)"
| "ozVSGetNoRaise L (VSmallInt i) output = Inr (True, output @ intToStrBuffer i)"
| "ozVSGetNoRaise L (VBigInt i) output = Inr (True, output @ big_str L i)"
| "ozVSGetNoRaise L (VFloat d) output = Inr (True, output @ floatToStrBuffer L d)"
| "ozVSGetNoRaise L (VByteString b) output = Inr (False, output)"
| "ozVSGetNoRaise L VOther output = Inr (False, output)"
| "ozVSGet_parts L [] output = Inr (True, output)"
| "ozVSGet_parts L (p # ps) output =
     and_then (ozVSGetNoRaise L p output) (\<lambda>(ok, output). if ok then ozVSGet_parts L ps output else Inr (False, output))"

datatype vs_exn = VSWait nat | VSTypeError

definition ozIsVirtualString :: "libraries \<Rightarrow> oz_value \<Rightarrow> nat + bool" where
  "ozIsVirtualString L vs = and_then (ozVSLengthForBufferNoRaise L vs) (\<lambda>n. Inr (n \<ge> 0))"

definition ozVSLengthForBuffer :: "libraries \<Rightarrow> oz_value \<Rightarrow> vs_exn + nat" where
  "ozVSLengthForBuffer L vs =
     (case ozVSLengthForBufferNoRaise L vs of
        Inl x \<Rightarrow> Inl (VSWait x) | Inr result \<Rightarrow> if result \<ge> 0 then Inr (nat result) else Inl VSTypeError)"

definition ozVSGet :: "libraries \<Rightarrow> oz_value \<Rightarrow> vs_exn + u8 list" where
  "ozVSGet L vs =
     (case ozVSGetNoRaise L vs [] of
        Inl x \<Rightarrow> Inl (VSWait x) | Inr (ok, output) \<Rightarrow> if ok then Inr output else Inl VSTypeError)"

text \<open>The number of code points; the buffer has no error, so the count is not negative.\<close>

definition ozVSLength :: "libraries \<Rightarrow> oz_value \<Rightarrow> vs_exn + nat" where
  "ozVSLength L vs =
     and_then (ozVSLengthForBuffer L vs) (\<lambda>bufSize.
     and_then (ozVSGet L vs) (\<lambda>buffer.
       Inr (nat (codePointCount False isLeading8 (LStr buffer)))))"

section \<open>Virtual byte strings\<close>

fun ozVBSLengthForBufferNoRaise :: "oz_value \<Rightarrow> nat + int"
  and ozVBSLength_parts :: "oz_value list \<Rightarrow> int \<Rightarrow> nat + int" where
  "ozVBSLengthForBufferNoRaise (VTransient x) = Inl x"
| "ozVBSLengthForBufferNoRaise (VTuple label parts) =
     and_then (matches_atom label sharp) (\<lambda>b. if b then ozVBSLength_parts parts 0 else Inr (- 1))"
| "ozVBSLengthForBufferNoRaise (VAtom a) = Inr (if a = sharp \<or> a = nil then 0 else - 1)"
| "ozVBSLengthForBufferNoRaise (VCons head tail) =
     and_then (ozListForEachNoRaise capture_byte (\<lambda>b result. result + 1) (VCons head tail) 0)
       (\<lambda>(ok, result). Inr (if ok then result else - 1))"
| "ozVBSLengthForBufferNoRaise (VByteString b) = Inr (int (length b))"
| "ozVBSLengthForBufferNoRaise _ = Inr (- 1)"
| "ozVBSLength_parts [] result = Inr result"
| "ozVBSLength_parts (p # ps) result =
     and_then (ozVBSLengthForBufferNoRaise p) (\<lambda>partResult.
       if partResult < 0 then Inr (- 1) else ozVBSLength_parts ps (result + partResult))"

fun ozVBSGetNoRaise :: "oz_value \<Rightarrow> u8 list \<Rightarrow> nat + (bool \<times> u8 list)"
  and ozVBSGet_parts :: "oz_value list \<Rightarrow> u8 list \<Rightarrow> nat + (bool \<times> u8 list)" where
  "ozVBSGetNoRaise (VTransient x) output = Inl x"
| "ozVBSGetNoRaise (VTuple label parts) output =
     and_then (matches_atom label sharp) (\<lambda>b. if b then ozVBSGet_parts parts output else Inr (False, output))"
| "ozVBSGetNoRaise (VAtom a) output = Inr (a = sharp \<or> a = nil, output)"
| "ozVBSGetNoRaise (VCons head tail) output =
     ozListForEachNoRaise capture_byte (\<lambda>b output. output @ [b]) (VCons head tail) output"
| "ozVBSGetNoRaise (VByteString b) output = Inr (True, output @ b)"
| "ozVBSGetNoRaise _ output = Inr (False, output)"
| "ozVBSGet_parts [] output = Inr (True, output)"
| "ozVBSGet_parts (p # ps) output =
     and_then (ozVBSGetNoRaise p output) (\<lambda>(ok, output). if ok then ozVBSGet_parts ps output else Inr (False, output))"

definition ozIsVirtualByteString :: "oz_value \<Rightarrow> nat + bool" where
  "ozIsVirtualByteString vs = and_then (ozVBSLengthForBufferNoRaise vs) (\<lambda>n. Inr (n \<ge> 0))"

definition ozVBSLengthForBuffer :: "oz_value \<Rightarrow> vs_exn + nat" where
  "ozVBSLengthForBuffer vbs =
     (case ozVBSLengthForBufferNoRaise vbs of
        Inl x \<Rightarrow> Inl (VSWait x) | Inr result \<Rightarrow> if result \<ge> 0 then Inr (nat result) else Inl VSTypeError)"

definition ozVBSGet :: "oz_value \<Rightarrow> vs_exn + u8 list" where
  "ozVBSGet vbs =
     (case ozVBSGetNoRaise vbs [] of
        Inl x \<Rightarrow> Inl (VSWait x) | Inr (ok, output) \<Rightarrow> if ok then Inr output else Inl VSTypeError)"

definition ozVBSLength :: "oz_value \<Rightarrow> vs_exn + nat" where
  "ozVBSLength vs = ozVBSLengthForBuffer vs"

text \<open>An identifier as an argument is a virtual byte string of length 16.\<close>

definition capture_uuid :: "oz_value \<Rightarrow> nat + UUID option" where
  "capture_uuid value =
     (case value of
        VByteString b \<Rightarrow> Inr (if length b = 16 then Some (uuid_of_bytes b) else None)
      | _ \<Rightarrow>
        and_then (ozVBSLengthForBufferNoRaise value) (\<lambda>n.
          if n = 16 then and_then (ozVBSGetNoRaise value []) (\<lambda>(ok, bytes). Inr (Some (uuid_of_bytes bytes)))
          else Inr None))"

section \<open>Buffers are long enough\<close>

lemma length_nat_digits: "n < 10 ^ k \<Longrightarrow> 0 < k \<Longrightarrow> length (nat_digits n) \<le> k"
proof (induction n arbitrary: k rule: nat_digits.induct)
  case (1 n)
  show ?case
  proof (cases "n < 10")
    case False
    obtain j where k: "k = Suc j" using 1(3) by (cases k) auto
    moreover have "0 < j" using k 1(2) False by (cases j) auto
    ultimately have k: "k = Suc j" "0 < j" by auto
    then have "n div 10 < 10 ^ j" using 1(2) by (auto simp: less_mult_imp_div_less mult.commute)
    then show ?thesis using 1(1)[of j] False k by (simp add: nat_digits.simps[of n])
  qed (use 1(3) in \<open>simp add: nat_digits.simps[of n]\<close>)
qed

lemma length_intToStrBuffer: "length (intToStrBuffer i) < getIntToStrBufferSize"
proof -
  have "nat (- sint i) < 10 ^ 19" "nat (sint i) < 10 ^ 19" using sint_range[of i] by auto
  from this[THEN length_nat_digits] show ?thesis
    by (auto simp: intToStrBuffer_def decimal_def getIntToStrBufferSize_def)
qed

lemma length_float_units: "length (float_units cs hasDot hasDigit) \<le> length cs + (if hasDot then 0 else 1) + (if hasDigit then 0 else 1)"
proof (induction cs hasDot hasDigit rule: float_units.induct)
  case (2 c cs hasDot hasDigit)
  then show ?case by (auto simp: ascii_def)
qed (simp add: ascii_def)

lemma length_code_point_units: "length (code_point_units c) \<le> 4"
  by (auto simp: code_point_units_def dest!: to_utf8_shape split: sum.split)

text \<open>Two walks over a list with accumulators that are related.\<close>

lemma list_walks:
  assumes "\<And>h s s'. R s s' \<Longrightarrow> R (f h s) (g h s')" "R s s'"
  shows "rel_sum (=) (rel_prod (=) R) (ozListForEachNoRaise capture f v s) (ozListForEachNoRaise capture g v s')"
  using assms(2)
proof (induction v arbitrary: s s')
  case (VCons head tail)
  show ?case
  proof (cases "capture head")
    case (Inr x)
    then show ?thesis using VCons(2)[OF assms(1)[OF VCons(3)]] VCons(3) by (cases x) auto
  qed simp
qed (auto simp: matches_atom_def)

text \<open>What a length says of the walk that writes the units.\<close>

definition fits_buffer :: "bool \<Rightarrow> nat + int \<Rightarrow> u8 list \<Rightarrow> nat + (bool \<times> u8 list) \<Rightarrow> bool" where
  "fits_buffer exactly len out got \<longleftrightarrow>
     (case len of
        Inl x \<Rightarrow> got = Inl x
      | Inr n \<Rightarrow> (\<exists>s. got = Inr (n \<ge> 0, out @ s) \<and> (n \<ge> 0 \<longrightarrow> int (length s) \<le> n \<and> (exactly \<longrightarrow> int (length s) = n))))"

lemma fits_bufferI: "int (length s) \<le> n \<Longrightarrow> (exactly \<Longrightarrow> int (length s) = n) \<Longrightarrow> fits_buffer exactly (Inr n) out (Inr (True, out @ s))"
  by (auto simp: fits_buffer_def)

lemma fits_buffer_list:
  assumes "\<And>c. length (u c) \<le> k" "exactly \<Longrightarrow> (\<And>c. length (u c) = k)"
  shows "fits_buffer exactly
     (and_then (ozListForEachNoRaise capture (\<lambda>c result. result + int k) v 0) (\<lambda>(ok, result). Inr (if ok then result else - 1)))
     out (ozListForEachNoRaise capture (\<lambda>c out. out @ u c) v out)"
proof -
  let ?R = "\<lambda>n w. 0 \<le> n \<and> (\<exists>s. w = out @ s \<and> int (length s) \<le> n \<and> (exactly \<longrightarrow> int (length s) = n))"
  have step: "?R (n + int k) (o1 @ u c)" if h: "?R n o1" for n o1 c
  proof -
    obtain s where "o1 = out @ s" "0 \<le> n" "int (length s) \<le> n" "exactly \<longrightarrow> int (length s) = n" using h by blast
    then show ?thesis using assms(1)[of c] assms(2)[of c] by (auto intro!: exI[of _ "s @ u c"])
  qed
  have "rel_sum (=) (rel_prod (=) ?R)
     (ozListForEachNoRaise capture (\<lambda>c result. result + int k) v 0)
     (ozListForEachNoRaise capture (\<lambda>c out. out @ u c) v out)"
    by (rule list_walks[where R = ?R, OF step]) simp_all
  then show ?thesis
    by (auto simp: fits_buffer_def rel_sum_simps rel_prod.simps elim!: rel_sum.cases)
qed

lemma fits_buffer_parts:
  assumes "fits_buffer exactly part (out @ s) got"
    and "0 \<le> n" "int (length s) \<le> n" "exactly \<Longrightarrow> int (length s) = n"
    and "\<And>m r. part = Inr m \<Longrightarrow> 0 \<le> m \<Longrightarrow> int (length (s @ r)) \<le> n + m \<Longrightarrow> (exactly \<Longrightarrow> int (length (s @ r)) = n + m) \<Longrightarrow>
      fits_buffer exactly (rest (n + m)) out (cont (out @ s @ r))"
  shows "fits_buffer exactly (and_then part (\<lambda>m. if m < 0 then Inr (- 1) else rest (n + m))) out
    (and_then got (\<lambda>(ok, o'). if ok then cont o' else Inr (False, o')))"
proof (cases part)
  case (Inr m)
  then obtain r where r: "got = Inr (m \<ge> 0, (out @ s) @ r)"
      "m \<ge> 0 \<longrightarrow> int (length r) \<le> m \<and> (exactly \<longrightarrow> int (length r) = m)"
    using assms(1) by (auto simp: fits_buffer_def)
  show ?thesis
  proof (cases "m \<ge> 0")
    case True
    then have "fits_buffer exactly (rest (n + m)) out (cont (out @ s @ r))"
      using assms(2-4) r by (intro assms(5)[OF Inr]) auto
    then show ?thesis using True Inr r by simp
  next
    case False
    then show ?thesis using Inr r by (simp add: fits_buffer_def)
  qed
qed (use assms(1) in \<open>simp add: fits_buffer_def\<close>)

lemma vs_fits:
  assumes "\<And>d. length (snprintf_5g L d) \<le> 29"
  shows "fits_buffer False (ozVSLengthForBufferNoRaise L v) out (ozVSGetNoRaise L v out)"
    and "0 \<le> n \<Longrightarrow> int (length s) \<le> n \<Longrightarrow> fits_buffer False (ozVSLength_parts L vs n) out (ozVSGet_parts L vs (out @ s))"
  using assms
proof (induction v and vs n arbitrary: out and out s
    rule: ozVSLengthForBufferNoRaise_ozVSLength_parts.induct[case_names 1 2 3 4 5 6 7 8 9 10 11 12])
  case (2 L' label parts)
  show ?case
  proof (cases "label = VAtom sharp")
    case True
    then show ?thesis using 2(1)[of True "[]" out] 2(2) by (simp add: matches_atom_def)
  qed (cases label; auto simp: matches_atom_def fits_buffer_def)
next
  case (4 L' head tail)
  then show ?case using fits_buffer_list[of code_point_units 4 False capture_char32 "VCons head tail" out] length_code_point_units
    by (simp del: ozListForEachNoRaise.simps)
next
  case (6 L' i)
  then show ?case using length_intToStrBuffer[of i] by (auto intro!: fits_bufferI)
next
  case (8 L' d)
  have "length (floatToStrBuffer L' d) \<le> 32"
    using order_trans[OF length_float_units[of "snprintf_5g L' d" False False], of 32] 8[of d] by (simp add: floatToStrBuffer_def)
  then show ?case by (auto intro!: fits_bufferI simp: getFloatToStrBufferSize_def)
next
  case (12 L' p ps result)
  show ?case unfolding ozVSLength_parts.simps ozVSGet_parts.simps
    by (rule fits_buffer_parts[OF 12(1)]) (use 12 in auto)
qed (auto simp: fits_buffer_def)

lemma vbs_fits:
  shows "fits_buffer True (ozVBSLengthForBufferNoRaise v) out (ozVBSGetNoRaise v out)"
    and "int (length s) = n \<Longrightarrow> fits_buffer True (ozVBSLength_parts vs n) out (ozVBSGet_parts vs (out @ s))"
proof (induction v and vs n arbitrary: out and out s rule: ozVBSLengthForBufferNoRaise_ozVBSLength_parts.induct[case_names 1 2 3 4 5 6 7 8 9 10 11 12])
  case (2 label parts)
  show ?case
  proof (cases "label = VAtom sharp")
    case True
    then show ?thesis using 2(1)[of True "[]" out] by (simp add: matches_atom_def)
  qed (cases label; auto simp: matches_atom_def fits_buffer_def)
next
  case (4 head tail)
  then show ?case using fits_buffer_list[of "\<lambda>b. [b]" 1 True capture_byte "VCons head tail" out]
    by (simp del: ozListForEachNoRaise.simps)
next
  case (12 p ps result)
  show ?case unfolding ozVBSLength_parts.simps ozVBSGet_parts.simps
    by (rule fits_buffer_parts[OF 12(1)]) (use 12 in auto)
qed (auto simp: fits_buffer_def)

text \<open>C17. Virtual strings (\<open>ozVSLengthForBuffer\<close>, \<open>ozVSGet\<close>): when the length of the buffer can be
  computed, the string can be read and fits into a buffer of that length, as the comment of
  \<open>ozVSGet\<close> promises; otherwise reading raises the same type error or waits for the same
  variable. The length of a virtual byte string is exact. \<open>snprintf\<close> writes at most 29 characters
  for \<open>%.5g\<close> (it needs at most 12).\<close>

theorem virtual_strings_fit:
  assumes "\<And>d. length (snprintf_5g L d) \<le> 29"
  shows "(case ozVSLengthForBuffer L vs of
      Inl e \<Rightarrow> ozVSGet L vs = Inl e
    | Inr n \<Rightarrow> \<exists>s. ozVSGet L vs = Inr s \<and> length s \<le> n) \<and>
    (case ozVBSLengthForBuffer vs of
      Inl e \<Rightarrow> ozVBSGet vs = Inl e
    | Inr n \<Rightarrow> \<exists>s. ozVBSGet vs = Inr s \<and> length s = n)"
  using vs_fits(1)[OF assms, of vs "[]"] vbs_fits(1)[of vs "[]"]
  by (auto simp: fits_buffer_def ozVSLengthForBuffer_def ozVSGet_def ozVBSLengthForBuffer_def ozVBSGet_def split: sum.splits)

lemma virtual_strings_fit_witness:
  "ozVSGet \<lparr>snprintf_5g = \<lambda>_. ascii ''1e+10'', big_str = decimal\<rparr>
     (VTuple (VAtom sharp) [VFloat 0, VAtom nil, VCons (VSmallInt 8364) (VAtom nil), VSmallInt (- 7)]) =
     Inr (ascii ''1.0e10'' @ [226, 130, 172] @ ascii ''-7'') \<and>
   (\<exists>s. ozVSGet \<lparr>snprintf_5g = \<lambda>_. ascii ''1e+10'', big_str = decimal\<rparr> (VFloat 0) = Inr s \<and> length s \<le> 32)"
proof
  let ?L = "\<lparr>snprintf_5g = \<lambda>_. ascii ''1e+10'', big_str = decimal\<rparr>"
  show "ozVSGet ?L (VTuple (VAtom sharp) [VFloat 0, VAtom nil, VCons (VSmallInt 8364) (VAtom nil), VSmallInt (- 7)]) =
     Inr (ascii ''1.0e10'' @ [226, 130, 172] @ ascii ''-7'')" by code_simp
  have "ozVSLengthForBuffer ?L (VFloat 0) = Inr 32" by code_simp
  then show "\<exists>s. ozVSGet ?L (VFloat 0) = Inr s \<and> length s \<le> 32"
    using virtual_strings_fit[of ?L "VFloat 0"] by (simp add: ascii_def)
qed

text \<open>A C string as a pattern (\<open>Matcher<const char*>\<close>) is matched by every atom that it starts
  with, the empty one included: \<open>'utf'\<close> is taken for \<open>utf8\<close>, the empty atom for \<open>latin1\<close>.\<close>

theorem c_string_pattern_prefix:
  "matches_c_string a pattern = Some True \<longleftrightarrow> (\<exists>rest. pattern @ [0] = a @ rest)"
proof
  assume m: "matches_c_string a pattern = Some True"
  then have "a = take (length a) (pattern @ [0])" by (auto simp: matches_c_string_def split: if_splits)
  then show "\<exists>rest. pattern @ [0] = a @ rest" by (metis append_take_drop_id)
next
  assume "\<exists>rest. pattern @ [0] = a @ rest"
  then obtain rest where r: "pattern @ [0] = a @ rest" by blast
  moreover from this have "length a \<le> length pattern + 1" by (metis length_append length_append_singleton le_add1 Suc_eq_plus1)
  ultimately show "matches_c_string a pattern = Some True" by (simp add: matches_c_string_def)
qed

end
