(* ===== verification/Pickler.thy ===== *)
theory Pickler
  imports Features VirtualStrings
begin

text \<open>
  Writing pickles (\<open>vm/vm/main/pickler.cc\<close>, \<open>serializer.hh\<close> and the \<open>serialize\<close> method of each
  type): the walk over the graph of nodes, which marks each node in the store with its index, and the
  three phases that write values, arities and the rest. A node is numbered by its address. An
  optimised name is taken as the name it becomes when it is globalised, an entity has the identifier
  that \<open>globalize\<close> answers. \<open>None\<close>: a chain of references does not end.
\<close>

section \<open>The store\<close>

datatype 'n pnode =
    PSmallInt nativeint | PBigInt int | PFloat u64 | PBoolean bool | PUnit | PAtom "u8 list"
  | PCons 'n 'n
  | PTuple 'n "'n list"                                      \<comment> \<open>label, elements\<close>
  | PArity 'n "'n list"                                      \<comment> \<open>label, features\<close>
  | PRecord 'n "'n list"                                     \<comment> \<open>arity, elements\<close>
  | PBuiltin "u8 list" "u8 list"                             \<comment> \<open>module, name\<close>
  | PCodeArea UUID "char16 list" nat nat "u8 list" 'n "'n list"  \<comment> \<open>code, arity, Xcount, printName, debugData, Ks\<close>
  | PCapture int | PConjunction "'n list" | POpenRecord 'n "'n list"
  | PAbstraction UUID 'n "'n list"                           \<comment> \<open>body, Gs\<close>
  | PChunk 'n | PUniqueName "u8 list" | PName UUID | PNamedName UUID "u8 list" | PString "u8 list"
  | PFuture | POther "u8 list"                               \<comment> \<open>the atom of its type\<close>

type_synonym node_id = nat

datatype cell = Value "node_id pnode" | Reference node_id | Serialized nat

type_synonym store = "node_id \<Rightarrow> cell"

partial_function (option) deref :: "store \<Rightarrow> node_id \<Rightarrow> node_id option" where
  "deref st n = (case st n of Reference m \<Rightarrow> deref st m | _ \<Rightarrow> Some n)"

declare deref.simps [code]

fun isCopyable :: "cell \<Rightarrow> bool" where
  "isCopyable (Value v) =
     (case v of PSmallInt _ \<Rightarrow> True | PFloat _ \<Rightarrow> True | PBoolean _ \<Rightarrow> True | PUnit \<Rightarrow> True | PAtom _ \<Rightarrow> True
        | PBuiltin _ _ \<Rightarrow> True | PCapture _ \<Rightarrow> True | PUniqueName _ \<Rightarrow> True | _ \<Rightarrow> False)"
| "isCopyable (Reference _) = True"
| "isCopyable (Serialized _) = False"

text \<open>\<open>RichNode::reinit\<close> with another node.\<close>

definition reinit :: "node_id \<Rightarrow> node_id \<Rightarrow> store \<Rightarrow> store" where
  "reinit n from st =
     (if n = from then st else st(n := if isCopyable (st from) then st from else Reference from))"

section \<open>Serialization of one node\<close>

text \<open>The nodes behind a node, in the order in which its \<open>serialize\<close> copies them.\<close>

definition cons_refs :: "'n \<Rightarrow> 'n \<Rightarrow> 'n list" where
  [simp]: "cons_refs head tail = [head, tail]"

definition tuple_refs :: "'n \<Rightarrow> 'n list \<Rightarrow> 'n list" where
  [simp]: "tuple_refs label elements = elements @ [label]"

definition arity_refs :: "'n \<Rightarrow> 'n list \<Rightarrow> 'n list" where
  [simp]: "arity_refs label elements = elements @ [label]"

definition record_refs :: "'n \<Rightarrow> 'n list \<Rightarrow> 'n list" where
  [simp]: "record_refs arity elements = elements @ [arity]"

definition codearea_refs :: "'n \<Rightarrow> 'n list \<Rightarrow> 'n list" where
  [simp]: "codearea_refs debugData Ks = Ks @ [debugData]"

definition openrecord_refs :: "'n \<Rightarrow> 'n list \<Rightarrow> 'n list" where
  [simp]: "openrecord_refs arity elements = elements @ [arity]"

definition abstraction_refs :: "'n \<Rightarrow> 'n list \<Rightarrow> 'n list" where
  [simp]: "abstraction_refs body Gs = Gs @ [body]"

definition conjunction_refs :: "'n list \<Rightarrow> 'n list" where
  [simp]: "conjunction_refs elements = elements"

definition chunk_refs :: "'n \<Rightarrow> 'n list" where
  [simp]: "chunk_refs underlying = [underlying]"

fun children :: "'n pnode \<Rightarrow> 'n list" where
  "children (PCons head tail) = cons_refs head tail"
| "children (PTuple label elements) = tuple_refs label elements"
| "children (PArity label elements) = arity_refs label elements"
| "children (PRecord arity elements) = record_refs arity elements"
| "children (PCodeArea _ _ _ _ _ debugData Ks) = codearea_refs debugData Ks"
| "children (PConjunction elements) = conjunction_refs elements"
| "children (POpenRecord arity elements) = openrecord_refs arity elements"
| "children (PAbstraction _ body Gs) = abstraction_refs body Gs"
| "children (PChunk underlying) = chunk_refs underlying"
| "children _ = []"

text \<open>The label of the tuple that \<open>serialize\<close> returns.\<close>

fun serialize_label :: "'n pnode \<Rightarrow> u8 list" where
  "serialize_label (PSmallInt _) = ascii ''int''"
| "serialize_label (PBigInt _) = ascii ''int''"
| "serialize_label (PFloat _) = ascii ''float''"
| "serialize_label (PBoolean _) = ascii ''bool''"
| "serialize_label PUnit = ascii ''unit''"
| "serialize_label (PAtom _) = ascii ''atom''"
| "serialize_label (PCons _ _) = ascii ''cons''"
| "serialize_label (PTuple _ _) = ascii ''tuple''"
| "serialize_label (PArity _ _) = ascii ''arity''"
| "serialize_label (PRecord _ _) = ascii ''record''"
| "serialize_label (PBuiltin _ _) = ascii ''builtin''"
| "serialize_label (PCodeArea _ _ _ _ _ _ _) = ascii ''codearea''"
| "serialize_label (PCapture i) = (if i = - 1 then ascii ''patmatwildcard'' else ascii ''patmatcapture'')"
| "serialize_label (PConjunction _) = ascii ''patmatconjunction''"
| "serialize_label (POpenRecord _ _) = ascii ''patmatopenrecord''"
| "serialize_label (PAbstraction _ _ _) = ascii ''abstraction''"
| "serialize_label (PChunk _) = ascii ''chunk''"
| "serialize_label (PUniqueName _) = ascii ''uniquename''"
| "serialize_label (PName _) = ascii ''name''"
| "serialize_label (PNamedName _ _) = ascii ''namedname''"
| "serialize_label (PString _) = ascii ''unicodeString''"
| "serialize_label PFuture = ascii ''future''"
| "serialize_label (POther typeAtom) = typeAtom"

definition typesRecord :: "(u8 list \<times> nat) list" where
  "typesRecord = zip
     (map ascii [''abstraction'', ''arity'', ''atom'', ''bool'', ''builtin'', ''chunk'', ''codearea'', ''cons'', ''float'',
        ''int'', ''name'', ''namedname'', ''patmatcapture'', ''patmatconjunction'', ''patmatopenrecord'',
        ''patmatwildcard'', ''record'', ''tuple'', ''unicodeString'', ''uniquename'', ''unit''])
     [16, 8, 5, 3, 10, 17, 11, 6, 2, 1, 19, 20, 13, 14, 15, 12, 9, 7, 21, 18, 4]"

definition type_id :: "'n pnode \<Rightarrow> nat option" where
  "type_id v = map_of typesRecord (serialize_label v)"

fun feature_of :: "'n pnode \<Rightarrow> feature option" where
  "feature_of (PSmallInt i) = Some (FSmallInt i)"
| "feature_of (PBigInt i) = Some (FBigInt i)"
| "feature_of (PAtom a) = Some (FAtom a)"
| "feature_of (PBoolean b) = Some (FBoolean b)"
| "feature_of PUnit = Some FUnit"
| "feature_of (PName u) = Some (FGlobalName u)"
| "feature_of (PNamedName u _) = Some (FNamedName u)"
| "feature_of (PUniqueName a) = Some (FUniqueName a)"
| "feature_of _ = None"

text \<open>Simple values that are not features.\<close>

fun plain_value :: "'n pnode \<Rightarrow> bool" where
  "plain_value (PFloat _) = True"
| "plain_value (PCapture _) = True"
| "plain_value (PString _) = True"
| "plain_value _ = False"

section \<open>The walk\<close>

text \<open>An entry of \<open>nodes\<close>: index, node and what it was before it was marked, from which its
  serialized form is read.\<close>

type_synonym entry = "nat \<times> node_id \<times> node_id pnode"

record pickle_state =
  p_store :: store
  todoFrom :: "node_id list"
  nodes :: "entry list"
  nodeBackups :: "(node_id \<times> cell) list"
  futures :: bool
  resources :: "node_id list"
  pcount :: nat

definition pickle_visit :: "node_id \<Rightarrow> pickle_state \<Rightarrow> pickle_state option" where
  "pickle_visit from s =
     (case p_store s from of
        Value v \<Rightarrow>
          Option.bind (those (map (deref (p_store s)) (children v))) (\<lambda>behind.
            let s = s\<lparr>pcount := Suc (pcount s), todoFrom := todoFrom s @ behind,
                  nodes := (Suc (pcount s), from, v) # nodes s\<rparr>;
                s = (if futures s then s
                     else if v = PFuture then s\<lparr>futures := True\<rparr>
                     else if type_id v = None then s\<lparr>resources := from # resources s\<rparr>
                     else s)
            in Some (s\<lparr>nodeBackups := (from, p_store s from) # nodeBackups s,
                       p_store := (p_store s)(from := Serialized (pcount s))\<rparr>))
      | _ \<Rightarrow> Some s)"

partial_function (option) pickle_loop :: "pickle_state \<Rightarrow> pickle_state option" where
  "pickle_loop s =
     (case todoFrom s of
        [] \<Rightarrow> Some s
      | from # rest \<Rightarrow> Option.bind (pickle_visit from (s\<lparr>todoFrom := rest\<rparr>)) pickle_loop)"

declare pickle_loop.simps [code]

fun restoreNodes :: "(node_id \<times> cell) list \<Rightarrow> store \<Rightarrow> store" where
  "restoreNodes [] st = st"
| "restoreNodes ((n, saved) # backups) st = restoreNodes backups (st(n := saved))"

text \<open>The last replacement of the list comes first.\<close>

fun replaceNodes :: "(node_id \<times> node_id) list \<Rightarrow> (node_id \<times> cell) list \<times> store \<Rightarrow> (node_id \<times> cell) list \<times> store" where
  "replaceNodes [] (backups, st) = (backups, st)"
| "replaceNodes ((from, to) # replacements) (backups, st) =
     replaceNodes replacements ((from, st from) # backups, reinit from to st)"

text \<open>The index that the variable of a reference has been bound to.\<close>

definition index_of :: "store \<Rightarrow> node_id \<Rightarrow> nat" where
  "index_of st n = (case deref st n of Some m \<Rightarrow> (case st m of Serialized i \<Rightarrow> i | _ \<Rightarrow> 0) | None \<Rightarrow> 0)"

section \<open>Bytes\<close>

definition byte_of :: "nat \<Rightarrow> u8" where
  "byte_of n = word_of_nat n"

definition writeSize :: "nat \<Rightarrow> u8 list" where
  "writeSize n = map byte_of [n div 2 ^ 24, n div 2 ^ 16, n div 2 ^ 8, n]"

definition writeStr :: "u8 list \<Rightarrow> u8 list" where
  "writeStr s = writeSize (length s) @ s"

definition writeRef :: "(nat \<Rightarrow> nat) \<Rightarrow> nat \<Rightarrow> u8 list" where
  "writeRef redirections ref = writeSize (redirections ref)"

definition writeRefs :: "(nat \<Rightarrow> nat) \<Rightarrow> nat list \<Rightarrow> u8 list" where
  "writeRefs redirections refs = writeSize (length refs) @ concat (map (writeRef redirections) refs)"

definition writeRefsLastFirst :: "(nat \<Rightarrow> nat) \<Rightarrow> nat list \<Rightarrow> u8 list" where
  "writeRefsLastFirst redirections refs = writeRef redirections (last refs) @ writeRefs redirections (butlast refs)"

definition writeCode :: "char16 list \<Rightarrow> u8 list" where
  "writeCode code = concat (map (\<lambda>b. [ucast (drop_bit 8 b), ucast b]) code)"

text \<open>What follows the identifier of the type. \<open>v\<close> is the node with its references by index. Futures
  and other types do not come here.\<close>

fun writeBody :: "libraries \<Rightarrow> (nat \<Rightarrow> nat) \<Rightarrow> nat pnode \<Rightarrow> u8 list" where
  "writeBody L r (PSmallInt i) = writeStr (intToStrBuffer i)"
| "writeBody L r (PBigInt i) = writeStr (big_str L i)"
| "writeBody L r (PFloat d) = writeStr (floatToStrBuffer L d)"
| "writeBody L r (PBoolean b) = [if b then 1 else 0]"
| "writeBody L r PUnit = []"
| "writeBody L r (PAtom a) = writeStr a"
| "writeBody L r (PCons head tail) = writeRef r head @ writeRef r tail"
| "writeBody L r (PBuiltin moduleName builtinName) = writeStr moduleName @ writeStr builtinName"
| "writeBody L r (PCodeArea uuid code arity Xcount printName debugData Ks) =
     toBytes uuid @ writeSize (length code) @ writeCode code @ writeSize arity @ writeSize Xcount @
     writeStr printName @ writeRef r debugData @ writeRefs r Ks"
| "writeBody L r (PCapture index) = (if index = - 1 then [] else writeSize (nat (index mod 2 ^ 64)))"
| "writeBody L r (PConjunction elements) = writeRefs r elements"
| "writeBody L r (PAbstraction uuid body Gs) = toBytes uuid @ writeRefsLastFirst r (Gs @ [body])"
| "writeBody L r (PChunk underlying) = writeRef r underlying"
| "writeBody L r (PUniqueName a) = writeStr a"
| "writeBody L r (PName uuid) = toBytes uuid"
| "writeBody L r (PNamedName uuid printName) = toBytes uuid @ writeStr printName"
| "writeBody L r (PString s) = writeStr s"
| "writeBody L r (PTuple label elements) = writeRefsLastFirst r (elements @ [label])"
| "writeBody L r (PArity label elements) = writeRefsLastFirst r (elements @ [label])"
| "writeBody L r (PRecord arity elements) = writeRefsLastFirst r (elements @ [arity])"
| "writeBody L r (POpenRecord arity elements) = writeRefsLastFirst r (elements @ [arity])"
| "writeBody L r PFuture = []"
| "writeBody L r (POther _) = []"

definition writeNode :: "libraries \<Rightarrow> (nat \<Rightarrow> nat) \<Rightarrow> nat \<Rightarrow> nat pnode \<Rightarrow> u8 list" where
  "writeNode L r index v = writeSize index @ [byte_of (the (type_id v))] @ writeBody L r v"

section \<open>The phases\<close>

text \<open>An entry to write: its index, the node and its references by index.\<close>

type_synonym wentry = "nat \<times> node_id pnode \<times> nat pnode"

text \<open>The dictionaries of the code are maps (\<open>dictionary_refines_map\<close>).\<close>

record write_state =
  redirections :: "nat \<Rightarrow> nat"
  existingFeatures :: "feature \<rightharpoonup> nat"
  existingBuiltins :: "u8 list \<rightharpoonup> (u8 list \<rightharpoonup> nat)"
  existingArities :: "nat \<rightharpoonup> (nat \<times> node_id pnode) list"
  written :: "u8 list"

definition write_entry :: "libraries \<Rightarrow> wentry \<Rightarrow> write_state \<Rightarrow> write_state" where
  "write_entry L e s = s\<lparr>written := written s @ writeNode L (redirections s) (fst e) (snd (snd e))\<rparr>"

definition redirect :: "nat \<Rightarrow> nat \<Rightarrow> write_state \<Rightarrow> write_state" where
  "redirect index i s = s\<lparr>redirections := (redirections s)(index := i)\<rparr>"

text \<open>\<open>True\<close>: an equal node has been written, to which the index is redirected.\<close>

definition findFeature :: "nat \<Rightarrow> feature \<Rightarrow> write_state \<Rightarrow> bool \<times> write_state" where
  "findFeature index f s =
     (case existingFeatures s f of
        Some i \<Rightarrow> (True, redirect index i s)
      | None \<Rightarrow> (False, s\<lparr>existingFeatures := (existingFeatures s)(f \<mapsto> index)\<rparr>))"

definition findBuiltin :: "nat \<Rightarrow> u8 list \<Rightarrow> u8 list \<Rightarrow> write_state \<Rightarrow> bool \<times> write_state" where
  "findBuiltin index moduleName builtinName s =
     (case existingBuiltins s moduleName of
        Some m \<Rightarrow>
          (case m builtinName of
             Some i \<Rightarrow> (True, redirect index i s)
           | None \<Rightarrow> (False, s\<lparr>existingBuiltins := (existingBuiltins s)(moduleName \<mapsto> m(builtinName \<mapsto> index))\<rparr>))
      | None \<Rightarrow> (False, s\<lparr>existingBuiltins := (existingBuiltins s)(moduleName \<mapsto> [builtinName \<mapsto> index])\<rparr>))"

text \<open>Structural equality of two arities, whose label and features are features.\<close>

definition same_feature :: "store \<Rightarrow> node_id \<Rightarrow> node_id \<Rightarrow> bool" where
  "same_feature st a b \<longleftrightarrow>
     (case (deref st a, deref st b) of
        (Some m, Some n) \<Rightarrow>
          (case (st m, st n) of (Value v, Value w) \<Rightarrow> feature_of v \<noteq> None \<and> feature_of v = feature_of w | _ \<Rightarrow> False)
      | _ \<Rightarrow> False)"

definition arity_equals :: "store \<Rightarrow> node_id pnode \<Rightarrow> node_id pnode \<Rightarrow> bool" where
  "arity_equals st v w = list_all2 (same_feature st) (children v) (children w)"

definition findArity :: "store \<Rightarrow> wentry \<Rightarrow> write_state \<Rightarrow> bool \<times> write_state" where
  "findArity st e s =
     (let (index, v, refs) = e; labelRef = redirections s (last (children refs))
      in case existingArities s labelRef of
           Some list \<Rightarrow>
             (case List.find (\<lambda>(writtenIndex, w). arity_equals st w v) list of
                Some (writtenIndex, w) \<Rightarrow> (True, redirect index writtenIndex s)
              | None \<Rightarrow> (False, s\<lparr>existingArities := (existingArities s)(labelRef \<mapsto> (index, v) # list)\<rparr>))
         | None \<Rightarrow> (False, s\<lparr>existingArities := (existingArities s)(labelRef \<mapsto> [(index, v)])\<rparr>))"

definition write_unless_found :: "libraries \<Rightarrow> wentry \<Rightarrow> bool \<times> write_state \<Rightarrow> write_state" where
  "write_unless_found L e r = (if fst r then snd r else write_entry L e (snd r))"

text \<open>Each phase leaves the entries of the next ones.\<close>

fun writeValues :: "libraries \<Rightarrow> wentry list \<Rightarrow> write_state \<Rightarrow> wentry list \<times> write_state" where
  "writeValues L [] s = ([], s)"
| "writeValues L ((index, v, refs) # es) s =
     (case feature_of v of
        Some f \<Rightarrow> writeValues L es (write_unless_found L (index, v, refs) (findFeature index f s))
      | None \<Rightarrow>
          (case v of
             PBuiltin moduleName builtinName \<Rightarrow>
               writeValues L es (write_unless_found L (index, v, refs) (findBuiltin index moduleName builtinName s))
           | _ \<Rightarrow>
               if plain_value v then writeValues L es (write_entry L (index, v, refs) s)
               else (case writeValues L es s of (left, s) \<Rightarrow> ((index, v, refs) # left, s))))"

fun is_arity :: "'n pnode \<Rightarrow> bool" where
  "is_arity (PArity _ _) = True"
| "is_arity _ = False"

fun writeArities :: "libraries \<Rightarrow> store \<Rightarrow> wentry list \<Rightarrow> write_state \<Rightarrow> wentry list \<times> write_state" where
  "writeArities L st [] s = ([], s)"
| "writeArities L st ((index, v, refs) # es) s =
     (if is_arity v then writeArities L st es (write_unless_found L (index, v, refs) (findArity st (index, v, refs) s))
      else (case writeArities L st es s of (left, s) \<Rightarrow> ((index, v, refs) # left, s)))"

fun writeOthers :: "libraries \<Rightarrow> wentry list \<Rightarrow> write_state \<Rightarrow> write_state" where
  "writeOthers L [] s = s"
| "writeOthers L (e # es) s = writeOthers L es (write_entry L e s)"

definition write_pickle :: "libraries \<Rightarrow> store \<Rightarrow> nat \<Rightarrow> nat \<Rightarrow> wentry list \<Rightarrow> u8 list" where
  "write_pickle L st nodeCount topLevelIndex es =
     (let s = \<lparr>redirections = (\<lambda>i. i), existingFeatures = Map.empty, existingBuiltins = Map.empty,
               existingArities = Map.empty, written = writeSize nodeCount @ writeSize topLevelIndex\<rparr>;
          (es, s) = writeValues L es s;
          (es, s) = writeArities L st es s
      in written (writeOthers L es s) @ writeSize 0)"

datatype pickle_outcome =
    Pickled "u8 list"
  | WaitFor node_id
  | ResourcesFound "node_id list"
  | NotPairs

text \<open>\<open>temporaryReplacement\<close> is \<open>None\<close> when it is not a list of pairs. The store is returned as it
  is left.\<close>

definition pickle :: "libraries \<Rightarrow> (node_id \<times> node_id) list option \<Rightarrow> node_id \<Rightarrow> store \<Rightarrow> (pickle_outcome \<times> store) option" where
  "pickle L temporaryReplacement value st =
     (case temporaryReplacement of
        None \<Rightarrow> Some (NotPairs, st)
      | Some pairs \<Rightarrow>
          (case replaceNodes (rev pairs) ([], st) of
             (nodeReplacementBackups, st1) \<Rightarrow>
               Option.bind (deref st1 value) (\<lambda>value.
               Option.bind (pickle_loop \<lparr>p_store = st1, todoFrom = [value], nodes = [], nodeBackups = [], futures = False,
                                          resources = [], pcount = 0\<rparr>) (\<lambda>s.
                 let st2 = restoreNodes (nodeBackups s) (p_store s);
                     output = write_pickle L st2 (pcount s) (index_of (p_store s) value)
                       (map (\<lambda>(i, n, v). (i, v, map_pnode (index_of (p_store s)) v)) (nodes s))
                 in Some
                   (case List.find (\<lambda>(_, _, v). v = PFuture) (nodes s) of
                      Some (_, n, _) \<Rightarrow> if futures s then WaitFor n else Pickled output
                    | None \<Rightarrow> if \<not> futures s \<and> resources s \<noteq> [] then ResourcesFound (resources s) else Pickled output,
                    restoreNodes nodeReplacementBackups st2)))))"

end
