(* ===== verification/Unpickler.thy ===== *)
theory Unpickler
  imports Pickler
begin

text \<open>
  Reading pickles (\<open>vm/vm/main/unpickler.cc\<close>), the round trip of the pickler and the unpickler, and
  the detection of truncated pickles. A reader takes the bytes that are left and returns a value and
  the bytes after it; \<open>None\<close> is an abort of the virtual machine, a failed assertion or an access
  outside of \<open>nodes\<close>. What the C library and the big integers parse is an argument.
\<close>

section \<open>Readers\<close>

type_synonym 'a reader = "u8 list \<Rightarrow> ('a \<times> u8 list) option"

record parsers =
  c_strtod :: "u8 list \<Rightarrow> u64 \<times> u8 list"   \<comment> \<open>the value and where it ends\<close>
  big_parse :: "u8 list \<Rightarrow> int"

definition returns :: "'a \<Rightarrow> 'a reader" where
  "returns x input = Some (x, input)"

definition aborts :: "'a reader" where
  "aborts input = None"

definition bind_reader :: "'a reader \<Rightarrow> ('a \<Rightarrow> 'b reader) \<Rightarrow> 'b reader" where
  "bind_reader p f input = (case p input of None \<Rightarrow> None | Some (x, rest) \<Rightarrow> f x rest)"

text \<open>\<open>Unpickler::read\<close>, which aborts at the end of the file, and \<open>ignore\<close>.\<close>

definition read_bytes :: "nat \<Rightarrow> u8 list reader" where
  "read_bytes n input = (if n \<le> length input then Some (take n input, drop n input) else None)"

definition ignore_bytes :: "nat \<Rightarrow> unit reader" where
  "ignore_bytes n = bind_reader (read_bytes n) (\<lambda>_. returns ())"

definition readSize :: "nat reader" where
  "readSize = bind_reader (read_bytes 4) (\<lambda>b.
     returns (unat (b ! 0) * 2 ^ 24 + unat (b ! 1) * 2 ^ 16 + unat (b ! 2) * 2 ^ 8 + unat (b ! 3)))"

definition readByte :: "u8 reader" where
  "readByte = bind_reader (read_bytes 1) (\<lambda>b. returns (b ! 0))"

definition readString :: "u8 list reader" where
  "readString = bind_reader readSize read_bytes"

definition readUUID :: "UUID reader" where
  "readUUID = bind_reader (read_bytes 16) (\<lambda>b. returns (uuid_of_bytes b))"

text \<open>A reference is the index of the node it refers to, in the vector \<open>nodes\<close> of \<open>nodeCount + 1\<close>
  variables.\<close>

definition readNode :: "nat \<Rightarrow> nat reader" where
  "readNode nodeCount = bind_reader readSize (\<lambda>index. if index \<le> nodeCount then returns index else aborts)"

fun readNodes :: "nat \<Rightarrow> nat \<Rightarrow> nat list reader" where
  "readNodes nodeCount 0 = returns []"
| "readNodes nodeCount (Suc n) = bind_reader (readNode nodeCount) (\<lambda>x. bind_reader (readNodes nodeCount n) (\<lambda>xs. returns (x # xs)))"

definition readSizedNodes :: "nat \<Rightarrow> nat list reader" where
  "readSizedNodes nodeCount = bind_reader readSize (readNodes nodeCount)"

section \<open>Numbers\<close>

definition is_space :: "u8 \<Rightarrow> bool" where
  "is_space c \<longleftrightarrow> c = 32 \<or> (9 \<le> c \<and> c \<le> 13)"

definition is_digit :: "u8 \<Rightarrow> bool" where
  "is_digit c \<longleftrightarrow> of_char CHR ''0'' \<le> c \<and> c \<le> of_char CHR ''9''"

definition digits_value :: "u8 list \<Rightarrow> int" where
  "digits_value ds = foldl (\<lambda>v c. v * 10 + (uint c - 48)) 0 ds"

text \<open>\<open>std::strtoll\<close> in base 10 before it clamps to the limits: the number and the rest of the
  string, which is all of it when there is no number.\<close>

definition c_strtoll :: "u8 list \<Rightarrow> int \<times> u8 list" where
  "c_strtoll str =
     (let s = dropWhile is_space str;
          negative = (s \<noteq> [] \<and> hd s = of_char CHR ''-'');
          t = (if s \<noteq> [] \<and> (hd s = of_char CHR ''-'' \<or> hd s = of_char CHR ''+'') then tl s else s);
          ds = takeWhile is_digit t
      in if ds = [] then (0, str) else ((if negative then - 1 else 1) * digits_value ds, dropWhile is_digit t))"

text \<open>\<open>*end == '\0'\<close>\<close>

definition at_end :: "u8 list \<Rightarrow> bool" where
  "at_end rest \<longleftrightarrow> rest = [] \<or> hd rest = 0"

definition readIntValue :: "parsers \<Rightarrow> nat pnode reader" where
  "readIntValue P = bind_reader readString (\<lambda>str.
     let (v, rest) = c_strtoll str
     in if \<not> at_end rest then aborts
        else if v < - (2 ^ 63) \<or> v > 2 ^ 63 - 1 then returns (PBigInt (big_parse P str))
        else returns (PSmallInt (word_of_int v)))"

definition readFloatValue :: "parsers \<Rightarrow> nat pnode reader" where
  "readFloatValue P = bind_reader readString (\<lambda>str.
     let (d, rest) = c_strtod P str in if \<not> at_end rest then aborts else returns (PFloat d))"

section \<open>Values\<close>

text \<open>What an index is bound to: a new node, or a global entity the machine had.\<close>

datatype uval = UNode "nat pnode" | UGlobal UUID

text \<open>
  \<open>known\<close>: the identifiers in the tree of global nodes (\<open>global_get_correct\<close>). \<open>GlobalNode::get\<close>
  adds the one it does not find.
\<close>

definition readGlobalEntity ::
  "(UUID \<Rightarrow> nat pnode reader) \<Rightarrow> unit reader \<Rightarrow> (UUID \<Rightarrow> bool) \<Rightarrow> (uval \<times> (UUID \<Rightarrow> bool)) reader" where
  "readGlobalEntity createFun skipProc known = bind_reader readUUID (\<lambda>uuid.
     if \<not> known uuid then bind_reader (createFun uuid) (\<lambda>v. returns (UNode v, known(uuid := True)))
     else bind_reader skipProc (\<lambda>_. returns (UGlobal uuid, known)))"

fun code_of_bytes :: "u8 list \<Rightarrow> char16 list" where
  "code_of_bytes (a # b # rest) = (push_bit 8 (ucast a) OR ucast b) # code_of_bytes rest"
| "code_of_bytes _ = []"

definition readCodeAreaValue :: "nat \<Rightarrow> (UUID \<Rightarrow> bool) \<Rightarrow> (uval \<times> (UUID \<Rightarrow> bool)) reader" where
  "readCodeAreaValue nodeCount = readGlobalEntity
     (\<lambda>uuid.
        bind_reader readSize (\<lambda>n.
        bind_reader (read_bytes (n * 2)) (\<lambda>buffer.
        bind_reader readSize (\<lambda>arity.
        bind_reader readSize (\<lambda>Xcount.
        bind_reader readString (\<lambda>printName.
        bind_reader (readNode nodeCount) (\<lambda>debugData.
        bind_reader (readSizedNodes nodeCount) (\<lambda>Ks.
        returns (PCodeArea uuid (code_of_bytes buffer) arity Xcount printName debugData Ks)))))))))
     (bind_reader readSize (\<lambda>n.
      bind_reader (ignore_bytes (n * 2 + (4 + 4))) (\<lambda>_.
      bind_reader readString (\<lambda>_.
      bind_reader readSize (\<lambda>_.
      bind_reader readSize (\<lambda>Kcount.
      ignore_bytes (Kcount * 4)))))))"

definition readAbstractionValue :: "nat \<Rightarrow> (UUID \<Rightarrow> bool) \<Rightarrow> (uval \<times> (UUID \<Rightarrow> bool)) reader" where
  "readAbstractionValue nodeCount = readGlobalEntity
     (\<lambda>uuid. bind_reader (readNode nodeCount) (\<lambda>codeArea. bind_reader (readSizedNodes nodeCount) (\<lambda>Gs. returns (PAbstraction uuid codeArea Gs))))
     (bind_reader (ignore_bytes 4) (\<lambda>_. bind_reader readSize (\<lambda>Gcount. ignore_bytes (Gcount * 4))))"

definition readNameValue :: "(UUID \<Rightarrow> bool) \<Rightarrow> (uval \<times> (UUID \<Rightarrow> bool)) reader" where
  "readNameValue = readGlobalEntity (\<lambda>uuid. returns (PName uuid)) (returns ())"

definition readNamedNameValue :: "(UUID \<Rightarrow> bool) \<Rightarrow> (uval \<times> (UUID \<Rightarrow> bool)) reader" where
  "readNamedNameValue = readGlobalEntity
     (\<lambda>uuid. bind_reader readString (\<lambda>printName. returns (PNamedName uuid printName)))
     (bind_reader readString (\<lambda>_. returns ()))"

definition read_labelled :: "nat \<Rightarrow> (nat \<Rightarrow> nat list \<Rightarrow> nat pnode) \<Rightarrow> nat pnode reader" where
  "read_labelled nodeCount build = bind_reader (readNode nodeCount) (\<lambda>label. bind_reader (readSizedNodes nodeCount) (\<lambda>elements. returns (build label elements)))"

text \<open>The values without an identifier, by kind.\<close>

definition readPlainValue :: "parsers \<Rightarrow> nat \<Rightarrow> nat \<Rightarrow> nat pnode reader" where
  "readPlainValue P nodeCount kind =
     (if kind = 1 then readIntValue P
      else if kind = 2 then readFloatValue P
      else if kind = 3 then bind_reader readByte (\<lambda>b. returns (PBoolean (b \<noteq> 0)))
      else if kind = 4 then returns PUnit
      else if kind = 5 then bind_reader readString (\<lambda>a. returns (PAtom a))
      else if kind = 6 then bind_reader (readNode nodeCount) (\<lambda>head. bind_reader (readNode nodeCount) (\<lambda>tail. returns (PCons head tail)))
      else if kind = 7 then read_labelled nodeCount PTuple
      else if kind = 8 then read_labelled nodeCount PArity
      else if kind = 9 then read_labelled nodeCount PRecord
      else if kind = 10 then bind_reader readString (\<lambda>moduleName. bind_reader readString (\<lambda>builtinName. returns (PBuiltin moduleName builtinName)))
      else if kind = 12 then returns (PCapture (- 1))
      else if kind = 13 then bind_reader readSize (\<lambda>index. returns (PCapture (int index)))
      else if kind = 14 then bind_reader (readSizedNodes nodeCount) (\<lambda>elements. returns (PConjunction elements))
      else if kind = 15 then read_labelled nodeCount POpenRecord
      else if kind = 17 then bind_reader (readNode nodeCount) (\<lambda>underlying. returns (PChunk underlying))
      else if kind = 18 then bind_reader readString (\<lambda>a. returns (PUniqueName a))
      else if kind = 21 then bind_reader readString (\<lambda>s. returns (PString s))
      else aborts)"

definition readValue :: "parsers \<Rightarrow> nat \<Rightarrow> (UUID \<Rightarrow> bool) \<Rightarrow> (uval \<times> (UUID \<Rightarrow> bool)) reader" where
  "readValue P nodeCount known = bind_reader readByte (\<lambda>b.
     let kind = unat b
     in if kind = 11 then readCodeAreaValue nodeCount known
        else if kind = 16 then readAbstractionValue nodeCount known
        else if kind = 19 then readNameValue known
        else if kind = 20 then readNamedNameValue known
        else bind_reader (readPlainValue P nodeCount kind) (\<lambda>v. returns (UNode v, known)))"

text \<open>The vector \<open>nodes\<close>: \<open>None\<close> is a variable that has not been bound.\<close>

type_synonym bindings = "nat \<Rightarrow> uval option"

fun unpickle_loop :: "nat \<Rightarrow> parsers \<Rightarrow> nat \<Rightarrow> bindings \<Rightarrow> (UUID \<Rightarrow> bool) \<Rightarrow> (bindings \<times> (UUID \<Rightarrow> bool)) reader" where
  "unpickle_loop fuel P nodeCount b known =
     (case fuel of
        0 \<Rightarrow> aborts
      | Suc fuel \<Rightarrow>
          bind_reader readSize (\<lambda>index.
            if index = 0 then returns (b, known)
            else bind_reader (readValue P nodeCount known) (\<lambda>(v, known).
              if index \<le> nodeCount \<and> b index = None then unpickle_loop fuel P nodeCount (b(index \<mapsto> v)) known
              else aborts)))"

declare unpickle_loop.simps [simp del]

text \<open>Every turn of the loop takes a byte at least, so the bytes that are left are enough fuel.\<close>

definition unpickle :: "parsers \<Rightarrow> (UUID \<Rightarrow> bool) \<Rightarrow> (bindings \<times> nat \<times> (UUID \<Rightarrow> bool)) reader" where
  "unpickle P known input =
     bind_reader readSize (\<lambda>nodeCount.
     bind_reader readSize (\<lambda>resultIndex.
     bind_reader (\<lambda>input. unpickle_loop (Suc (length input)) P nodeCount Map.empty known input) (\<lambda>(b, known).
     if resultIndex \<le> nodeCount then returns (b, resultIndex, known) else aborts))) input"

section \<open>Reading what was written\<close>

definition reads :: "'a reader \<Rightarrow> u8 list \<Rightarrow> 'a \<Rightarrow> bool" where
  "reads p bytes x \<longleftrightarrow> (\<forall>rest. p (bytes @ rest) = Some (x, rest))"

named_theorems reads_intros

lemma reads_returns: "reads (returns x) [] x"
  by (simp add: reads_def returns_def)

lemma reads_bind: "reads p a x \<Longrightarrow> reads (f x) b y \<Longrightarrow> reads (bind_reader p f) (a @ b) y"
  by (simp add: reads_def bind_reader_def)

lemma reads_map: "reads p a x \<Longrightarrow> f x = returns y \<Longrightarrow> reads (bind_reader p f) a y"
  using reads_bind[of p a x f "[]" y] by (simp add: reads_returns)

lemma reads_bytes: "n = length b \<Longrightarrow> reads (read_bytes n) b b"
  by (simp add: reads_def read_bytes_def)

lemma unat_byte_of: "unat (byte_of n) = n mod 256"
  by (simp add: byte_of_def unat_of_nat)

lemma digits_sum: "n = a * 256 + x \<Longrightarrow> a = b * 256 + y \<Longrightarrow> b = c * 256 + z \<Longrightarrow>
  c * 16777216 + z * 65536 + y * 256 + x = (n::nat)"
  by simp

lemma base256: "n < 4294967296 \<Longrightarrow>
  n div 16777216 mod 256 * 16777216 + n div 65536 mod 256 * 65536 + n div 256 mod 256 * 256 + n mod 256 = (n::nat)"
proof -
  assume n: "n < 4294967296"
  define a b c where "a = n div 256" and "b = a div 256" and "c = b div 256"
  have "n = a * 256 + n mod 256" "a = b * 256 + a mod 256" "b = c * 256 + b mod 256"
    by (simp_all add: a_def b_def c_def)
  from digits_sum[OF this] have "c * 16777216 + b mod 256 * 65536 + a mod 256 * 256 + n mod 256 = n" .
  moreover have "n div 256 = a" "n div 65536 = b" "n div 16777216 = c"
    by (simp_all add: a_def b_def c_def div_mult2_eq[symmetric])
  moreover have "c mod 256 = c" using n by (simp add: a_def b_def c_def div_mult2_eq[symmetric] less_mult_imp_div_less)
  ultimately show ?thesis by simp
qed

lemma reads_size: "n < 2 ^ 32 \<Longrightarrow> reads readSize (writeSize n) n"
  unfolding readSize_def
  by (rule reads_map[OF reads_bytes]) (use base256[of n] in \<open>simp_all add: writeSize_def unat_byte_of nth_Cons'\<close>)

lemma reads_byte: "reads readByte [b] b"
  unfolding readByte_def by (rule reads_map[OF reads_bytes]) simp_all

lemma reads_string: "length s < 2 ^ 32 \<Longrightarrow> reads readString (writeStr s) s"
  unfolding readString_def writeStr_def by (rule reads_bind[OF reads_size reads_bytes]) simp_all

lemma reads_uuid: "reads readUUID (toBytes u) u"
  unfolding readUUID_def by (rule reads_map[OF reads_bytes]) (simp_all add: uuid_of_toBytes length_toBytes)

lemma reads_node: "n \<le> nodeCount \<Longrightarrow> nodeCount < 2 ^ 32 \<Longrightarrow> reads (readNode nodeCount) (writeSize n) n"
  unfolding readNode_def by (rule reads_map[OF reads_size]) simp_all

lemma reads_refs:
  "nodeCount < 2 ^ 32 \<Longrightarrow> \<forall>x \<in> set xs. r x \<le> nodeCount \<Longrightarrow>
   reads (readNodes nodeCount (length xs)) (concat (map (writeRef r) xs)) (map r xs)"
proof (induction xs)
  case (Cons x xs)
  have "reads (bind_reader (readNode nodeCount) (\<lambda>y. bind_reader (readNodes nodeCount (length xs)) (\<lambda>ys. returns (y # ys))))
      (writeSize (r x) @ concat (map (writeRef r) xs)) (r x # map r xs)"
    by (rule reads_bind, rule reads_node) (use Cons in \<open>auto intro: reads_map\<close>)
  then show ?case unfolding writeRef_def by simp
qed (simp add: reads_returns)

lemma reads_sized_refs:
  "length xs < 2 ^ 32 \<Longrightarrow> nodeCount < 2 ^ 32 \<Longrightarrow> \<forall>x \<in> set xs. r x \<le> nodeCount \<Longrightarrow>
   reads (readSizedNodes nodeCount) (writeRefs r xs) (map r xs)"
  unfolding readSizedNodes_def writeRefs_def by (rule reads_bind, erule reads_size, erule reads_refs)

lemma reads_labelled:
  assumes "length es < 2 ^ 32" "nodeCount < 2 ^ 32" "\<forall>x \<in> insert l (set es). r x \<le> nodeCount"
  shows "reads (read_labelled nodeCount build) (writeRefsLastFirst r (es @ [l])) (build (r l) (map r es))"
  unfolding read_labelled_def writeRefsLastFirst_def writeRef_def last_snoc butlast_snoc
  by (rule reads_bind, rule reads_node, use assms in simp, use assms in simp, rule reads_map, rule reads_sized_refs) (use assms in auto)

text \<open>Integers.\<close>

lemma digit_units: "n < 10 \<Longrightarrow> is_digit (word_of_nat (48 + n)) \<and> uint (word_of_nat (48 + n) :: u8) = 48 + int n \<and>
  \<not> is_space (word_of_nat (48 + n)) \<and> word_of_nat (48 + n) \<noteq> (45 :: u8) \<and> word_of_nat (48 + n) \<noteq> (43 :: u8)"
proof -
  assume "n < 10"
  then have "n \<in> {0, 1, 2, 3, 4, 5, 6, 7, 8, 9}" by auto
  then show ?thesis by (auto simp: is_digit_def is_space_def)
qed

lemma nat_digits_read:
  "nat_digits n \<noteq> [] \<and> (\<forall>c \<in> set (nat_digits n). is_digit c) \<and> digits_value (nat_digits n) = int n \<and>
   \<not> is_space (hd (nat_digits n)) \<and> hd (nat_digits n) \<noteq> 45 \<and> hd (nat_digits n) \<noteq> 43"
proof (induction n rule: nat_digits.induct)
  case (1 n)
  show ?case
  proof (cases "n < 10")
    case True
    then show ?thesis using digit_units[OF True] by (simp add: nat_digits.simps[of n] digits_value_def)
  next
    case False
    have int_div_mod: "int (n div 10) * 10 + int (n mod 10) = int n" by (metis div_mult_mod_eq of_nat_add of_nat_mult of_nat_numeral)
    have "nat_digits n = nat_digits (n div 10) @ [word_of_nat (48 + n mod 10)]" using False by (simp add: nat_digits.simps[of n])
    then show ?thesis using 1[OF False] digit_units[of "n mod 10"] int_div_mod
      by (simp add: digits_value_def)
  qed
qed

lemma strtoll_decimal: "c_strtoll (decimal i) = (i, [])"
proof -
  define ds where "ds = nat_digits (nat \<bar>i\<bar>)"
  have ds: "ds \<noteq> []" "\<forall>c \<in> set ds. is_digit c" "digits_value ds = \<bar>i\<bar>" "\<not> is_space (hd ds)" "hd ds \<noteq> 45" "hd ds \<noteq> 43"
    using nat_digits_read[of "nat \<bar>i\<bar>"] by (simp_all add: ds_def)
  then have w: "takeWhile is_digit ds = ds" "dropWhile is_digit ds = []" "dropWhile is_space ds = ds"
    by (auto simp: takeWhile_eq_all_conv) (cases ds; simp)
  have "decimal i = (if i < 0 then 45 # ds else ds)" by (simp add: decimal_def ds_def)
  then show ?thesis using ds by (auto simp: w c_strtoll_def Let_def is_space_def)
qed

text \<open>The types.\<close>

lemma type_table:
  "map_of typesRecord (ascii ''int'') = Some 1" "map_of typesRecord (ascii ''float'') = Some 2"
  "map_of typesRecord (ascii ''bool'') = Some 3" "map_of typesRecord (ascii ''unit'') = Some 4"
  "map_of typesRecord (ascii ''atom'') = Some 5" "map_of typesRecord (ascii ''cons'') = Some 6"
  "map_of typesRecord (ascii ''tuple'') = Some 7" "map_of typesRecord (ascii ''arity'') = Some 8"
  "map_of typesRecord (ascii ''record'') = Some 9" "map_of typesRecord (ascii ''builtin'') = Some 10"
  "map_of typesRecord (ascii ''codearea'') = Some 11" "map_of typesRecord (ascii ''patmatwildcard'') = Some 12"
  "map_of typesRecord (ascii ''patmatcapture'') = Some 13" "map_of typesRecord (ascii ''patmatconjunction'') = Some 14"
  "map_of typesRecord (ascii ''patmatopenrecord'') = Some 15" "map_of typesRecord (ascii ''abstraction'') = Some 16"
  "map_of typesRecord (ascii ''chunk'') = Some 17" "map_of typesRecord (ascii ''uniquename'') = Some 18"
  "map_of typesRecord (ascii ''name'') = Some 19" "map_of typesRecord (ascii ''namedname'') = Some 20"
  "map_of typesRecord (ascii ''unicodeString'') = Some 21" "map_of typesRecord (ascii ''future'') = None"
  by code_simp+

text \<open>The values that can be written: their lengths fit into 32 bits and the libraries read the
  numbers they print.\<close>

fun limits :: "libraries \<Rightarrow> parsers \<Rightarrow> 'n pnode \<Rightarrow> bool" where
  "limits L P (PBigInt i) \<longleftrightarrow> (i < - (2 ^ 63) \<or> i > 2 ^ 63 - 1) \<and> big_str L i = decimal i \<and> big_parse P (decimal i) = i \<and>
     length (decimal i) < 2 ^ 32"
| "limits L P (PFloat d) \<longleftrightarrow> c_strtod P (floatToStrBuffer L d) = (d, []) \<and> length (floatToStrBuffer L d) < 2 ^ 32"
| "limits L P (PAtom a) \<longleftrightarrow> length a < 2 ^ 32"
| "limits L P (PTuple _ es) \<longleftrightarrow> length es < 2 ^ 32"
| "limits L P (PArity _ es) \<longleftrightarrow> length es < 2 ^ 32"
| "limits L P (PRecord _ es) \<longleftrightarrow> length es < 2 ^ 32"
| "limits L P (PBuiltin m b) \<longleftrightarrow> length m < 2 ^ 32 \<and> length b < 2 ^ 32"
| "limits L P (PCodeArea _ code arity Xcount printName _ Ks) \<longleftrightarrow>
     length code < 2 ^ 32 \<and> arity < 2 ^ 32 \<and> Xcount < 2 ^ 32 \<and> length printName < 2 ^ 32 \<and> length Ks < 2 ^ 32"
| "limits L P (PCapture i) \<longleftrightarrow> - 1 \<le> i \<and> i < 2 ^ 32"
| "limits L P (PConjunction es) \<longleftrightarrow> length es < 2 ^ 32"
| "limits L P (POpenRecord _ es) \<longleftrightarrow> length es < 2 ^ 32"
| "limits L P (PAbstraction _ _ Gs) \<longleftrightarrow> length Gs < 2 ^ 32"
| "limits L P (PUniqueName a) \<longleftrightarrow> length a < 2 ^ 32"
| "limits L P (PNamedName _ a) \<longleftrightarrow> length a < 2 ^ 32"
| "limits L P (PString a) \<longleftrightarrow> length a < 2 ^ 32"
| "limits L P PFuture \<longleftrightarrow> False"
| "limits L P (POther _) \<longleftrightarrow> False"
| "limits L P _ \<longleftrightarrow> True"

fun global_id :: "'n pnode \<Rightarrow> UUID option" where
  "global_id (PCodeArea u _ _ _ _ _ _) = Some u"
| "global_id (PAbstraction u _ _) = Some u"
| "global_id (PName u) = Some u"
| "global_id (PNamedName u _) = Some u"
| "global_id _ = None"

definition bound_value :: "(UUID \<Rightarrow> bool) \<Rightarrow> nat pnode \<Rightarrow> uval" where
  "bound_value known v = (case global_id v of Some u \<Rightarrow> if known u then UGlobal u else UNode v | None \<Rightarrow> UNode v)"

definition learn :: "nat pnode \<Rightarrow> (UUID \<Rightarrow> bool) \<Rightarrow> (UUID \<Rightarrow> bool)" where
  "learn v known = (case global_id v of Some u \<Rightarrow> known(u := True) | None \<Rightarrow> known)"

lemma reads_global:
  assumes "\<not> known u \<Longrightarrow> reads (createFun u) b v" "known u \<Longrightarrow> reads skipProc b ()" "global_id v = Some u"
  shows "reads (readGlobalEntity createFun skipProc known) (toBytes u @ b) (bound_value known v, learn v known)"
proof (cases "known u")
  case True
  then have "known(u := True) = known" by (simp add: fun_upd_idem)
  then show ?thesis unfolding readGlobalEntity_def
    by (intro reads_bind[OF reads_uuid]) (use assms True in \<open>auto simp: bound_value_def learn_def intro: reads_map\<close>)
next
  case False
  then show ?thesis unfolding readGlobalEntity_def
    by (intro reads_bind[OF reads_uuid]) (use assms in \<open>auto simp: bound_value_def learn_def intro: reads_map\<close>)
qed

lemma code_round: "code_of_bytes (writeCode code) = code"
proof (induction code)
  case (Cons b code)
  have "push_bit 8 (ucast (ucast (drop_bit 8 b) :: u8)) OR ucast (ucast b :: u8) = b"
    by (rule bit_word_eqI) (auto simp: bit_simps)
  then show ?case using Cons by (simp add: writeCode_def)
qed (simp add: writeCode_def)

lemma length_writeCode: "length (writeCode code) = length code * 2"
  by (induction code) (simp_all add: writeCode_def)

lemma length_writeSize [simp]: "length (writeSize n) = 4"
  by (simp add: writeSize_def)

lemma length_writeRefs: "length (concat (map (writeRef r) xs)) = length xs * 4"
  by (induction xs) (simp_all add: writeRef_def)

lemma reads_ignore: "n = length b \<Longrightarrow> reads (ignore_bytes n) b ()"
  unfolding ignore_bytes_def by (rule reads_map[OF reads_bytes]) simp_all

lemma reads_codearea:
  assumes "limits L P (PCodeArea u code arity Xcount printName d Ks)" "nodeCount < 2 ^ 32" "\<forall>x \<in> insert d (set Ks). r x \<le> nodeCount"
  shows "reads (readCodeAreaValue nodeCount known) (writeBody L r (PCodeArea u code arity Xcount printName d Ks))
     (bound_value known (PCodeArea u code arity Xcount printName (r d) (map r Ks)), learn (PCodeArea u code arity Xcount printName (r d) (map r Ks)) known)"
  unfolding readCodeAreaValue_def writeBody.simps
proof (rule reads_global)
  note l = assms[simplified]
  show "reads (bind_reader readSize (\<lambda>n. bind_reader (read_bytes (n * 2)) (\<lambda>buffer. bind_reader readSize (\<lambda>arity.
        bind_reader readSize (\<lambda>Xcount. bind_reader readString (\<lambda>printName. bind_reader (readNode nodeCount) (\<lambda>debugData.
        bind_reader (readSizedNodes nodeCount) (\<lambda>Ks. returns (PCodeArea u (code_of_bytes buffer) arity Xcount printName debugData Ks)))))))))
     (writeSize (length code) @ writeCode code @ writeSize arity @ writeSize Xcount @ writeStr printName @ writeRef r d @ writeRefs r Ks)
     (PCodeArea u code arity Xcount printName (r d) (map r Ks))"
    unfolding writeRef_def[of r d]
    by (intro reads_bind[OF reads_size] reads_bind[OF reads_string] reads_bind[OF reads_bytes] reads_bind[OF reads_node] reads_map[OF reads_sized_refs])
      (use l in \<open>simp_all add: length_writeCode code_round\<close>)
  show "reads (bind_reader readSize (\<lambda>n. bind_reader (ignore_bytes (n * 2 + (4 + 4))) (\<lambda>_. bind_reader readString (\<lambda>_.
        bind_reader readSize (\<lambda>_. bind_reader readSize (\<lambda>Kcount. ignore_bytes (Kcount * 4)))))))
     (writeSize (length code) @ writeCode code @ writeSize arity @ writeSize Xcount @ writeStr printName @ writeRef r d @ writeRefs r Ks) ()"
  proof -
    have "reads (bind_reader readSize (\<lambda>n. bind_reader (ignore_bytes (n * 2 + (4 + 4))) (\<lambda>_. bind_reader readString (\<lambda>_.
        bind_reader readSize (\<lambda>_. bind_reader readSize (\<lambda>Kcount. ignore_bytes (Kcount * 4)))))))
      (writeSize (length code) @ (writeCode code @ writeSize arity @ writeSize Xcount) @ writeStr printName @ writeSize (r d) @
        writeSize (length Ks) @ concat (map (writeRef r) Ks)) ()"
      by (intro reads_bind[OF reads_size] reads_bind[OF reads_string] reads_bind[OF reads_ignore] reads_ignore)
        (use l in \<open>simp_all add: length_writeCode length_writeRefs\<close>)
    then show ?thesis by (simp add: writeRefs_def writeRef_def)
  qed
qed simp

lemma reads_abstraction:
  assumes "limits L P (PAbstraction u body Gs)" "nodeCount < 2 ^ 32" "\<forall>x \<in> insert body (set Gs). r x \<le> nodeCount"
  shows "reads (readAbstractionValue nodeCount known) (writeBody L r (PAbstraction u body Gs))
     (bound_value known (PAbstraction u (r body) (map r Gs)), learn (PAbstraction u (r body) (map r Gs)) known)"
  unfolding readAbstractionValue_def writeBody.simps
proof (rule reads_global)
  note l = assms[simplified]
  show "reads (bind_reader (readNode nodeCount) (\<lambda>codeArea. bind_reader (readSizedNodes nodeCount) (\<lambda>Gs. returns (PAbstraction u codeArea Gs))))
     (writeRefsLastFirst r (Gs @ [body])) (PAbstraction u (r body) (map r Gs))"
    using reads_labelled[of Gs nodeCount body r "PAbstraction u"] l by (simp add: read_labelled_def)
  have "reads (bind_reader (ignore_bytes 4) (\<lambda>_. bind_reader readSize (\<lambda>Gcount. ignore_bytes (Gcount * 4))))
     (writeSize (r body) @ writeSize (length Gs) @ concat (map (writeRef r) Gs)) ()"
    by (intro reads_bind[OF reads_size] reads_bind[OF reads_ignore] reads_ignore) (use l in \<open>simp_all add: length_writeRefs\<close>)
  then show "reads (bind_reader (ignore_bytes 4) (\<lambda>_. bind_reader readSize (\<lambda>Gcount. ignore_bytes (Gcount * 4))))
     (writeRefsLastFirst r (Gs @ [body])) ()"
    by (simp add: writeRefsLastFirst_def writeRefs_def writeRef_def)
qed simp

lemmas type_ids = type_id_def type_table

lemma reads_int: "length (decimal i) < 2 ^ 32 \<Longrightarrow>
  reads (readIntValue P) (writeStr (decimal i)) (if i < - (2 ^ 63) \<or> i > 2 ^ 63 - 1 then PBigInt (big_parse P (decimal i)) else PSmallInt (word_of_int i))"
  unfolding readIntValue_def by (rule reads_map[OF reads_string]) (simp_all add: strtoll_decimal at_end_def)

lemma reads_pair:
  assumes "reads p a x" "reads q b y"
  shows "reads (bind_reader p (\<lambda>x. bind_reader q (\<lambda>y. returns (f x y)))) (a @ b) (f x y)"
  by (rule reads_bind[OF assms(1) reads_map[OF assms(2) refl]])

lemma reads_plain:
  assumes "limits L P v" "nodeCount < 2 ^ 32" "\<forall>x \<in> set (children v). r x \<le> nodeCount" "type_id v = Some k" "k \<notin> {11, 16, 19, 20}"
  shows "reads (readPlainValue P nodeCount k) (writeBody L r v) (map_pnode r v)"
proof (cases v)
  case (PSmallInt i)
  have "length (decimal (sint i)) < 2 ^ 32" using length_intToStrBuffer[of i] by (simp add: intToStrBuffer_def getIntToStrBufferSize_def)
  from reads_int[OF this, of P] show ?thesis
    using assms PSmallInt sint_range[of i] by (auto simp: readPlainValue_def type_ids intToStrBuffer_def)
next
  case (PBigInt i)
  have "reads (readIntValue P) (writeStr (decimal i)) (PBigInt i)" using reads_int[of i P] assms PBigInt by auto
  then show ?thesis using assms PBigInt by (auto simp: readPlainValue_def type_ids)
next
  case (PFloat d)
  then have "reads (readFloatValue P) (writeStr (floatToStrBuffer L d)) (PFloat d)"
    unfolding readFloatValue_def using assms by (intro reads_map[OF reads_string]) (simp_all add: at_end_def)
  then show ?thesis using assms PFloat by (auto simp: readPlainValue_def type_ids)
next
  case (PBoolean b)
  have "reads (bind_reader readByte (\<lambda>b. returns (PBoolean (b \<noteq> 0)))) [if b then 1 else 0] (PBoolean b)"
    by (rule reads_map[OF reads_byte]) simp
  then show ?thesis using assms PBoolean by (auto simp: readPlainValue_def type_ids)
next
  case (PCons h t)
  have "reads (bind_reader (readNode nodeCount) (\<lambda>head. bind_reader (readNode nodeCount) (\<lambda>tail. returns (PCons head tail)))) (writeSize (r h) @ writeSize (r t)) (PCons (r h) (r t))"
    by (rule reads_pair; rule reads_node) (use assms PCons in simp_all)
  then show ?thesis using assms PCons by (auto simp: readPlainValue_def type_ids writeRef_def)
next
  case (PBuiltin m b)
  have "reads (bind_reader readString (\<lambda>m. bind_reader readString (\<lambda>b. returns (PBuiltin m b)))) (writeStr m @ writeStr b) (PBuiltin m b)"
    by (rule reads_pair; rule reads_string) (use assms PBuiltin in simp_all)
  then show ?thesis using assms PBuiltin by (auto simp: readPlainValue_def type_ids)
next
  case (PCapture i)
  show ?thesis
  proof (cases "i = - 1")
    case True
    then show ?thesis using assms PCapture reads_returns by (auto simp: readPlainValue_def type_ids)
  next
    case False
    have "reads (bind_reader readSize (\<lambda>index. returns (PCapture (int index)))) (writeSize (nat i)) (PCapture i)"
      by (rule reads_map[OF reads_size]) (use assms PCapture False in \<open>auto simp: nat_less_iff\<close>)
    then show ?thesis using assms PCapture False by (auto simp: readPlainValue_def type_ids)
  qed
next
  case (PChunk u)
  have "reads (bind_reader (readNode nodeCount) (\<lambda>underlying. returns (PChunk underlying))) (writeSize (r u)) (PChunk (r u))"
    by (rule reads_map[OF reads_node]) (use assms PChunk in simp_all)
  then show ?thesis using assms PChunk by (auto simp: readPlainValue_def type_ids writeRef_def)
next
  case (PTuple l es)
  then show ?thesis using assms reads_labelled[of es nodeCount l r PTuple] by (auto simp: readPlainValue_def type_ids)
next
  case (PArity l es)
  then show ?thesis using assms reads_labelled[of es nodeCount l r PArity] by (auto simp: readPlainValue_def type_ids)
next
  case (PRecord l es)
  then show ?thesis using assms reads_labelled[of es nodeCount l r PRecord] by (auto simp: readPlainValue_def type_ids)
next
  case (POpenRecord l es)
  then show ?thesis using assms reads_labelled[of es nodeCount l r POpenRecord] by (auto simp: readPlainValue_def type_ids)
next
  case (PConjunction es)
  have "reads (bind_reader (readSizedNodes nodeCount) (\<lambda>elements. returns (PConjunction elements))) (writeRefs r es) (PConjunction (map r es))"
    by (rule reads_map[OF reads_sized_refs]) (use assms PConjunction in simp_all)
  then show ?thesis using assms PConjunction by (auto simp: readPlainValue_def type_ids)
next
  case (PAtom a)
  have "reads (bind_reader readString (\<lambda>a. returns (PAtom a))) (writeStr a) (PAtom a)"
    by (rule reads_map[OF reads_string]) (use assms PAtom in simp_all)
  then show ?thesis using assms PAtom by (auto simp: readPlainValue_def type_ids)
next
  case (PUniqueName a)
  have "reads (bind_reader readString (\<lambda>a. returns (PUniqueName a))) (writeStr a) (PUniqueName a)"
    by (rule reads_map[OF reads_string]) (use assms PUniqueName in simp_all)
  then show ?thesis using assms PUniqueName by (auto simp: readPlainValue_def type_ids)
next
  case (PString a)
  have "reads (bind_reader readString (\<lambda>a. returns (PString a))) (writeStr a) (PString a)"
    by (rule reads_map[OF reads_string]) (use assms PString in simp_all)
  then show ?thesis using assms PString by (auto simp: readPlainValue_def type_ids)
qed (use assms reads_returns in \<open>auto simp: readPlainValue_def type_ids\<close>)

lemma reads_value:
  assumes "limits L P v" "nodeCount < 2 ^ 32" "\<forall>x \<in> set (children v). r x \<le> nodeCount"
  shows "reads (readValue P nodeCount known) (byte_of (the (type_id v)) # writeBody L r v) (bound_value known (map_pnode r v), learn (map_pnode r v) known)"
proof -
  have k: "\<exists>k. type_id v = Some k \<and> k < 22" using assms(1) by (cases v) (auto simp: type_ids)
  then obtain k where k: "type_id v = Some k" "k < 22" by blast
  then have b: "unat (byte_of (the (type_id v))) = k" by (simp add: unat_byte_of)
  have "reads (readValue P nodeCount known) ([byte_of (the (type_id v))] @ writeBody L r v) (bound_value known (map_pnode r v), learn (map_pnode r v) known)"
    unfolding readValue_def
  proof (rule reads_bind[OF reads_byte], unfold b Let_def)
    show "reads (if k = 11 then readCodeAreaValue nodeCount known else if k = 16 then readAbstractionValue nodeCount known
        else if k = 19 then readNameValue known else if k = 20 then readNamedNameValue known
        else bind_reader (readPlainValue P nodeCount k) (\<lambda>v. returns (UNode v, known)))
      (writeBody L r v) (bound_value known (map_pnode r v), learn (map_pnode r v) known)"
    proof (cases "k \<in> {11, 16, 19, 20}")
      case False
      then have "global_id (map_pnode r v) = None" using k(1) by (cases v) (auto simp: type_ids)
      then have e: "bound_value known (map_pnode r v) = UNode (map_pnode r v)" "learn (map_pnode r v) known = known"
        by (simp_all add: bound_value_def learn_def)
      have "reads (bind_reader (readPlainValue P nodeCount k) (\<lambda>v. returns (UNode v, known))) (writeBody L r v) (UNode (map_pnode r v), known)"
        by (rule reads_map[OF reads_plain[OF assms k(1) False]]) simp
      then show ?thesis using False e by simp
    next
      case True
      show ?thesis
      proof (cases v)
        case (PCodeArea u code arity Xcount printName d Ks)
        then show ?thesis using reads_codearea[of L P u code arity Xcount printName d Ks nodeCount r known] assms k(1) by (simp add: type_ids)
      next
        case (PAbstraction u body Gs)
        then show ?thesis using reads_abstraction[of L P u body Gs nodeCount r known] assms k(1) by (simp add: type_ids)
      next
        case (PName u)
        have "reads (readNameValue known) (toBytes u @ []) (bound_value known (PName u), learn (PName u) known)"
          unfolding readNameValue_def by (rule reads_global) (simp_all add: reads_returns)
        then show ?thesis using PName k(1) by (simp add: type_ids)
      next
        case (PNamedName u a)
        have "reads (readNamedNameValue known) (toBytes u @ writeStr a) (bound_value known (PNamedName u a), learn (PNamedName u a) known)"
          unfolding readNamedNameValue_def
          by (rule reads_global; (rule reads_map[OF reads_string])?) (use assms PNamedName in simp_all)
        then show ?thesis using PNamedName k(1) by (simp add: type_ids)
      qed (use True k(1) assms(1) in \<open>auto simp: type_ids split: if_splits\<close>)
    qed
  qed
  then show ?thesis by simp
qed

end
