(* ===== verification/PicklePhases.thy ===== *)
theory PicklePhases
  imports Unpickler
begin

text \<open>
  What the phases of the pickler write (\<open>vm/vm/main/pickler.cc\<close>): values, arities and the other nodes,
  where equal values and equal arities are merged through \<open>redirections\<close>.
\<close>

section \<open>The phases of the pickler\<close>

definition chunk :: "libraries \<Rightarrow> (nat \<Rightarrow> nat) \<Rightarrow> wentry \<Rightarrow> u8 list" where
  "chunk L r e = writeNode L r (fst e) (snd (snd e))"

fun value_key :: "'n pnode \<Rightarrow> (feature + u8 list \<times> u8 list) option" where
  "value_key (PBuiltin m b) = Some (Inr (m, b))"
| "value_key v = map_option Inl (feature_of v)"

definition is_value :: "'n pnode \<Rightarrow> bool" where
  "is_value v \<longleftrightarrow> value_key v \<noteq> None \<or> plain_value v"

text \<open>Both dictionaries in one.\<close>

fun dict :: "write_state \<Rightarrow> feature + u8 list \<times> u8 list \<Rightarrow> nat option" where
  "dict s (Inl f) = existingFeatures s f"
| "dict s (Inr (m, b)) = (case existingBuiltins s m of Some d \<Rightarrow> d b | None \<Rightarrow> None)"

lemma children_map [simp]: "children (map_pnode f v) = map f (children v)"
  by (cases v) simp_all

lemma map_pnode_cong_children: "(\<And>x. x \<in> set (children v) \<Longrightarrow> f x = g x) \<Longrightarrow> map_pnode f v = map_pnode g v"
  by (cases v) auto

lemma writeBody_cong: "(\<And>x. x \<in> set (children v) \<Longrightarrow> r x = r' x) \<Longrightarrow> writeBody L r v = writeBody L r' v"
  by (cases v) (auto simp: writeRef_def writeRefs_def writeRefsLastFirst_def intro!: arg_cong[where f = concat])

lemma chunk_cong: "(\<And>x. x \<in> set (children (snd (snd e))) \<Longrightarrow> r x = r' x) \<Longrightarrow> chunk L r e = chunk L r' e"
  unfolding chunk_def writeNode_def by (simp add: writeBody_cong[of _ r r'])

lemma is_value_leaf: "is_value v \<Longrightarrow> children v = []"
  by (cases v) (simp_all add: is_value_def)

lemma dict_upd: "dict (s\<lparr>existingFeatures := (existingFeatures s)(f \<mapsto> i)\<rparr>) = (dict s)(Inl f \<mapsto> i)"
  "dict (redirect i j s) = dict s" "dict (write_entry L e s) = dict s" "dict (s\<lparr>existingArities := a\<rparr>) = dict s"
proof -
  show "dict (s\<lparr>existingFeatures := (existingFeatures s)(f \<mapsto> i)\<rparr>) = (dict s)(Inl f \<mapsto> i)"
  proof
    fix k show "dict (s\<lparr>existingFeatures := (existingFeatures s)(f \<mapsto> i)\<rparr>) k = ((dict s)(Inl f \<mapsto> i)) k"
      by (cases "(s, k)" rule: dict.cases) auto
  qed
  have "dict (redirect i j s) k = dict s k" "dict (write_entry L e s) k = dict s k" "dict (s\<lparr>existingArities := a\<rparr>) k = dict s k" for k
    by (cases "(s, k)" rule: dict.cases; simp add: redirect_def write_entry_def)+
  then show "dict (redirect i j s) = dict s" "dict (write_entry L e s) = dict s" "dict (s\<lparr>existingArities := a\<rparr>) = dict s"
    by (simp_all add: fun_eq_iff)
qed

definition same_state :: "write_state \<Rightarrow> write_state \<Rightarrow> bool" where
  "same_state s t \<longleftrightarrow> redirections t = redirections s \<and> written t = written s \<and> existingArities t = existingArities s"

lemma findFeature_dict:
  "findFeature k f s = (case dict s (Inl f) of Some i \<Rightarrow> (True, redirect k i s)
     | None \<Rightarrow> (False, s\<lparr>existingFeatures := (existingFeatures s)(f \<mapsto> k)\<rparr>))"
  by (simp add: findFeature_def)

lemma findBuiltin_dict:
  "(\<exists>i. dict s (Inr (m, b)) = Some i \<and> findBuiltin k m b s = (True, redirect k i s)) \<or>
   (dict s (Inr (m, b)) = None \<and> (\<exists>t. findBuiltin k m b s = (False, t) \<and> same_state s t \<and> dict t = (dict s)(Inr (m, b) \<mapsto> k)))"
proof (cases "existingBuiltins s m")
  case None
  have "dict (s\<lparr>existingBuiltins := (existingBuiltins s)(m \<mapsto> [b \<mapsto> k])\<rparr>) = (dict s)(Inr (m, b) \<mapsto> k)"
  proof
    fix x show "dict (s\<lparr>existingBuiltins := (existingBuiltins s)(m \<mapsto> [b \<mapsto> k])\<rparr>) x = ((dict s)(Inr (m, b) \<mapsto> k)) x"
      using None by (cases "(s, x)" rule: dict.cases) auto
  qed
  then show ?thesis using None by (simp add: findBuiltin_def same_state_def)
next
  case (Some d)
  have "dict (s\<lparr>existingBuiltins := (existingBuiltins s)(m \<mapsto> d(b \<mapsto> k))\<rparr>) = (dict s)(Inr (m, b) \<mapsto> k)"
  proof
    fix x show "dict (s\<lparr>existingBuiltins := (existingBuiltins s)(m \<mapsto> d(b \<mapsto> k))\<rparr>) x = ((dict s)(Inr (m, b) \<mapsto> k)) x"
      using Some by (cases "(s, x)" rule: dict.cases) auto
  qed
  then show ?thesis using Some by (cases "d b") (simp_all add: findBuiltin_def same_state_def)
qed

lemma writeValues_key:
  assumes "value_key v = Some key"
  obtains t where "writeValues L ((k, v, refs) # es) s = writeValues L es t"
    "existingArities t = existingArities s"
    "case dict s key of
       Some i \<Rightarrow> dict t = dict s \<and> redirections t = (redirections s)(k := i) \<and> written t = written s
     | None \<Rightarrow> dict t = (dict s)(key \<mapsto> k) \<and> redirections t = redirections s \<and> written t = written s @ chunk L (redirections s) (k, v, refs)"
proof (cases "feature_of v")
  case (Some f)
  then have key: "key = Inl f" using assms by (cases v) auto
  let ?t = "write_unless_found L (k, v, refs) (findFeature k f s)"
  show ?thesis
  proof (rule that[of ?t])
    show "writeValues L ((k, v, refs) # es) s = writeValues L es ?t" using Some by simp
    show "existingArities ?t = existingArities s"
      by (simp add: write_unless_found_def findFeature_def redirect_def write_entry_def split: option.split)
    show "case dict s key of
       Some i \<Rightarrow> dict ?t = dict s \<and> redirections ?t = (redirections s)(k := i) \<and> written ?t = written s
     | None \<Rightarrow> dict ?t = (dict s)(key \<mapsto> k) \<and> redirections ?t = redirections s \<and> written ?t = written s @ chunk L (redirections s) (k, v, refs)"
    proof (cases "dict s key")
      case None
      then have "?t = write_entry L (k, v, refs) (s\<lparr>existingFeatures := (existingFeatures s)(f \<mapsto> k)\<rparr>)"
        by (simp add: key findFeature_def write_unless_found_def)
      then show ?thesis using None by (simp only: dict_upd) (simp add: key write_entry_def chunk_def)
    next
      case (Some i)
      then have "?t = redirect k i s" by (simp add: key findFeature_def write_unless_found_def)
      then show ?thesis using Some by (simp only: dict_upd) (simp add: redirect_def)
    qed
  qed
next
  case None
  then obtain m b where v: "v = PBuiltin m b" "key = Inr (m, b)" using assms by (cases v) auto
  let ?t = "write_unless_found L (k, v, refs) (findBuiltin k m b s)"
  have "writeValues L ((k, v, refs) # es) s = writeValues L es ?t" using None v by simp
  moreover have "existingArities ?t = existingArities s \<and> (case dict s key of
       Some i \<Rightarrow> dict ?t = dict s \<and> redirections ?t = (redirections s)(k := i) \<and> written ?t = written s
     | None \<Rightarrow> dict ?t = (dict s)(key \<mapsto> k) \<and> redirections ?t = redirections s \<and> written ?t = written s @ chunk L (redirections s) (k, v, refs))"
    using findBuiltin_dict[of s m b k]
    by (auto simp: v write_unless_found_def dict_upd same_state_def) (simp_all add: redirect_def write_entry_def chunk_def)
  ultimately show ?thesis using that by blast
qed

text \<open>What is in the dictionaries has been written under its own index.\<close>

definition values_written :: "wentry list \<Rightarrow> write_state \<Rightarrow> bool" where
  "values_written W s \<longleftrightarrow>
     (\<forall>key i. dict s key = Some i \<longrightarrow> (\<exists>v refs. (i, v, refs) \<in> set W \<and> value_key v = Some key)) \<and>
     (\<forall>(k, v, refs) \<in> set W. redirections s k = k)"

lemma values_written_add:
  assumes "values_written W s" "dict t = (dict s)(key \<mapsto> k)" "redirections t = redirections s" "redirections s k = k" "value_key v = Some key"
  shows "values_written (W @ [(k, v, refs)]) t"
  unfolding values_written_def
proof (intro conjI allI impI)
  fix key' i assume "dict t key' = Some i"
  then show "\<exists>v' refs'. (i, v', refs') \<in> set (W @ [(k, v, refs)]) \<and> value_key v' = Some key'"
    using assms by (cases "key' = key") (fastforce simp: values_written_def)+
qed (use assms in \<open>auto simp: values_written_def\<close>)

lemma values_written_plain:
  assumes "values_written W s" "dict t = dict s" "redirections t = redirections s" "redirections s k = k"
  shows "values_written (W @ [(k, v, refs)]) t"
  unfolding values_written_def
proof (intro conjI allI impI)
  fix key' i assume "dict t key' = Some i"
  then show "\<exists>v' refs'. (i, v', refs') \<in> set (W @ [(k, v, refs)]) \<and> value_key v' = Some key'"
    using assms by (fastforce simp: values_written_def)
qed (use assms in \<open>auto simp: values_written_def\<close>)

lemma values_written_redirect:
  assumes "values_written W s" "dict t = dict s" "redirections t = (redirections s)(k := i)" "k \<notin> fst ` set W"
  shows "values_written W t"
  using assms by (auto simp: values_written_def rev_image_eqI)

definition resolved :: "wentry list \<Rightarrow> write_state \<Rightarrow> nat \<Rightarrow> node_id pnode \<Rightarrow> nat pnode \<Rightarrow> bool" where
  "resolved W s k v refs \<longleftrightarrow>
     (case value_key v of
        Some key \<Rightarrow> dict s key = Some (redirections s k)
      | None \<Rightarrow> (k, v, refs) \<in> set W \<and> redirections s k = k)"

lemma writeValues_correct:
  assumes "writeValues L E s = (left, s')" "values_written W s" "distinct (map fst W @ map fst E)"
    and "\<forall>(k, v, refs) \<in> set E. redirections s k = k \<and> (is_value v \<longrightarrow> children refs = [])"
  shows "\<exists>W'. values_written (W @ W') s' \<and> set W' \<subseteq> {e \<in> set E. is_value (fst (snd e))} \<and> distinct (map fst W') \<and>
    left = filter (\<lambda>e. \<not> is_value (fst (snd e))) E \<and>
    (\<forall>r. written s' = written s @ concat (map (chunk L r) W')) \<and>
    (\<forall>k. k \<notin> fst ` {e \<in> set E. is_value (fst (snd e))} \<longrightarrow> redirections s' k = redirections s k) \<and>
    (\<forall>(k, v, refs) \<in> set E. is_value v \<longrightarrow> resolved (W @ W') s' k v refs) \<and>
    existingArities s' = existingArities s \<and> (\<forall>key i. dict s key = Some i \<longrightarrow> dict s' key = Some i)"
  using assms
proof (induction E arbitrary: s W left)
  case Nil
  then show ?case by (intro exI[of _ "[]"]) auto
next
  case (Cons e E)
  obtain k v refs where e: "e = (k, v, refs)" by (cases e)
  have kE: "k \<notin> fst ` set E" "k \<notin> fst ` set W" using Cons.prems(3) e by auto
  have rest: "\<forall>(k, v, refs) \<in> set E. redirections s k = k \<and> (is_value v \<longrightarrow> children refs = [])" using Cons.prems(4) by simp
  show ?case
  proof (cases "value_key v")
    case (Some key)
    obtain t where t: "writeValues L (e # E) s = writeValues L E t" "existingArities t = existingArities s"
      "case dict s key of
         Some i \<Rightarrow> dict t = dict s \<and> redirections t = (redirections s)(k := i) \<and> written t = written s
       | None \<Rightarrow> dict t = (dict s)(key \<mapsto> k) \<and> redirections t = redirections s \<and> written t = written s @ chunk L (redirections s) (k, v, refs)"
      using writeValues_key[OF Some, of L k refs E s] e by metis
    have val: "is_value v" using Some by (simp add: is_value_def)
    define W1 where "W1 = (if dict s key = None then [(k, v, refs)] else [])"
    have redE: "\<forall>(j, v, refs) \<in> set E. redirections t j = j \<and> (is_value v \<longrightarrow> children refs = [])"
      using rest kE(1) t(3) by (cases "dict s key") (auto simp: rev_image_eqI)
    have "values_written (W @ W1) t"
      using Cons.prems(2,4) t(3) kE(2) Some e values_written_add[of W s t key k v refs] values_written_redirect[of W s t k]
      by (cases "dict s key") (auto simp: W1_def)
    moreover have "distinct (map fst (W @ W1) @ map fst E)" using Cons.prems(3) e by (auto simp: W1_def)
    moreover have "writeValues L E t = (left, s')" using Cons.prems(1) t(1) by simp
    ultimately obtain W' where W': "values_written ((W @ W1) @ W') s'" "set W' \<subseteq> {e \<in> set E. is_value (fst (snd e))}" "distinct (map fst W')"
      "left = filter (\<lambda>e. \<not> is_value (fst (snd e))) E" "\<forall>r. written s' = written t @ concat (map (chunk L r) W')"
      "\<forall>k. k \<notin> fst ` {e \<in> set E. is_value (fst (snd e))} \<longrightarrow> redirections s' k = redirections t k"
      "\<forall>(k, v, refs) \<in> set E. is_value v \<longrightarrow> resolved ((W @ W1) @ W') s' k v refs"
      "existingArities s' = existingArities t" "\<forall>key i. dict t key = Some i \<longrightarrow> dict s' key = Some i"
      using Cons.IH[of t left "W @ W1"] redE by blast
    have rk: "redirections s' k = redirections t k" using W'(6) kE(1) by auto
    have "dict t key = Some (redirections t k)" using t(3) Cons.prems(4) e by (cases "dict s key") auto
    then have res: "resolved (W @ W1 @ W') s' k v refs" using W'(9) rk Some by (simp add: resolved_def)
    have wt: "written t = written s @ concat (map (chunk L r) W1)" for r
      using t(3) chunk_cong[of "(k, v, refs)" "redirections s" r] Cons.prems(4) val e
      by (cases "dict s key") (auto simp: W1_def)
    have "\<forall>r. written s' = written s @ concat (map (chunk L r) (W1 @ W'))"
    proof
      fix r show "written s' = written s @ concat (map (chunk L r) (W1 @ W'))" using W'(5) wt[of r] by simp
    qed
    moreover have "distinct (map fst (W1 @ W'))" using W'(2,3) kE(1) by (auto simp: W1_def)
    moreover have "\<forall>key i. dict s key = Some i \<longrightarrow> dict s' key = Some i"
    proof (intro allI impI)
      fix key' i assume a: "dict s key' = Some i"
      then have "dict t key' = Some i" using t(3) by (cases "dict s key"; cases "key' = key") auto
      then show "dict s' key' = Some i" using W'(9) by blast
    qed
    moreover have "\<forall>j. j \<notin> fst ` {e' \<in> set (e # E). is_value (fst (snd e'))} \<longrightarrow> redirections s' j = redirections s j"
    proof (intro allI impI)
      fix j assume "j \<notin> fst ` {e' \<in> set (e # E). is_value (fst (snd e'))}"
      moreover have "{e' \<in> set (e # E). is_value (fst (snd e'))} = insert e {e' \<in> set E. is_value (fst (snd e'))}"
        using val e by auto
      ultimately have "j \<noteq> k" "j \<notin> fst ` {e' \<in> set E. is_value (fst (snd e'))}" using e by auto
      then show "redirections s' j = redirections s j" using W'(6) t(3) by (cases "dict s key") auto
    qed
    ultimately show ?thesis
      using W'(1,2,4,7,8) t(2) res val e by (intro exI[of _ "W1 @ W'"]) (auto simp: W1_def)
  next
    case None
    show ?thesis
    proof (cases "plain_value v")
      case True
      then have val: "is_value v" by (simp add: is_value_def)
      define t where "t = write_entry L e s"
      have t: "dict t = dict s" "redirections t = redirections s" "existingArities t = existingArities s"
        unfolding t_def dict_upd by (simp_all add: write_entry_def)
      have w: "writeValues L (e # E) s = writeValues L E t" using None True e by (cases v) (auto simp: t_def)
      have "values_written (W @ [e]) t"
        using Cons.prems(2,4) e values_written_plain[of W s t k v refs] t by simp
      moreover have "distinct (map fst (W @ [e]) @ map fst E)" using Cons.prems(3) by auto
      moreover have "\<forall>(k, v, refs) \<in> set E. redirections t k = k \<and> (is_value v \<longrightarrow> children refs = [])"
        using rest t by simp
      ultimately obtain W' where W': "values_written ((W @ [e]) @ W') s'" "set W' \<subseteq> {e \<in> set E. is_value (fst (snd e))}" "distinct (map fst W')"
        "left = filter (\<lambda>e. \<not> is_value (fst (snd e))) E" "\<forall>r. written s' = written t @ concat (map (chunk L r) W')"
        "\<forall>k. k \<notin> fst ` {e \<in> set E. is_value (fst (snd e))} \<longrightarrow> redirections s' k = redirections t k"
        "\<forall>(k, v, refs) \<in> set E. is_value v \<longrightarrow> resolved ((W @ [e]) @ W') s' k v refs"
        "existingArities s' = existingArities t" "\<forall>key i. dict t key = Some i \<longrightarrow> dict s' key = Some i"
        using Cons.IH[of t left "W @ [e]"] Cons.prems(1) w by auto
      have wt: "written t = written s @ chunk L r e" for r
        using chunk_cong[of e "redirections s" r] Cons.prems(4) val e by (auto simp: t_def write_entry_def chunk_def)
      have "\<forall>r. written s' = written s @ concat (map (chunk L r) (e # W'))"
      proof
        fix r show "written s' = written s @ concat (map (chunk L r) (e # W'))" using W'(5) wt[of r] by simp
      qed
      moreover have "redirections s' k = redirections s k" using W'(6) kE(1) t by auto
      then have "resolved (W @ e # W') s' k v refs" using None Cons.prems(4) e by (simp add: resolved_def)
      moreover have "distinct (map fst (e # W'))" using W'(2,3) kE(1) e by auto
      ultimately show ?thesis
        using W'(1,2,4,6,7,8,9) val e t by (intro exI[of _ "e # W'"]) auto
    next
      case False
      then have nv: "\<not> is_value v" using None by (simp add: is_value_def)
      obtain left' where l: "writeValues L E s = (left', s')" "left = e # left'"
        using Cons.prems(1) None False e by (cases v) (auto split: prod.splits)
      have "\<exists>W'. values_written (W @ W') s' \<and> set W' \<subseteq> {e \<in> set E. is_value (fst (snd e))} \<and> distinct (map fst W') \<and>
        left' = filter (\<lambda>e. \<not> is_value (fst (snd e))) E \<and>
        (\<forall>r. written s' = written s @ concat (map (chunk L r) W')) \<and>
        (\<forall>k. k \<notin> fst ` {e \<in> set E. is_value (fst (snd e))} \<longrightarrow> redirections s' k = redirections s k) \<and>
        (\<forall>(k, v, refs) \<in> set E. is_value v \<longrightarrow> resolved (W @ W') s' k v refs) \<and>
        existingArities s' = existingArities s \<and> (\<forall>key i. dict s key = Some i \<longrightarrow> dict s' key = Some i)"
        using Cons.IH[OF l(1) Cons.prems(2) _ rest] Cons.prems(3) by simp
      moreover have "{e' \<in> set (e # E). is_value (fst (snd e'))} = {e' \<in> set E. is_value (fst (snd e'))}"
        "filter (\<lambda>e. \<not> is_value (fst (snd e))) (e # E) = e # filter (\<lambda>e. \<not> is_value (fst (snd e))) E"
        "\<And>Q. (\<forall>(k, v, refs) \<in> set (e # E). is_value v \<longrightarrow> Q k v refs) \<longleftrightarrow> (\<forall>(k, v, refs) \<in> set E. is_value v \<longrightarrow> Q k v refs)"
        using nv e by auto
      ultimately show ?thesis by (simp only: l(2) list.inject simp_thms)
    qed
  qed
qed

text \<open>Arities: an arity has been written or is equal to one that has.\<close>

definition arities_written :: "wentry list \<Rightarrow> write_state \<Rightarrow> bool" where
  "arities_written W s \<longleftrightarrow>
     (\<forall>l xs. existingArities s l = Some xs \<longrightarrow> (\<forall>(i, w) \<in> set xs. \<exists>refs. (i, w, refs) \<in> set W)) \<and>
     (\<forall>(k, v, refs) \<in> set W. redirections s k = k)"

definition resolved_arity :: "store \<Rightarrow> wentry list \<Rightarrow> write_state \<Rightarrow> nat \<Rightarrow> node_id pnode \<Rightarrow> nat pnode \<Rightarrow> bool" where
  "resolved_arity st W s k v refs \<longleftrightarrow>
     (k, v, refs) \<in> set W \<and> redirections s k = k \<or>
     (\<exists>w refs'. (redirections s k, w, refs') \<in> set W \<and> arity_equals st w v)"

lemma findArity_cases:
  "(\<exists>i w. findArity st (k, v, refs) s = (True, redirect k i s) \<and> arity_equals st w v \<and>
      (\<exists>l xs. existingArities s l = Some xs \<and> (i, w) \<in> set xs)) \<or>
   (\<exists>l. findArity st (k, v, refs) s =
      (False, s\<lparr>existingArities := (existingArities s)(l \<mapsto> (k, v) # (case existingArities s l of Some xs \<Rightarrow> xs | None \<Rightarrow> []))\<rparr>))"
proof -
  define l where "l = redirections s (last (children refs))"
  show ?thesis
  proof (cases "existingArities s l")
    case None
    then show ?thesis by (auto simp: findArity_def Let_def l_def[symmetric] intro!: exI[of _ l])
  next
    case (Some xs)
    show ?thesis
    proof (cases "List.find (\<lambda>(writtenIndex, w). arity_equals st w v) xs")
      case None
      then show ?thesis using Some by (auto simp: findArity_def Let_def l_def[symmetric] intro!: exI[of _ l])
    next
      case (Some iw)
      then have f: "iw \<in> set xs" "arity_equals st (snd iw) v" by (auto simp: find_Some_iff case_prod_beta)
      obtain i w where iw: "iw = (i, w)" by (cases iw)
      have "findArity st (k, v, refs) s = (True, redirect k i s)"
        using Some iw \<open>existingArities s l = Some xs\<close> by (simp add: findArity_def Let_def l_def[symmetric])
      then show ?thesis using f iw \<open>existingArities s l = Some xs\<close> by auto
    qed
  qed
qed

lemma writeArities_correct:
  assumes "writeArities L st E s = (left, s')" "arities_written W s" "distinct (map fst W @ map fst E)"
    and "\<forall>(k, v, refs) \<in> set E. redirections s k = k"
    and "\<forall>(k, v, refs) \<in> set E. is_arity v \<longrightarrow> set (children refs) \<inter> fst ` {e \<in> set E. is_arity (fst (snd e))} = {}"
  shows "\<exists>W'. arities_written (W @ W') s' \<and> set W' \<subseteq> {e \<in> set E. is_arity (fst (snd e))} \<and> distinct (map fst W') \<and>
    left = filter (\<lambda>e. \<not> is_arity (fst (snd e))) E \<and>
    written s' = written s @ concat (map (chunk L (redirections s')) W') \<and>
    (\<forall>k. k \<notin> fst ` {e \<in> set E. is_arity (fst (snd e))} \<longrightarrow> redirections s' k = redirections s k) \<and>
    (\<forall>(k, v, refs) \<in> set E. is_arity v \<longrightarrow> resolved_arity st (W @ W') s' k v refs)"
  using assms
proof (induction E arbitrary: s W left)
  case Nil
  then show ?case by (intro exI[of _ "[]"]) auto
next
  case (Cons e E)
  obtain k v refs where e: "e = (k, v, refs)" by (cases e)
  have kE: "k \<notin> fst ` set E" "k \<notin> fst ` set W" using Cons.prems(3) e by auto
  show ?case
  proof (cases "is_arity v")
    case True
    have set_eq: "{e' \<in> set (e # E). is_arity (fst (snd e'))} = insert e {e' \<in> set E. is_arity (fst (snd e'))}"
      using True e by auto
    define t where "t = write_unless_found L e (findArity st e s)"
    have w: "writeArities L st (e # E) s = writeArities L st E t" using True e by (simp add: t_def)
    obtain W1 where W1: "arities_written (W @ W1) t" "W1 = [] \<or> W1 = [e]" "\<And>j. j \<noteq> k \<Longrightarrow> redirections t j = redirections s j"
      "W1 = [e] \<Longrightarrow> redirections t k = k" "written t = written s @ concat (map (chunk L (redirections s)) W1)"
      "resolved_arity st (W @ W1) t k v refs"
    proof -
      consider (found) i w l xs where "findArity st e s = (True, redirect k i s)" "arity_equals st w v" "existingArities s l = Some xs" "(i, w) \<in> set xs"
        | (new) l where "findArity st e s =
            (False, s\<lparr>existingArities := (existingArities s)(l \<mapsto> (k, v) # (case existingArities s l of Some xs \<Rightarrow> xs | None \<Rightarrow> []))\<rparr>)"
        using findArity_cases[of st k v refs s] unfolding e[symmetric] by blast
      then show ?thesis
      proof cases
        case found
        then have t: "t = redirect k i s" by (simp add: t_def write_unless_found_def)
        obtain refs' where "(i, w, refs') \<in> set W" using Cons.prems(2) found by (fastforce simp: arities_written_def)
        then have "resolved_arity st W t k v refs" using found(2) by (auto simp: resolved_arity_def t redirect_def)
        moreover have "arities_written W t" using Cons.prems(2) kE(2) by (auto simp: arities_written_def t redirect_def rev_image_eqI)
        ultimately show ?thesis using that[of "[]"] by (simp add: t redirect_def)
      next
        case new
        then have t: "redirections t = redirections s" "written t = written s @ chunk L (redirections s) e"
          "existingArities t = (existingArities s)(l \<mapsto> (k, v) # (case existingArities s l of Some xs \<Rightarrow> xs | None \<Rightarrow> []))"
          by (simp_all add: t_def write_unless_found_def write_entry_def chunk_def)
        have old: "\<exists>refs. (i, w, refs) \<in> set W" if "existingArities s l' = Some ys" "(i, w) \<in> set ys" for l' ys i w
          using Cons.prems(2) that by (fastforce simp: arities_written_def)
        have "\<exists>refs. (i, w, refs) \<in> set (W @ [e])" if "existingArities t l' = Some xs" "(i, w) \<in> set xs" for l' xs i w
        proof (cases "(i, w) = (k, v)")
          case True
          then show ?thesis using e by (intro exI[of _ refs]) simp
        next
          case False
          have "\<exists>l'' ys. existingArities s l'' = Some ys \<and> (i, w) \<in> set ys"
          proof (cases "l' = l")
            case True
            then have "(i, w) \<in> set (case existingArities s l of Some xs \<Rightarrow> xs | None \<Rightarrow> [])" using that False by (auto simp: t)
            then show ?thesis by (cases "existingArities s l") auto
          qed (use that in \<open>auto simp: t\<close>)
          then obtain l'' ys where "existingArities s l'' = Some ys" "(i, w) \<in> set ys" by blast
          from old[OF this] obtain refs' where "(i, w, refs') \<in> set W" ..
          then show ?thesis by (intro exI[of _ refs']) simp
        qed
        then have "arities_written (W @ [e]) t"
          using Cons.prems(2,4) e by (auto simp: arities_written_def t(1))
        moreover have "resolved_arity st (W @ [e]) t k v refs" using Cons.prems(4) e by (simp add: resolved_arity_def t)
        ultimately show ?thesis using that[of "[e]"] Cons.prems(4) e by (simp add: t)
      qed
    qed
    have dE: "distinct (map fst (W @ W1) @ map fst E)"
      using W1(2)
    proof
      assume "W1 = [e]"
      then have "map fst (W @ W1) @ map fst E = map fst W @ map fst (e # E)" by simp
      then show ?thesis using Cons.prems(3) by argo
    qed (use Cons.prems(3) in simp)
    have redE: "redirections t j = j" if "(j, w, rs) \<in> set E" for j w rs
    proof -
      have "j \<noteq> k" using that kE(1) by force
      then show ?thesis using that W1(3)[of j] Cons.prems(4) by auto
    qed
    note dE
    moreover have "\<forall>(k, v, refs) \<in> set E. redirections t k = k" using redE by auto
    moreover have "\<forall>(k, v, refs) \<in> set E. is_arity v \<longrightarrow> set (children refs) \<inter> fst ` {e \<in> set E. is_arity (fst (snd e))} = {}"
    proof (intro ballI, clarify)
      fix j w rs assume a: "(j, w, rs) \<in> set E" "is_arity w"
      have "fst ` {e \<in> set E. is_arity (fst (snd e))} \<subseteq> fst ` {e' \<in> set (e # E). is_arity (fst (snd e'))}" by auto
      moreover have "set (children rs) \<inter> fst ` {e' \<in> set (e # E). is_arity (fst (snd e'))} = {}"
        using bspec[OF Cons.prems(5), of "(j, w, rs)"] a by simp
      ultimately show "set (children rs) \<inter> fst ` {e \<in> set E. is_arity (fst (snd e))} = {}" by blast
    qed
    moreover have "writeArities L st E t = (left, s')" using Cons.prems(1) w by simp
    ultimately obtain W' where W': "arities_written ((W @ W1) @ W') s'" "set W' \<subseteq> {e \<in> set E. is_arity (fst (snd e))}" "distinct (map fst W')"
      "left = filter (\<lambda>e. \<not> is_arity (fst (snd e))) E" "written s' = written t @ concat (map (chunk L (redirections s')) W')"
      "\<forall>k. k \<notin> fst ` {e \<in> set E. is_arity (fst (snd e))} \<longrightarrow> redirections s' k = redirections t k"
      "\<forall>(k, v, refs) \<in> set E. is_arity v \<longrightarrow> resolved_arity st ((W @ W1) @ W') s' k v refs"
      using Cons.IH[of t left "W @ W1"] W1(1) by blast
    have rk: "redirections s' k = redirections t k" using W'(6) kE(1) by auto
    have "chunk L (redirections s) e = chunk L (redirections s') e"
    proof (rule chunk_cong)
      fix x assume "x \<in> set (children (snd (snd e)))"
      then have "x \<notin> fst ` insert e {e' \<in> set E. is_arity (fst (snd e'))}"
        using Cons.prems(5) e True unfolding set_eq by auto
      then show "redirections s x = redirections s' x" using W'(6) W1(3)[of x] e by auto
    qed
    then have "written s' = written s @ concat (map (chunk L (redirections s')) (W1 @ W'))" using W'(5) W1(2,5) by auto
    moreover have "k \<notin> fst ` set W'" using W'(2) kE(1) by blast
    then have "distinct (map fst (W1 @ W'))" using W'(3) W1(2) e by (elim disjE) simp_all
    moreover have "resolved_arity st (W @ W1 @ W') s' k v refs" using W1(6) rk by (auto simp: resolved_arity_def)
    moreover have "\<forall>j. j \<notin> fst ` {e' \<in> set (e # E). is_arity (fst (snd e'))} \<longrightarrow> redirections s' j = redirections s j"
      unfolding set_eq using W'(6) W1(3) e by auto
    moreover have "set (W1 @ W') \<subseteq> {e' \<in> set (e # E). is_arity (fst (snd e'))}" unfolding set_eq using W'(2) W1(2) by auto
    ultimately show ?thesis
      using W'(1,4,7) True e by (intro exI[of _ "W1 @ W'"]) auto
  next
    case False
    obtain left' where l: "writeArities L st E s = (left', s')" "left = e # left'"
      using Cons.prems(1) False e by (auto split: prod.splits)
    have eqs: "{e' \<in> set (e # E). is_arity (fst (snd e'))} = {e' \<in> set E. is_arity (fst (snd e'))}"
      "filter (\<lambda>e. \<not> is_arity (fst (snd e))) (e # E) = e # filter (\<lambda>e. \<not> is_arity (fst (snd e))) E"
      "\<And>Q. (\<forall>(k, v, refs) \<in> set (e # E). is_arity v \<longrightarrow> Q k v refs) \<longleftrightarrow> (\<forall>(k, v, refs) \<in> set E. is_arity v \<longrightarrow> Q k v refs)"
      using False e by auto
    have "\<exists>W'. arities_written (W @ W') s' \<and> set W' \<subseteq> {e \<in> set E. is_arity (fst (snd e))} \<and> distinct (map fst W') \<and>
      left' = filter (\<lambda>e. \<not> is_arity (fst (snd e))) E \<and>
      written s' = written s @ concat (map (chunk L (redirections s')) W') \<and>
      (\<forall>k. k \<notin> fst ` {e \<in> set E. is_arity (fst (snd e))} \<longrightarrow> redirections s' k = redirections s k) \<and>
      (\<forall>(k, v, refs) \<in> set E. is_arity v \<longrightarrow> resolved_arity st (W @ W') s' k v refs)"
      using Cons.IH[OF l(1) Cons.prems(2)] Cons.prems(3,4,5) unfolding eqs by simp
    then show ?thesis by (simp only: eqs l(2) list.inject simp_thms)
  qed
qed

lemma writeOthers_written: "written (writeOthers L E s) = written s @ concat (map (chunk L (redirections s)) E)"
proof (induction E arbitrary: s)
  case (Cons e E)
  have "redirections (write_entry L e s) = redirections s" by (simp add: write_entry_def)
  then show ?case using Cons by (simp add: write_entry_def chunk_def)
qed simp


section \<open>What a pickle contains\<close>

text \<open>The node that is read for an entry: equal values and equal arities have been merged.\<close>

definition entries_ok :: "store \<Rightarrow> (node_id \<Rightarrow> nat) \<Rightarrow> wentry list \<Rightarrow> bool" where
  "entries_ok st g E \<longleftrightarrow>
     distinct (map fst E) \<and>
     (\<forall>(k, v, refs) \<in> set E. refs = map_pnode g v) \<and>
     (\<forall>(k, v, refs) \<in> set E. \<forall>(k', v', refs') \<in> set E. value_key v \<noteq> None \<longrightarrow> value_key v = value_key v' \<longrightarrow> v = v') \<and>
     (\<forall>(k, v, refs) \<in> set E. is_arity v \<longrightarrow>
        (\<forall>x \<in> set (children v). \<exists>m w. deref st x = Some m \<and> st m = Value w \<and> feature_of w \<noteq> None \<and> (g x, w, map_pnode g w) \<in> set E))"

definition merged :: "wentry list \<Rightarrow> (nat \<Rightarrow> nat) \<Rightarrow> nat \<Rightarrow> nat pnode \<Rightarrow> bool" where
  "merged W R k refs \<longleftrightarrow> (\<exists>v' refs'. (R k, v', refs') \<in> set W \<and> map_pnode R refs' = map_pnode R refs)"

lemma entry_unique: "distinct (map fst E) \<Longrightarrow> (k, x) \<in> set E \<Longrightarrow> (k, y) \<in> set E \<Longrightarrow> x = y"
  by (rule eq_key_imp_eq_value)

lemma entry_not_in: "distinct (map fst E) \<Longrightarrow> (k, x) \<in> set E \<Longrightarrow> \<not> P (k, x) \<Longrightarrow> k \<notin> fst ` {e \<in> set E. P e}"
  using inj_on_image_mem_iff[of fst "set E" "(k, x)" "{e \<in> set E. P e}"] by (simp add: distinct_map)

lemma keys_disjoint:
  assumes "distinct (map fst E)" "A \<subseteq> {e \<in> set E. P e}" "B \<subseteq> {e \<in> set E. \<not> P e}"
  shows "fst ` A \<inter> fst ` B = {}"
proof -
  have "fst ` (A \<inter> B) = fst ` A \<inter> fst ` B"
    using assms by (intro inj_on_image_Int[of fst "set E"]) (auto simp: distinct_map)
  moreover have "A \<inter> B = {}" using assms(2,3) by blast
  ultimately show ?thesis by simp
qed

lemma arity_equals_refs:
  assumes "arity_equals st w v" "is_arity w" "is_arity v" "\<And>a b. same_feature st a b \<Longrightarrow> a \<in> set (children w) \<Longrightarrow> b \<in> set (children v) \<Longrightarrow> f a = f b"
  shows "map_pnode f w = map_pnode f v"
proof -
  have "map f (children w) = map f (children v)"
    using assms(1,4) unfolding arity_equals_def
    by (intro nth_equalityI) (auto simp: list_all2_conv_all_nth)
  then show ?thesis using assms(2,3) by (cases w; cases v) auto
qed

lemma write_pickle_correct:
  assumes ok: "entries_ok st g E"
  obtains W R where
    "write_pickle L st nodeCount topLevelIndex E = writeSize nodeCount @ writeSize topLevelIndex @ concat (map (chunk L R) W) @ writeSize 0"
    "distinct (map fst W)" "set W \<subseteq> set E" "\<And>k v refs. (k, v, refs) \<in> set E \<Longrightarrow> merged W R k refs"
    "\<And>k v refs. (k, v, refs) \<in> set E \<Longrightarrow> \<not> is_value v \<Longrightarrow> \<not> is_arity v \<Longrightarrow> R k = k"
proof -
  have dE: "distinct (map fst E)" and refs: "\<And>k v refs. (k, v, refs) \<in> set E \<Longrightarrow> refs = map_pnode g v"
    and keys: "\<And>k v refs k' v' refs'. (k, v, refs) \<in> set E \<Longrightarrow> (k', v', refs') \<in> set E \<Longrightarrow> value_key v \<noteq> None \<Longrightarrow> value_key v = value_key v' \<Longrightarrow> v = v'"
    using ok unfolding entries_ok_def by fast+
  have feat: "\<exists>m w. deref st x = Some m \<and> st m = Value w \<and> feature_of w \<noteq> None \<and> (g x, w, map_pnode g w) \<in> set E"
    if "(k, v, refs) \<in> set E" "is_arity v" "x \<in> set (children v)" for k v refs x
    using ok that unfolding entries_ok_def by fast
  define s0 where "s0 = \<lparr>redirections = (\<lambda>i. i), existingFeatures = Map.empty, existingBuiltins = Map.empty,
    existingArities = Map.empty, written = writeSize nodeCount @ writeSize topLevelIndex\<rparr>"
  obtain E1 s1 where p1: "writeValues L E s0 = (E1, s1)" by (cases "writeValues L E s0")
  obtain E2 s2 where p2: "writeArities L st E1 s1 = (E2, s2)" by (cases "writeArities L st E1 s1")
  define R where "R = redirections s2"
  have wp: "write_pickle L st nodeCount topLevelIndex E = written (writeOthers L E2 s2) @ writeSize 0"
    unfolding write_pickle_def Let_def s0_def[symmetric] p1 p2 prod.case ..
  have d0: "dict s0 key = None" for key by (cases "(s0, key)" rule: dict.cases) (simp_all add: s0_def)
  have v0: "values_written [] s0" by (simp add: values_written_def d0)
  have i0: "\<forall>(k, v, refs) \<in> set E. redirections s0 k = k \<and> (is_value v \<longrightarrow> children refs = [])"
    using refs is_value_leaf by (fastforce simp: s0_def)
  obtain W1 where W1: "values_written W1 s1" "set W1 \<subseteq> {e \<in> set E. is_value (fst (snd e))}" "distinct (map fst W1)"
    "E1 = filter (\<lambda>e. \<not> is_value (fst (snd e))) E" "\<forall>r. written s1 = written s0 @ concat (map (chunk L r) W1)"
    "\<forall>k. k \<notin> fst ` {e \<in> set E. is_value (fst (snd e))} \<longrightarrow> redirections s1 k = redirections s0 k"
    "\<forall>(k, v, refs) \<in> set E. is_value v \<longrightarrow> resolved W1 s1 k v refs" "existingArities s1 = existingArities s0"
    using writeValues_correct[OF p1 v0 _ i0, unfolded append_Nil list.map, OF dE] by blast
  have setE1: "set E1 = {e \<in> set E. \<not> is_value (fst (snd e))}" using W1(4) by simp
  have dE1: "distinct (map fst E1)" using dE W1(4) by (simp add: distinct_map_filter)
  have other: "k \<notin> fst ` {e \<in> set E. is_value (fst (snd e))}" if "(k, x) \<in> set E1" for k x
    using that entry_not_in[OF dE, of k x "\<lambda>e. is_value (fst (snd e))"] unfolding setE1 by simp
  have v1: "arities_written [] s1" using W1(8) by (simp add: arities_written_def s0_def)
  have i1: "\<forall>(k, v, refs) \<in> set E1. redirections s1 k = k"
  proof (intro ballI, clarify)
    fix k v refs assume "(k, v, refs) \<in> set E1"
    from other[OF this] W1(6) show "redirections s1 k = k" by (simp add: s0_def)
  qed
  have arity_children: "k \<notin> fst ` {e \<in> set E. is_arity (fst (snd e))}" if "(j, v, refs) \<in> set E" "is_arity v" "k \<in> set (children refs)" for j v refs k
  proof -
    have "k \<in> g ` set (children v)" using that(3) unfolding refs[OF that(1)] by simp
    then obtain x where x: "k = g x" "x \<in> set (children v)" by blast
    from feat[OF that(1,2) x(2)] obtain w where w: "feature_of w \<noteq> None" "(k, w, map_pnode g w) \<in> set E" using x(1) by blast
    then have "\<not> is_arity w" by (cases w) auto
    then show ?thesis using entry_not_in[OF dE w(2), of "\<lambda>e. is_arity (fst (snd e))"] by simp
  qed
  have c1: "\<forall>(k, v, refs) \<in> set E1. is_arity v \<longrightarrow> set (children refs) \<inter> fst ` {e \<in> set E1. is_arity (fst (snd e))} = {}"
  proof (intro ballI, clarify)
    fix j v refs assume a: "(j, v, refs) \<in> set E1" "is_arity v"
    show "set (children refs) \<inter> fst ` {e \<in> set E1. is_arity (fst (snd e))} = {}"
      using arity_children[of j v refs] a unfolding setE1 by blast
  qed
  obtain W2 where W2: "arities_written W2 s2" "set W2 \<subseteq> {e \<in> set E1. is_arity (fst (snd e))}" "distinct (map fst W2)"
    "E2 = filter (\<lambda>e. \<not> is_arity (fst (snd e))) E1" "written s2 = written s1 @ concat (map (chunk L R) W2)"
    "\<forall>k. k \<notin> fst ` {e \<in> set E1. is_arity (fst (snd e))} \<longrightarrow> R k = redirections s1 k"
    "\<forall>(k, v, refs) \<in> set E1. is_arity v \<longrightarrow> resolved_arity st W2 s2 k v refs"
    using writeArities_correct[OF p2 v1 _ i1 c1, unfolded append_Nil list.map, OF dE1] unfolding R_def by blast
  have W1E: "set W1 \<subseteq> set E" and W2E: "set W2 \<subseteq> set E1" using W1(2) W2(2) by blast+
  define W where "W = W1 @ W2 @ E2"
  have other2: "k \<notin> fst ` {e \<in> set E1. is_arity (fst (snd e))}" if "(k, v, refs) \<in> set E" "\<not> is_arity v" for k v refs
    using entry_not_in[OF dE that(1), of "\<lambda>e. is_arity (fst (snd e))"] that(2) unfolding setE1 by auto
  have value_res: "resolved W1 s1 k v refs \<and> R k = redirections s1 k" if "(k, v, refs) \<in> set E" "is_value v" for k v refs
  proof -
    have "\<not> is_arity v" using is_value_leaf[OF that(2)] by (cases v) auto
    then show ?thesis using W1(7) W2(6) other2[OF that(1)] that by blast
  qed
  have key_res: "dict s1 key = Some (R k)" if "(k, v, refs) \<in> set E" "value_key v = Some key" for k v refs key
    using value_res[OF that(1)] that(2) by (simp add: is_value_def resolved_def)
  have same_R: "R (g a) = R (g b)" if "same_feature st a b" "a \<in> set (children w)" "b \<in> set (children v)"
    "is_arity w" "is_arity v" "(i, w, refs') \<in> set E" "(k, v, refs) \<in> set E" for a b v w i k refs refs'
  proof -
    from feat[OF that(6,4,2)] obtain m x where x: "deref st a = Some m" "st m = Value x" "feature_of x \<noteq> None" "(g a, x, map_pnode g x) \<in> set E" by blast
    from feat[OF that(7,5,3)] obtain n y where y: "deref st b = Some n" "st n = Value y" "feature_of y \<noteq> None" "(g b, y, map_pnode g y) \<in> set E" by blast
    have "feature_of x = feature_of y" using that(1) x y by (simp add: same_feature_def)
    then obtain f where "value_key x = Some (Inl f)" "value_key y = Some (Inl f)" using x(3) by (cases x; cases y) auto
    then have "dict s1 (Inl f) = Some (R (g a))" "dict s1 (Inl f) = Some (R (g b))" using key_res[OF x(4)] key_res[OF y(4)] by blast+
    then show ?thesis by simp
  qed
  show thesis
  proof (rule that[of R W])
    have "written (writeOthers L E2 s2) = writeSize nodeCount @ writeSize topLevelIndex @ concat (map (chunk L R) W)"
      unfolding writeOthers_written W2(5) W1(5)[rule_format, of R] by (simp add: R_def W_def s0_def)
    then show "write_pickle L st nodeCount topLevelIndex E =
      writeSize nodeCount @ writeSize topLevelIndex @ concat (map (chunk L R) W) @ writeSize 0"
      unfolding wp by simp
    have "fst ` set W1 \<inter> fst ` set E1 = {}" by (rule keys_disjoint[OF dE W1(2)]) (simp add: setE1)
    moreover have "fst ` set W2 \<inter> fst ` set E2 = {}" by (rule keys_disjoint[OF dE1 W2(2)]) (use W2(4) in simp)
    moreover have "distinct (map fst E2)" using dE1 W2(4) by (simp add: distinct_map_filter)
    moreover have "set E2 \<subseteq> set E1" using W2(4) by simp
    ultimately show "distinct (map fst W)" using W1(3) W2(3) W2E unfolding W_def by (auto 0 3)
    show "set W \<subseteq> set E" using W1E W2E W2(4) by (auto simp: W_def setE1)
    have others: "R k = k \<and> (k, v, refs) \<in> set E2" if "(k, v, refs) \<in> set E" "\<not> is_value v" "\<not> is_arity v" for k v refs
    proof -
      have "(k, v, refs) \<in> set E1" using that by (simp add: setE1)
      then show ?thesis using that(3) W2(4,6) other2[OF that(1,3)] other W1(6) by (simp add: s0_def)
    qed
    then show "R k = k" if "(k, v, refs) \<in> set E" "\<not> is_value v" "\<not> is_arity v" for k v refs
      using that by blast
    fix k v refs assume e: "(k, v, refs) \<in> set E"
    show "merged W R k refs"
    proof (cases "is_value v")
      case True
      note res = value_res[OF e True]
      show ?thesis
      proof (cases "value_key v")
        case None
        then have "(R k, v, refs) \<in> set W1" using res by (simp add: resolved_def)
        then show ?thesis unfolding merged_def W_def by auto
      next
        case (Some key)
        then have "dict s1 key = Some (R k)" by (rule key_res[OF e])
        then obtain v' refs' where v': "(R k, v', refs') \<in> set W1" "value_key v' = Some key"
          using W1(1) unfolding values_written_def by blast
        then have "(R k, v', refs') \<in> set E" using W1E by blast
        then have "v = v'" "refs' = map_pnode g v'" using keys[OF e] refs v'(2) Some by simp_all
        then show ?thesis using v'(1) refs[OF e] unfolding merged_def W_def by auto
      qed
    next
      case nv: False
      then have e1: "(k, v, refs) \<in> set E1" using e by (simp add: setE1)
      show ?thesis
      proof (cases "is_arity v")
        case True
        then have "resolved_arity st W2 s2 k v refs" using W2(7) e1 by blast
        then consider "(k, v, refs) \<in> set W2" "R k = k" | w refs' where "(R k, w, refs') \<in> set W2" "arity_equals st w v"
          unfolding resolved_arity_def R_def by blast
        then show ?thesis
        proof cases
          case 1
          then show ?thesis unfolding merged_def W_def by (intro exI[of _ v] exI[of _ refs]) simp
        next
          case 2
          then have w: "(R k, w, refs') \<in> set E" "is_arity w" using W2(2) unfolding setE1 by auto
          have "map_pnode (\<lambda>x. R (g x)) w = map_pnode (\<lambda>x. R (g x)) v"
            using same_R[OF _ _ _ w(2) True w(1) e] by (rule arity_equals_refs[OF 2(2) w(2) True])
          then have "map_pnode R refs' = map_pnode R refs"
            unfolding refs[OF e] refs[OF w(1)] by (simp add: pnode.map_comp comp_def)
          then show ?thesis using 2(1) unfolding merged_def W_def by auto
        qed
      next
        case False
        then show ?thesis using others[OF e nv] unfolding merged_def W_def by auto
      qed
    qed
  qed
qed

end
