(* ===== verification/PickleRoundtrip.thy ===== *)
theory PickleRoundtrip
  imports PicklePhases "HOL-Library.Sublist"
begin

text \<open>
  The walk of the pickler, its outcomes and the round trip: what \<open>pickle\<close> writes, \<open>unpickle\<close> reads back
  (\<open>vm/vm/main/pickler.cc\<close>, \<open>vm/vm/main/unpickler.cc\<close>), and no pickle that has been cut is accepted.
\<close>

section \<open>Reading the nodes back\<close>

lemma limits_map [simp]: "limits L P (map_pnode f v) = limits L P v"
  by (cases v) simp_all

lemma global_id_map [simp]: "global_id (map_pnode f v) = global_id v"
  by (cases v) simp_all

lemma type_id_map [simp]: "type_id (map_pnode f v) = type_id v"
  by (cases v) (simp_all add: type_id_def)




lemma unpickle_turn:
  "unpickle_loop (Suc fuel) P nodeCount b known =
     bind_reader readSize (\<lambda>index.
       if index = 0 then returns (b, known)
       else bind_reader (readValue P nodeCount known) (\<lambda>(v, known).
         if index \<le> nodeCount \<and> b index = None then unpickle_loop fuel P nodeCount (b(index \<mapsto> v)) known else aborts))"
  by (simp add: unpickle_loop.simps[of "Suc fuel"])


section \<open>The walk\<close>



















section \<open>The store after pickling\<close>








section \<open>The outcome of pickling\<close>










section \<open>The round trip\<close>




























section \<open>Pickles that are cut\<close>

text \<open>A reader is exact when what it takes alone decides its result, and it aborts on every part of it.\<close>

definition exact :: "'a reader \<Rightarrow> bool" where
  "exact p \<longleftrightarrow> (\<forall>input x rest. p input = Some (x, rest) \<longrightarrow>
     (\<exists>taken. input = taken @ rest \<and> (\<forall>r. p (taken @ r) = Some (x, r)) \<and> (\<forall>part. strict_prefix part taken \<longrightarrow> p part = None)))"

named_theorems exact_intros

lemma exact_returns [exact_intros]: "exact (returns x)"
  by (auto simp: exact_def returns_def)

lemma exact_aborts [exact_intros]: "exact aborts"
  by (simp add: exact_def aborts_def)

lemma exact_bytes [exact_intros]: "exact (read_bytes n)"
  unfolding exact_def
proof (intro allI impI)
  fix input x rest assume "read_bytes n input = Some (x, rest)"
  then have "n \<le> length input" "x = take n input" "rest = drop n input" by (simp_all add: read_bytes_def split: if_splits)
  then show "\<exists>taken. input = taken @ rest \<and> (\<forall>r. read_bytes n (taken @ r) = Some (x, r)) \<and> (\<forall>part. strict_prefix part taken \<longrightarrow> read_bytes n part = None)"
    by (intro exI[of _ x]) (auto simp: read_bytes_def dest: prefix_length_less)
qed

lemma exact_if [exact_intros]: "exact p \<Longrightarrow> exact q \<Longrightarrow> exact (if c then p else q)"
  by simp

lemma exact_bind [exact_intros]:
  assumes "exact p" "\<And>x. exact (f x)"
  shows "exact (bind_reader p f)"
  unfolding exact_def
proof (intro allI impI)
  fix input y rest assume "bind_reader p f input = Some (y, rest)"
  then obtain x mid where p: "p input = Some (x, mid)" and f: "f x mid = Some (y, rest)"
    by (auto simp: bind_reader_def split: option.splits)
  obtain a where a: "input = a @ mid" "\<And>r. p (a @ r) = Some (x, r)" "\<And>part. strict_prefix part a \<Longrightarrow> p part = None"
    using assms(1) p unfolding exact_def by blast
  obtain b where b: "mid = b @ rest" "\<And>r. f x (b @ r) = Some (y, r)" "\<And>part. strict_prefix part b \<Longrightarrow> f x part = None"
    using assms(2) f unfolding exact_def by blast
  have "bind_reader p f part = None" if "strict_prefix part (a @ b)" for part
  proof (cases "strict_prefix part a")
    case False
    have pre: "prefix part (a @ b)" "part \<noteq> a @ b" using that by simp_all
    have "\<exists>c. part = a @ c \<and> strict_prefix c b"
    proof (cases "prefix part a")
      case True
      then have "part = a" using False by (simp add: strict_prefix_def)
      then show ?thesis using pre(2) by (intro exI[of _ "[]"]) (cases b; simp)
    next
      case False
      then show ?thesis using pre by (auto simp: prefix_append strict_prefix_def)
    qed
    then obtain c where "part = a @ c" "strict_prefix c b" by blast
    then show ?thesis using a(2) b(3) by (simp add: bind_reader_def)
  qed (simp add: bind_reader_def a(3))
  then show "\<exists>taken. input = taken @ rest \<and> (\<forall>r. bind_reader p f (taken @ r) = Some (y, r)) \<and>
      (\<forall>part. strict_prefix part taken \<longrightarrow> bind_reader p f part = None)"
    using a b by (intro exI[of _ "a @ b"]) (simp add: bind_reader_def)
qed

lemma exact_node [exact_intros]: "exact (readNode nodeCount)"
  unfolding readNode_def readSize_def by (intro exact_intros)

lemma exact_nodes [exact_intros]: "exact (readNodes nodeCount n)"
  by (induction n) (auto intro!: exact_intros)

lemma exact_string [exact_intros]: "exact readString" "exact readSize"
  unfolding readString_def readSize_def by (intro exact_intros)+

lemma exact_sized [exact_intros]: "exact (readSizedNodes nodeCount)" "exact (read_labelled nodeCount build)" "exact (ignore_bytes n)" "exact readByte" "exact readUUID"
  unfolding readSizedNodes_def read_labelled_def ignore_bytes_def readByte_def readUUID_def by (intro exact_intros)+

lemma exact_case_prod [exact_intros]: "(\<And>x y. exact (f x y)) \<Longrightarrow> exact (case z of (x, y) \<Rightarrow> f x y)"
  by (cases z) simp

lemma exact_global [exact_intros]: "(\<And>u. exact (createFun u)) \<Longrightarrow> exact skipProc \<Longrightarrow> exact (readGlobalEntity createFun skipProc known)"
  unfolding readGlobalEntity_def by (intro exact_intros)

lemma exact_plain [exact_intros]: "exact (readPlainValue P nodeCount kind)"
  unfolding readPlainValue_def readIntValue_def readFloatValue_def Let_def by (intro exact_intros)

lemma exact_value [exact_intros]: "exact (readValue P nodeCount known)"
  unfolding readValue_def readCodeAreaValue_def readAbstractionValue_def readNameValue_def readNamedNameValue_def Let_def
  by (intro exact_intros)

lemma exact_loop: "exact (unpickle_loop fuel P nodeCount b known)"
proof (induction fuel arbitrary: b known)
  case 0
  then show ?case by (simp add: unpickle_loop.simps[of 0] exact_aborts)
next
  case (Suc fuel)
  then show ?case unfolding unpickle_turn by (intro exact_intros)
qed

lemma loop_monotone:
  "unpickle_loop fuel P nodeCount b known input = Some r \<Longrightarrow> fuel \<le> fuel' \<Longrightarrow> unpickle_loop fuel' P nodeCount b known input = Some r"
proof (induction fuel arbitrary: b known input fuel')
  case 0
  then show ?case by (simp add: unpickle_loop.simps[of 0] aborts_def)
next
  case (Suc fuel)
  then obtain f where f: "fuel' = Suc f" "fuel \<le> f" by (cases fuel') auto
  show ?case using Suc.prems(1) unfolding f(1) unpickle_turn
    by (auto simp: bind_reader_def intro: Suc.IH[OF _ f(2)] split: option.splits if_splits)
qed


lemma exact_length: "exact p \<Longrightarrow> p input = Some (x, rest) \<Longrightarrow> length rest \<le> length input"
  unfolding exact_def by fastforce

lemma readSize_length: "readSize input = Some (x, rest) \<Longrightarrow> length rest < length input"
  by (auto simp: readSize_def bind_reader_def read_bytes_def returns_def split: if_splits option.splits)

text \<open>The fuel is enough: more of it changes nothing.\<close>

lemma loop_fuel:
  "unpickle_loop fuel P nodeCount b known input = Some r \<Longrightarrow> length input < fuel' \<Longrightarrow> unpickle_loop fuel' P nodeCount b known input = Some r"
proof (induction fuel arbitrary: b known input fuel')
  case 0
  then show ?case by (simp add: unpickle_loop.simps[of 0] aborts_def)
next
  case (Suc fuel)
  then obtain f where f: "fuel' = Suc f" "length input \<le> f" by (cases fuel') auto
  have next_turn: "unpickle_loop f P nodeCount b' known' in2 = Some r"
    if "unpickle_loop fuel P nodeCount b' known' in2 = Some r" "readSize input = Some (i, in1)" "readValue P nodeCount known in1 = Some (x, in2)" for b' known' in1 in2 i x
    using Suc.IH[OF that(1), of f] readSize_length[OF that(2)] exact_length[OF exact_value that(3)] f(2) by simp
  show ?case using Suc.prems(1) unfolding f(1) unpickle_turn
    by (auto simp: bind_reader_def intro: next_turn split: option.splits if_splits)
qed

definition unpickle_with :: "nat \<Rightarrow> parsers \<Rightarrow> (UUID \<Rightarrow> bool) \<Rightarrow> (bindings \<times> nat \<times> (UUID \<Rightarrow> bool)) reader" where
  "unpickle_with fuel P known =
     bind_reader readSize (\<lambda>nodeCount.
     bind_reader readSize (\<lambda>resultIndex.
     bind_reader (unpickle_loop fuel P nodeCount Map.empty known) (\<lambda>(b, known).
     if resultIndex \<le> nodeCount then returns (b, resultIndex, known) else aborts)))"

lemma unpickle_with_eq: "length input < fuel \<Longrightarrow> unpickle P known input = unpickle_with fuel P known input"
proof -
  assume fuel: "length input < fuel"
  have "unpickle_loop (Suc (length in2)) P n Map.empty known in2 = unpickle_loop fuel P n Map.empty known in2"
    if "length in2 < fuel" for n in2
    using loop_fuel[of fuel P n Map.empty known in2 _ "Suc (length in2)"] loop_fuel[of "Suc (length in2)" P n Map.empty known in2 _ fuel] that
    by (cases "unpickle_loop fuel P n Map.empty known in2"; cases "unpickle_loop (Suc (length in2)) P n Map.empty known in2") auto
  then show ?thesis using fuel
    by (auto simp: unpickle_def unpickle_with_def bind_reader_def split: option.splits dest!: readSize_length)
qed

text \<open>C15. A pickle is self-delimiting and no part of it is taken for another one: when the unpickler
  returns, what it has read decides its result whatever follows, and on every proper prefix of those
  bytes, a file that has been cut, it aborts. No count or length in the file is trusted without the
  bytes that it announces.\<close>

theorem unpickle_exact: "exact (unpickle P known)"
  unfolding exact_def
proof (intro allI impI)
  fix input x rest assume u: "unpickle P known input = Some (x, rest)"
  have e: "exact (unpickle_with fuel P known)" for fuel
    unfolding unpickle_with_def by (intro exact_intros exact_loop)
  obtain taken where t: "input = taken @ rest"
    using e[of "Suc (length input)"] u unfolding exact_def unpickle_with_eq[OF lessI] by blast
  have w: "\<exists>taken. input = taken @ rest \<and> (\<forall>r. unpickle_with fuel P known (taken @ r) = Some (x, r)) \<and>
      (\<forall>part. strict_prefix part taken \<longrightarrow> unpickle_with fuel P known part = None)" if "length input < fuel" for fuel
    using e[of fuel] u unfolding exact_def unpickle_with_eq[OF that] by blast
  have "unpickle P known (taken @ r) = Some (x, r)" for r
    using w[of "Suc (length input + length r)"] t by (auto simp: unpickle_with_eq[of _ "Suc (length input + length r)"])
  moreover have "unpickle P known part = None" if "strict_prefix part taken" for part
    using w[of "Suc (length input)"] t that prefix_length_less[OF that] by (auto simp: unpickle_with_eq[of _ "Suc (length input)"])
  ultimately show "\<exists>taken. input = taken @ rest \<and> (\<forall>r. unpickle P known (taken @ r) = Some (x, r)) \<and>
      (\<forall>part. strict_prefix part taken \<longrightarrow> unpickle P known part = None)" using t by blast
qed

end
