(* ===== verification/Unify.thy ===== *)
theory Unify
  imports Features
begin

text \<open>
  Unification, structural equality and pattern matching (\<open>vm/vm/main/unify.cc\<close>, \<open>unify.hh\<close>) and the
  variables that they bind (\<open>variables.hh\<close>). The operands are stable nodes, as the entries of the
  stack of the walk are; a node is its address. \<open>None\<close>: a failed assertion, an access outside of an
  array, or a loop that does not end. Reflective variables are left out.
\<close>

section \<open>The store\<close>

type_synonym unode = nat
type_synonym space_id = nat
type_synonym obj_id = nat

text \<open>The types whose nodes are compared by their value.\<close>

datatype simple =
    SSmallInt nativeint | SBigInt int | SFloat u64 | SBoolean bool | SUnit | SAtom "u8 list" | SUniqueName "u8 list"
  | SString "u8 list" | SByteString "u8 list" | SBuiltin nat | SThread nat | SCapture nativeint | SVMPort nat

text \<open>The types whose nodes are compared by their address.\<close>

datatype token = TkOptName | TkGlobalName UUID | TkNamedName UUID | TkOther "u8 list"

text \<open>A \<open>Variable\<close> and a \<open>ReadOnlyVariable\<close> are pointers to an object, which a copy of the node shares.\<close>

datatype ucell =
    URef unode
  | USimple simple
  | UToken token
  | UCons unode unode
  | UTuple unode "unode list"        \<comment> \<open>label, elements\<close>
  | UArity unode "unode list"        \<comment> \<open>label, features\<close>
  | URecord unode "unode list"       \<comment> \<open>arity, elements\<close>
  | UConjunction "unode list"
  | UOpenRecord unode "unode list"   \<comment> \<open>arity, elements\<close>
  | UVariable obj_id
  | UReadOnlyVariable obj_id
  | UOptVar space_id
  | UReadOnly unode
  | UFailedValue unode

record var_object =
  home :: space_id
  needed :: bool
  pendings :: "unode list"

record environment =
  onTopLevel :: bool
  currentSpace :: space_id
  ancestorIsCurrent :: "space_id \<Rightarrow> bool"   \<comment> \<open>\<open>space->isAncestor(currentSpace)\<close>\<close>
  threadSpace :: "nat \<Rightarrow> space_id"
  controlNode :: unode                     \<comment> \<open>where the next stable node is allocated\<close>

text \<open>\<open>signalled\<close> records the variables that waking has bound to unit.\<close>

record ustate =
  cells :: "unode \<Rightarrow> ucell"
  objects :: "obj_id \<Rightarrow> var_object"
  nextObject :: obj_id
  trail :: "(unode \<times> ucell) list"
  running :: "nat \<Rightarrow> bool"
  resumed :: "nat list"
  signalled :: "unode list"
  walkStack :: "(unode list \<times> unode list) list"
  rebindTrail :: "(unode \<times> ucell) list"
  suspendTrail :: "(unode \<times> unode) list"
  captures :: "nat \<rightharpoonup> unode"

partial_function (option) uderef :: "(unode \<Rightarrow> ucell) \<Rightarrow> unode \<Rightarrow> unode option" where
  "uderef st n = (case st n of URef m \<Rightarrow> uderef st m | _ \<Rightarrow> Some n)"

declare uderef.simps [code]

lemma uderef_end: "uderef st n = Some m \<Longrightarrow> st m \<noteq> URef k"
proof -
  assume d: "uderef st n = Some m"
  have "\<forall>k. st m \<noteq> URef k"
  proof (rule uderef.raw_induct[OF _ d, where P = "\<lambda>st n m. \<forall>k. st m \<noteq> URef k"])
    fix u st n m
    assume IH: "\<And>st n m. u st n = Some m \<Longrightarrow> \<forall>k. st m \<noteq> URef k"
      and turn: "(case st n of URef k \<Rightarrow> u st k | _ \<Rightarrow> Some n) = Some m"
    show "\<forall>k. st m \<noteq> URef k"
    proof (cases "st n")
      case (URef k)
      then have "u st k = Some m" using turn by simp
      then show ?thesis by (rule IH)
    qed (use turn in auto)
  qed
  then show "st m \<noteq> URef k" by blast
qed

lemma deref_determined: "\<forall>k. st m \<noteq> URef k \<Longrightarrow> uderef st m = Some m"
proof -
  assume m: "\<forall>k. st m \<noteq> URef k"
  have "uderef st m = (case st m of URef k \<Rightarrow> uderef st k | _ \<Rightarrow> Some m)" by (rule uderef.simps)
  then show ?thesis using m by (cases "st m") simp_all
qed

datatype behaviour = SbTokenEq | SbValue | SbStructural | SbVariable

fun structuralBehavior :: "ucell \<Rightarrow> behaviour" where
  "structuralBehavior (URef _) = SbValue"
| "structuralBehavior (USimple _) = SbValue"
| "structuralBehavior (UToken _) = SbTokenEq"
| "structuralBehavior (UCons _ _) = SbStructural"
| "structuralBehavior (UTuple _ _) = SbStructural"
| "structuralBehavior (UArity _ _) = SbStructural"
| "structuralBehavior (URecord _ _) = SbStructural"
| "structuralBehavior (UConjunction _) = SbStructural"
| "structuralBehavior (UOpenRecord _ _) = SbTokenEq"
| "structuralBehavior _ = SbVariable"

fun bindingPriority :: "ucell \<Rightarrow> nat" where
  "bindingPriority (UVariable _) = 90"
| "bindingPriority (UReadOnlyVariable _) = 80"
| "bindingPriority (UOptVar _) = 100"
| "bindingPriority (UReadOnly _) = 80"
| "bindingPriority (UFailedValue _) = 10"
| "bindingPriority _ = 0"

definition isTransient :: "ucell \<Rightarrow> bool" where
  "isTransient c \<longleftrightarrow> structuralBehavior c = SbVariable"

fun isCopyableCell :: "ucell \<Rightarrow> bool" where
  "isCopyableCell (USimple v) = (case v of SBigInt _ \<Rightarrow> False | SString _ \<Rightarrow> False | SByteString _ \<Rightarrow> False | _ \<Rightarrow> True)"
| "isCopyableCell (URef _) = True"
| "isCopyableCell _ = False"

text \<open>\<open>RichNode::reinit\<close> with a stable node, and \<open>become\<close>, which asserts that the node is a variable or a
  token.\<close>

definition reinit_node :: "unode \<Rightarrow> unode \<Rightarrow> ustate \<Rightarrow> ustate" where
  "reinit_node n src s =
     (if n = src then s
      else s\<lparr>cells := (cells s)(n := if isCopyableCell (cells s src) then cells s src else URef src)\<rparr>)"

definition become :: "unode \<Rightarrow> unode \<Rightarrow> ustate \<Rightarrow> ustate option" where
  "become n src s =
     (if structuralBehavior (cells s n) = SbTokenEq \<or> structuralBehavior (cells s n) = SbVariable then Some (reinit_node n src s)
      else None)"

section \<open>Variables\<close>

definition makeBackup :: "unode \<Rightarrow> ustate \<Rightarrow> ustate" where
  "makeBackup n s = s\<lparr>trail := trail s @ [(n, cells s n)]\<rparr>"

text \<open>\<open>Variable::build(vm)\<close>: its home is the current space.\<close>

definition become_variable :: "environment \<Rightarrow> unode \<Rightarrow> bool \<Rightarrow> unode list \<Rightarrow> ustate \<Rightarrow> ustate" where
  "become_variable e n isNeeded ps s =
     s\<lparr>cells := (cells s)(n := UVariable (nextObject s)),
       objects := (objects s)(nextObject s := \<lparr>home = currentSpace e, needed = isNeeded, pendings = ps\<rparr>),
       nextObject := Suc (nextObject s)\<rparr>"

definition set_pendings :: "obj_id \<Rightarrow> unode list \<Rightarrow> ustate \<Rightarrow> ustate" where
  "set_pendings x ps s = s\<lparr>objects := (objects s)(x := (objects s x)\<lparr>pendings := ps\<rparr>)\<rparr>"

partial_function (option) addToSuspendList :: "environment \<Rightarrow> unode \<Rightarrow> unode \<Rightarrow> ustate \<Rightarrow> ustate option" where
  "addToSuspendList e n p s =
     (case cells s n of
        UVariable x \<Rightarrow> Some (set_pendings x (pendings (objects s x) @ [p]) s)
      | UReadOnlyVariable x \<Rightarrow> Some (set_pendings x (pendings (objects s x) @ [p]) s)
      | UOptVar _ \<Rightarrow> Some (become_variable e n False [p] s)
      | UReadOnly u \<Rightarrow> Option.bind (uderef (cells s) u) (\<lambda>m. addToSuspendList e m p s)
      | UFailedValue _ \<Rightarrow> None
      | _ \<Rightarrow> Some s)"

declare addToSuspendList.simps [code]

fun needsProtection :: "ucell \<Rightarrow> bool" where
  "needsProtection (UVariable _) = True"
| "needsProtection (UOptVar _) = True"
| "needsProtection (UReadOnlyVariable _) = True"
| "needsProtection _ = False"

fun shouldWakeUpUnderSpace :: "environment \<Rightarrow> ustate \<Rightarrow> ucell \<Rightarrow> bool" where
  "shouldWakeUpUnderSpace e s (USimple (SThread t)) = ancestorIsCurrent e (threadSpace e t)"
| "shouldWakeUpUnderSpace e s (UVariable x) = ancestorIsCurrent e (home (objects s x))"
| "shouldWakeUpUnderSpace e s (UReadOnly _) = True"
| "shouldWakeUpUnderSpace e s _ = False"

definition resume_suspended :: "nat \<Rightarrow> ustate \<Rightarrow> ustate" where
  "resume_suspended t s = (if running s t then s else s\<lparr>running := (running s)(t := True), resumed := resumed s @ [t]\<rparr>)"

text \<open>\<open>Variable::wakeUp\<close>, which is \<open>doBind\<close> with unit, up to the pendings.\<close>

definition signal :: "environment \<Rightarrow> unode \<Rightarrow> obj_id \<Rightarrow> ustate \<Rightarrow> ustate" where
  "signal e n x s =
     (let s = (if \<not> onTopLevel e \<and> home (objects s x) \<noteq> currentSpace e then makeBackup n s else s)
      in set_pendings x [] (s\<lparr>cells := (cells s)(n := USimple SUnit), signalled := signalled s @ [n]\<rparr>))"

text \<open>The nodes to wake, each with whether it is asked if it should wake up under the current space. The
  pendings of a variable that is woken come before the others.\<close>

partial_function (option) wake :: "environment \<Rightarrow> (bool \<times> unode) list \<Rightarrow> ustate \<Rightarrow> ustate option" where
  "wake e ps s =
     (case ps of
        [] \<Rightarrow> Some s
      | (ask, p) # ps \<Rightarrow> Option.bind (uderef (cells s) p) (\<lambda>n.
          if ask \<and> \<not> shouldWakeUpUnderSpace e s (cells s n) then wake e ps s
          else case cells s n of
             USimple v \<Rightarrow> wake e ps (case v of SThread t \<Rightarrow> resume_suspended t s | _ \<Rightarrow> s)
           | UVariable x \<Rightarrow> wake e (map (Pair (\<not> onTopLevel e)) (pendings (objects s x)) @ ps) (signal e n x s)
           | UReadOnly u \<Rightarrow>
               Option.bind (uderef (cells s) u) (\<lambda>m.
                 if needsProtection (cells s m) then Option.bind (addToSuspendList e m n s) (wake e ps)
                 else Option.bind (become n m s) (wake e ps))
           | _ \<Rightarrow> wake e ps s))"

declare wake.simps [code]

partial_function (option) markNeeded :: "environment \<Rightarrow> unode \<Rightarrow> ustate \<Rightarrow> ustate option" where
  "markNeeded e n s =
     (let mark = (\<lambda>x. if needed (objects s x) then Some s
                      else wake e (map (Pair False) (pendings (objects s x)))
                        (s\<lparr>objects := (objects s)(x := (objects s x)\<lparr>needed := True, pendings := []\<rparr>)\<rparr>))
      in case cells s n of
           UVariable x \<Rightarrow> mark x
         | UReadOnlyVariable x \<Rightarrow> mark x
         | UOptVar _ \<Rightarrow> Some (become_variable e n True [] s)
         | UReadOnly u \<Rightarrow> Option.bind (uderef (cells s) u) (\<lambda>m. markNeeded e m s)
         | _ \<Rightarrow> Some s)"

declare markNeeded.simps [code]

text \<open>\<open>if (_needed) { DataflowVariable(src).markNeeded(vm); src.update(); } self.become(vm, src);\<close> and the
  pendings that are woken then.\<close>

definition become_source :: "environment \<Rightarrow> unode \<Rightarrow> obj_id \<Rightarrow> unode \<Rightarrow> ustate \<Rightarrow> ustate option" where
  "become_source e n x src s =
     Option.bind
       (if needed (objects s x)
        then Option.bind (markNeeded e src s) (\<lambda>s. Option.bind (uderef (cells s) src) (\<lambda>src. become n src s))
        else become n src s)
       (\<lambda>s. wake e (map (Pair (\<not> onTopLevel e)) (pendings (objects s x))) (set_pendings x [] s))"

definition bindSubSpace :: "environment \<Rightarrow> unode \<Rightarrow> obj_id \<Rightarrow> unode \<Rightarrow> ustate \<Rightarrow> ustate option" where
  "bindSubSpace e n x src s =
     become_source e n x src (if home (objects s x) \<noteq> currentSpace e then makeBackup n s else s)"

definition doBind :: "environment \<Rightarrow> unode \<Rightarrow> obj_id \<Rightarrow> unode \<Rightarrow> ustate \<Rightarrow> ustate option" where
  "doBind e n x src s = (if onTopLevel e then become_source e n x src s else bindSubSpace e n x src s)"

definition makeBackupForSpeculativeBindingIfNeeded :: "environment \<Rightarrow> unode \<Rightarrow> space_id \<Rightarrow> ustate \<Rightarrow> ustate" where
  "makeBackupForSpeculativeBindingIfNeeded e n h s = (if \<not> onTopLevel e \<and> h \<noteq> currentSpace e then makeBackup n s else s)"

text \<open>\<open>waitFor\<close> and the exception that a failed value holds.\<close>

datatype exn = WaitBefore unode | RaiseUnderlying unode

type_synonym 'a outcome = "((exn + 'a) \<times> ustate) option"

definition bind_variable :: "environment \<Rightarrow> unode \<Rightarrow> unode \<Rightarrow> ustate \<Rightarrow> unit outcome" where
  "bind_variable e n src s =
     (case cells s n of
        UVariable x \<Rightarrow> map_option (Pair (Inr ())) (doBind e n x src s)
      | UReadOnlyVariable _ \<Rightarrow> Some (Inl (WaitBefore n), s)
      | UOptVar h \<Rightarrow> map_option (Pair (Inr ())) (become n src (makeBackupForSpeculativeBindingIfNeeded e n h s))
      | UReadOnly u \<Rightarrow> Option.bind (uderef (cells s) u) (\<lambda>m. Some (Inl (WaitBefore m), s))
      | UFailedValue u \<Rightarrow> Some (Inl (RaiseUnderlying u), s)
      | _ \<Rightarrow> None)"

section \<open>Equality of values\<close>

definition float_is_nan :: "u64 \<Rightarrow> bool" where
  "float_is_nan d \<longleftrightarrow> d AND 0x7FF0000000000000 = 0x7FF0000000000000 \<and> d AND 0x000FFFFFFFFFFFFF \<noteq> 0"

text \<open>\<open>==\<close> of \<open>double\<close>: the two zeros are equal, not-a-number is not equal to itself.\<close>

definition float_equals :: "u64 \<Rightarrow> u64 \<Rightarrow> bool" where
  "float_equals a b \<longleftrightarrow>
     \<not> float_is_nan a \<and> \<not> float_is_nan b \<and>
     (a = b \<or> a AND 0x7FFFFFFFFFFFFFFF = 0 \<and> b AND 0x7FFFFFFFFFFFFFFF = 0)"

definition value_equals :: "simple \<Rightarrow> simple \<Rightarrow> bool" where
  "value_equals v w = (case v of SFloat a \<Rightarrow> (case w of SFloat b \<Rightarrow> float_equals a b | _ \<Rightarrow> False) | _ \<Rightarrow> v = w)"

datatype cell_type =
    TySmallInt | TyBigInt | TyFloat | TyBoolean | TyUnit | TyAtom | TyUniqueName | TyString | TyByteString | TyBuiltin
  | TyThread | TyCapture | TyVMPort | TyOptName | TyGlobalName | TyNamedName | TyOther "u8 list"
  | TyCons | TyTuple | TyArity | TyRecord | TyConjunction | TyOpenRecord
  | TyReference | TyVariable | TyReadOnlyVariable | TyOptVar | TyReadOnly | TyFailedValue

fun simple_type :: "simple \<Rightarrow> cell_type" where
  "simple_type (SSmallInt _) = TySmallInt"
| "simple_type (SBigInt _) = TyBigInt"
| "simple_type (SFloat _) = TyFloat"
| "simple_type (SBoolean _) = TyBoolean"
| "simple_type SUnit = TyUnit"
| "simple_type (SAtom _) = TyAtom"
| "simple_type (SUniqueName _) = TyUniqueName"
| "simple_type (SString _) = TyString"
| "simple_type (SByteString _) = TyByteString"
| "simple_type (SBuiltin _) = TyBuiltin"
| "simple_type (SThread _) = TyThread"
| "simple_type (SCapture _) = TyCapture"
| "simple_type (SVMPort _) = TyVMPort"

fun token_type :: "token \<Rightarrow> cell_type" where
  "token_type TkOptName = TyOptName"
| "token_type (TkGlobalName _) = TyGlobalName"
| "token_type (TkNamedName _) = TyNamedName"
| "token_type (TkOther a) = TyOther a"

fun type_of_cell :: "ucell \<Rightarrow> cell_type" where
  "type_of_cell (URef _) = TyReference"
| "type_of_cell (USimple v) = simple_type v"
| "type_of_cell (UToken t) = token_type t"
| "type_of_cell (UCons _ _) = TyCons"
| "type_of_cell (UTuple _ _) = TyTuple"
| "type_of_cell (UArity _ _) = TyArity"
| "type_of_cell (URecord _ _) = TyRecord"
| "type_of_cell (UConjunction _) = TyConjunction"
| "type_of_cell (UOpenRecord _ _) = TyOpenRecord"
| "type_of_cell (UVariable _) = TyVariable"
| "type_of_cell (UReadOnlyVariable _) = TyReadOnlyVariable"
| "type_of_cell (UOptVar _) = TyOptVar"
| "type_of_cell (UReadOnly _) = TyReadOnly"
| "type_of_cell (UFailedValue _) = TyFailedValue"

section \<open>The stack of the walk\<close>

text \<open>An entry is two parts of arrays of the same length.\<close>

definition push :: "unode \<Rightarrow> unode \<Rightarrow> (unode list \<times> unode list) list \<Rightarrow> (unode list \<times> unode list) list" where
  "push left right stack = ([left], [right]) # stack"

definition pushArray :: "unode list \<Rightarrow> unode list \<Rightarrow> (unode list \<times> unode list) list \<Rightarrow> (unode list \<times> unode list) list" where
  "pushArray left right stack = (left, right) # stack"

text \<open>\<open>front\<close> and \<open>remove_front\<close>. An entry of no elements has no front.\<close>

fun pop_pair :: "(unode list \<times> unode list) list \<Rightarrow> ((unode \<times> unode) \<times> (unode list \<times> unode list) list) option" where
  "pop_pair ((a # as, b # bs) # stack) = Some ((a, b), if as = [] then stack else (as, bs) # stack)"
| "pop_pair _ = None"

text \<open>\<open>StructuralEquatable::equals\<close> of each type: the stack, when the widths are the same. The type of
  conjunctions is not in the list of the implementations, so that one stops at an assertion.\<close>

definition structural_equals ::
  "ucell \<Rightarrow> ucell \<Rightarrow> (unode list \<times> unode list) list \<Rightarrow> (unode list \<times> unode list) list option option" where
  "structural_equals left right stack =
     (let arrays = (\<lambda>l es l' es'. Some (if length es \<noteq> length es' then None else Some (push l l' (pushArray es es' stack))))
      in case left of
           UCons h t \<Rightarrow> (case right of UCons h' t' \<Rightarrow> Some (Some (push h h' (push t t' stack))) | _ \<Rightarrow> None)
         | UTuple l es \<Rightarrow> (case right of UTuple l' es' \<Rightarrow> arrays l es l' es' | _ \<Rightarrow> None)
         | UArity l es \<Rightarrow> (case right of UArity l' es' \<Rightarrow> arrays l es l' es' | _ \<Rightarrow> None)
         | URecord l es \<Rightarrow> (case right of URecord l' es' \<Rightarrow> arrays l es l' es' | _ \<Rightarrow> None)
         | _ \<Rightarrow> None)"

section \<open>Records\<close>

fun cell_feature :: "ucell \<Rightarrow> feature option" where
  "cell_feature (USimple (SSmallInt i)) = Some (FSmallInt i)"
| "cell_feature (USimple (SBigInt i)) = Some (FBigInt i)"
| "cell_feature (USimple (SAtom a)) = Some (FAtom a)"
| "cell_feature (USimple (SBoolean b)) = Some (FBoolean b)"
| "cell_feature (USimple SUnit) = Some FUnit"
| "cell_feature (USimple (SUniqueName a)) = Some (FUniqueName a)"
| "cell_feature (UToken (TkGlobalName u)) = Some (FGlobalName u)"
| "cell_feature (UToken (TkNamedName u)) = Some (FNamedName u)"
| "cell_feature _ = None"

definition node_feature :: "(unode \<Rightarrow> ucell) \<Rightarrow> unode \<Rightarrow> feature option" where
  "node_feature st n = Option.bind (uderef st n) (\<lambda>m. cell_feature (st m))"

text \<open>The dichotomic search of \<open>Arity::lookupFeature\<close>.\<close>

function arity_search :: "feature list \<Rightarrow> feature \<Rightarrow> nat \<Rightarrow> nat \<Rightarrow> nat option" where
  "arity_search fs f lo hi =
     (if lo < hi then
        let mid = (lo + hi) div 2; comparison = compareFeatures f (fs ! mid)
        in if comparison = 0 then Some mid
           else if comparison < 0 then arity_search fs f lo mid
           else arity_search fs f (mid + 1) hi
      else None)"
  by pat_completeness auto
termination by (relation "measure (\<lambda>(fs, f, lo, hi). hi - lo)") auto

declare arity_search.simps [simp del]

definition arity_lookupFeature :: "feature list \<Rightarrow> feature \<Rightarrow> nat option" where
  "arity_lookupFeature fs f = arity_search fs f 0 (length fs)"

text \<open>\<open>lookupFeature\<close> of the integer tuples, and of a list pair as a tuple of two elements.\<close>

definition tuple_lookupFeature :: "unode list \<Rightarrow> feature \<Rightarrow> unode option" where
  "tuple_lookupFeature es f =
     (case f of FSmallInt i \<Rightarrow> if 0 < sint i \<and> nat (sint i) \<le> length es then Some (es ! (nat (sint i) - 1)) else None
      | _ \<Rightarrow> None)"

definition record_lookupFeature :: "(unode \<Rightarrow> ucell) \<Rightarrow> unode \<Rightarrow> unode list \<Rightarrow> feature \<Rightarrow> unode option option" where
  "record_lookupFeature st arity es f =
     Option.bind (uderef st arity) (\<lambda>a.
       case st a of
         UArity _ fs \<Rightarrow> map_option (\<lambda>fs. map_option (nth es) (arity_lookupFeature fs f)) (those (map (node_feature st) fs))
       | _ \<Rightarrow> None)"

fun isRecord :: "ucell \<Rightarrow> bool" where
  "isRecord (UTuple _ _) = True"
| "isRecord (URecord _ _) = True"
| "isRecord (UCons _ _) = True"
| "isRecord (USimple (SAtom _)) = True"
| "isRecord (USimple (SBoolean _)) = True"
| "isRecord (USimple SUnit) = True"
| "isRecord (UToken TkOptName) = True"
| "isRecord (UToken (TkGlobalName _)) = True"
| "isRecord _ = False"

definition lookupFeature :: "(unode \<Rightarrow> ucell) \<Rightarrow> unode \<Rightarrow> feature \<Rightarrow> unode option option" where
  "lookupFeature st n f =
     (case st n of
        UTuple _ es \<Rightarrow> Some (tuple_lookupFeature es f)
      | UCons h t \<Rightarrow> Some (tuple_lookupFeature [h, t] f)
      | URecord arity es \<Rightarrow> record_lookupFeature st arity es f
      | _ \<Rightarrow> Some None)"

text \<open>\<open>equals(vm, *arity.getLabel(), label)\<close>. Labels are literals; the one of a list pair is an atom that
  has no node.\<close>

definition literal_equals :: "(unode \<Rightarrow> ucell) \<Rightarrow> unode \<Rightarrow> unode \<Rightarrow> bool" where
  "literal_equals st a b \<longleftrightarrow>
     a = b \<or> (case (st a, st b) of (USimple v, USimple w) \<Rightarrow> simple_type v = simple_type w \<and> value_equals v w | _ \<Rightarrow> False)"

definition label_equals :: "(unode \<Rightarrow> ucell) \<Rightarrow> unode \<Rightarrow> unode \<Rightarrow> bool option" where
  "label_equals st l n =
     Option.bind (uderef st l) (\<lambda>l.
       case st n of
         UTuple l' _ \<Rightarrow> map_option (literal_equals st l) (uderef st l')
       | URecord arity _ \<Rightarrow> Option.bind (uderef st arity) (\<lambda>a.
           case st a of UArity l' _ \<Rightarrow> map_option (literal_equals st l) (uderef st l') | _ \<Rightarrow> None)
       | UCons _ _ \<Rightarrow> Some (st l = USimple (SAtom (ascii ''|'')))
       | _ \<Rightarrow> Some (literal_equals st l n))"

section \<open>The walk\<close>

datatype walk_kind = WkUnify | WkEquals | WkPatternMatch

definition doCapture :: "unode \<Rightarrow> nativeint \<Rightarrow> ustate \<Rightarrow> ustate" where
  "doCapture n index s = (if 0 \<le> sint index then s\<lparr>captures := (captures s)(nat (sint index) \<mapsto> n)\<rparr> else s)"

definition doConjunction :: "unode \<Rightarrow> unode list \<Rightarrow> ustate \<Rightarrow> ustate" where
  "doConjunction n es s = s\<lparr>walkStack := foldr (push n) es (walkStack s)\<rparr>"

fun open_features ::
  "(unode \<Rightarrow> ucell) \<Rightarrow> unode \<Rightarrow> (unode \<times> unode) list \<Rightarrow> (unode list \<times> unode list) list \<Rightarrow>
   (bool \<times> (unode list \<times> unode list) list) option" where
  "open_features st n [] stack = Some (True, stack)"
| "open_features st n ((feature, element) # rest) stack =
     Option.bind (node_feature st feature) (\<lambda>f.
     Option.bind (lookupFeature st n f) (\<lambda>found.
       case found of
         None \<Rightarrow> Some (False, stack)
       | Some v \<Rightarrow> open_features st n rest (push v element stack)))"

definition doOpenRecord :: "unode \<Rightarrow> unode \<Rightarrow> unode list \<Rightarrow> ustate \<Rightarrow> bool outcome" where
  "doOpenRecord n arity es s =
     (let st = cells s
      in if isTransient (st n) then Some (Inl (WaitBefore n), s)
         else if \<not> isRecord (st n) then Some (Inr False, s)
         else Option.bind (uderef st arity) (\<lambda>a.
           case st a of
             UArity l fs \<Rightarrow>
               Option.bind (label_equals st l n) (\<lambda>same.
                 if \<not> same then Some (Inr False, s)
                 else map_option (\<lambda>(ok, stack). (Inr ok, s\<lparr>walkStack := stack\<rparr>)) (open_features st n (zip fs es) (walkStack s)))
           | _ \<Rightarrow> None))"

definition rebind :: "unode \<Rightarrow> unode \<Rightarrow> ustate \<Rightarrow> ustate" where
  "rebind left right s = reinit_node left right (s\<lparr>rebindTrail := rebindTrail s @ [(left, cells s left)]\<rparr>)"

definition processPair :: "walk_kind \<Rightarrow> environment \<Rightarrow> unode \<Rightarrow> unode \<Rightarrow> ustate \<Rightarrow> bool outcome" where
  "processPair kind e left right s =
     (let leftCell = cells s left; rightCell = cells s right;
          leftBehavior = structuralBehavior leftCell; rightBehavior = structuralBehavior rightCell;
          bound = (\<lambda>n src. map_option (\<lambda>(r, s). (map_sum id (\<lambda>_. True) r, s)) (bind_variable e n src s));
          determined =
            (if type_of_cell leftCell \<noteq> type_of_cell rightCell then Some (Inr False, s)
             else case leftBehavior of
                SbValue \<Rightarrow>
                  (case (leftCell, rightCell) of (USimple v, USimple w) \<Rightarrow> Some (Inr (value_equals v w), s) | _ \<Rightarrow> None)
              | SbStructural \<Rightarrow>
                  Option.bind (structural_equals leftCell rightCell (walkStack s)) (\<lambda>r.
                    case r of
                      None \<Rightarrow> Some (Inr False, s)
                    | Some stack \<Rightarrow>
                        (let s = s\<lparr>walkStack := stack\<rparr>
                         in Some (Inr True, if kind \<noteq> WkPatternMatch then rebind left right s else s)))
              | SbTokenEq \<Rightarrow> Some (Inr False, s)
              | SbVariable \<Rightarrow> None);
          variables =
            (case kind of
               WkUnify \<Rightarrow>
                 if leftBehavior = SbVariable then
                   if rightBehavior = SbVariable then
                     if bindingPriority leftCell > bindingPriority rightCell then bound left right else bound right left
                   else bound left right
                 else if rightBehavior = SbVariable then bound right left
                 else determined
             | _ \<Rightarrow>
                 if leftBehavior = SbVariable then Some (Inl (WaitBefore left), s)
                 else if rightBehavior = SbVariable then Some (Inl (WaitBefore right), s)
                 else determined)
      in if left = right then Some (Inr True, s)
         else if kind = WkPatternMatch then
           case rightCell of
             USimple (SCapture index) \<Rightarrow> Some (Inr True, doCapture left index s)
           | UConjunction es \<Rightarrow> Some (Inr True, doConjunction left es s)
           | UOpenRecord arity es \<Rightarrow> doOpenRecord left arity es s
           | _ \<Rightarrow> variables
         else variables)"

fun restore_cells :: "(unode \<times> ucell) list \<Rightarrow> (unode \<Rightarrow> ucell) \<Rightarrow> (unode \<Rightarrow> ucell)" where
  "restore_cells [] st = st"
| "restore_cells ((n, saved) # backups) st = restore_cells backups (st(n := saved))"

definition undoBindings :: "ustate \<Rightarrow> ustate" where
  "undoBindings s = s\<lparr>cells := restore_cells (rebindTrail s) (cells s), rebindTrail := []\<rparr>"

definition cleanupOnFailure :: "ustate \<Rightarrow> ustate" where
  "cleanupOnFailure s = undoBindings (s\<lparr>walkStack := [], suspendTrail := []\<rparr>)"

text \<open>The end of the walk, or the next pair.\<close>

type_synonym turn = "((exn + bool) \<times> ustate) + (unode \<times> unode \<times> ustate)"

definition next_pair :: "ustate \<Rightarrow> turn option" where
  "next_pair s =
     (if walkStack s = [] then Some (Inl (Inr True, s))
      else map_option (\<lambda>((left, right), stack). Inr (left, right, s\<lparr>walkStack := stack\<rparr>)) (pop_pair (walkStack s)))"

text \<open>A wait for anything but a failed value is kept for later.\<close>

definition after_pair :: "unode \<Rightarrow> unode \<Rightarrow> exn + bool \<Rightarrow> ustate \<Rightarrow> turn option" where
  "after_pair left right r s =
     (case r of
        Inr True \<Rightarrow> next_pair s
      | Inr False \<Rightarrow> Some (Inl (Inr False, cleanupOnFailure s))
      | Inl (WaitBefore n) \<Rightarrow>
          (case cells s n of
             UFailedValue _ \<Rightarrow> Some (Inl (Inl (WaitBefore n), cleanupOnFailure s))
           | _ \<Rightarrow> next_pair (s\<lparr>suspendTrail := suspendTrail s @ [(left, right)]\<rparr>))
      | Inl (RaiseUnderlying n) \<Rightarrow> Some (Inl (Inl (RaiseUnderlying n), cleanupOnFailure s)))"

definition walk_turn :: "walk_kind \<Rightarrow> environment \<Rightarrow> unode \<Rightarrow> unode \<Rightarrow> ustate \<Rightarrow> turn option" where
  "walk_turn kind e left right s =
     Option.bind (uderef (cells s) left) (\<lambda>left.
     Option.bind (uderef (cells s) right) (\<lambda>right.
     Option.bind (processPair kind e left right s) (\<lambda>(r, s). after_pair left right r s)))"

partial_function (option) run_pairs :: "walk_kind \<Rightarrow> environment \<Rightarrow> unode \<Rightarrow> unode \<Rightarrow> ustate \<Rightarrow> bool outcome" where
  "run_pairs kind e left right s =
     (case walk_turn kind e left right s of
        None \<Rightarrow> None
      | Some (Inl result) \<Rightarrow> Some result
      | Some (Inr (left, right, s)) \<Rightarrow> run_pairs kind e left right s)"

declare run_pairs.simps [code]

text \<open>\<open>markNeeded\<close> and \<open>addToSuspendList\<close>, if the node is transient.\<close>

definition suspend_on :: "environment \<Rightarrow> unode \<Rightarrow> unode \<Rightarrow> ustate \<Rightarrow> ustate option" where
  "suspend_on e control n s =
     (if isTransient (cells s n)
      then Option.bind (markNeeded e n s) (\<lambda>s. Option.bind (uderef (cells s) n) (\<lambda>n. addToSuspendList e n control s))
      else Some s)"

fun suspend_pairs :: "environment \<Rightarrow> unode \<Rightarrow> (unode \<times> unode) list \<Rightarrow> ustate \<Rightarrow> ustate option" where
  "suspend_pairs e control [] s = Some s"
| "suspend_pairs e control ((left, right) # pairs) s =
     Option.bind (uderef (cells s) left) (\<lambda>l.
     Option.bind (suspend_on e control l s) (\<lambda>s.
     Option.bind (uderef (cells s) right) (\<lambda>r.
     Option.bind (suspend_on e control r s) (suspend_pairs e control pairs))))"

text \<open>A single pair is read before any of its nodes is marked.\<close>

definition suspend_all :: "environment \<Rightarrow> unode \<Rightarrow> (unode \<times> unode) list \<Rightarrow> ustate \<Rightarrow> ustate option" where
  "suspend_all e control pairs s =
     (case pairs of
        [(left, right)] \<Rightarrow>
          Option.bind (uderef (cells s) left) (\<lambda>l.
          Option.bind (uderef (cells s) right) (\<lambda>r.
          Option.bind (suspend_on e control l s) (suspend_on e control r)))
      | _ \<Rightarrow> suspend_pairs e control pairs s)"

definition run :: "walk_kind \<Rightarrow> environment \<Rightarrow> unode \<Rightarrow> unode \<Rightarrow> ustate \<Rightarrow> bool outcome" where
  "run kind e left right s =
     Option.bind (run_pairs kind e left right (s\<lparr>walkStack := [], rebindTrail := [], suspendTrail := []\<rparr>)) (\<lambda>(r, s).
       case r of
         Inr True \<Rightarrow>
           (if suspendTrail s \<noteq> [] then
              (let pairs = suspendTrail s; s = become_variable e (controlNode e) False [] (undoBindings s)
               in map_option (\<lambda>s. (Inl (WaitBefore (controlNode e)), s\<lparr>suspendTrail := []\<rparr>))
                    (suspend_all e (controlNode e) pairs s))
            else Some (Inr True, if \<not> onTopLevel e then undoBindings s else s))
       | _ \<Rightarrow> Some (r, s))"

section \<open>Entry points\<close>

datatype unify_outcome = Unified | UnifyFailed | UnifyRaised exn

definition fullUnify :: "environment \<Rightarrow> unode \<Rightarrow> unode \<Rightarrow> ustate \<Rightarrow> (unify_outcome \<times> ustate) option" where
  "fullUnify e left right s =
     map_option (\<lambda>(r, s). (case r of Inr True \<Rightarrow> Unified | Inr False \<Rightarrow> UnifyFailed | Inl x \<Rightarrow> UnifyRaised x, s))
       (run WkUnify e left right s)"

definition fullEquals :: "environment \<Rightarrow> unode \<Rightarrow> unode \<Rightarrow> ustate \<Rightarrow> bool outcome" where
  "fullEquals e left right s = run WkEquals e left right s"

definition fullPatternMatch :: "environment \<Rightarrow> unode \<Rightarrow> unode \<Rightarrow> ustate \<Rightarrow> bool outcome" where
  "fullPatternMatch e left right s = run WkPatternMatch e left right s"

text \<open>\<open>unify\<close> and \<open>equals\<close>, with their operands dereferenced.\<close>

definition unify :: "environment \<Rightarrow> unode \<Rightarrow> unode \<Rightarrow> ustate \<Rightarrow> (unify_outcome \<times> ustate) option" where
  "unify e left right s =
     (let leftCell = cells s left; rightCell = cells s right;
          bound = (\<lambda>n src. map_option (\<lambda>(r, s). (case r of Inr _ \<Rightarrow> Unified | Inl x \<Rightarrow> UnifyRaised x, s)) (bind_variable e n src s))
      in if left = right then Some (Unified, s)
         else if structuralBehavior leftCell = SbVariable then
           if structuralBehavior rightCell = SbVariable then
             if bindingPriority leftCell > bindingPriority rightCell then bound left right else bound right left
           else bound left right
         else if structuralBehavior rightCell = SbVariable then bound right left
         else fullUnify e left right s)"

definition equals :: "environment \<Rightarrow> unode \<Rightarrow> unode \<Rightarrow> ustate \<Rightarrow> bool outcome" where
  "equals e left right s =
     (let leftCell = cells s left; rightCell = cells s right
      in if left = right then Some (Inr True, s)
         else if structuralBehavior leftCell \<noteq> SbVariable \<and> structuralBehavior rightCell \<noteq> SbVariable then
           if type_of_cell leftCell \<noteq> type_of_cell rightCell then Some (Inr False, s)
           else case structuralBehavior leftCell of
               SbValue \<Rightarrow> (case (leftCell, rightCell) of (USimple v, USimple w) \<Rightarrow> Some (Inr (value_equals v w), s) | _ \<Rightarrow> None)
             | SbTokenEq \<Rightarrow> Some (Inr False, s)
             | _ \<Rightarrow> fullEquals e left right s
         else fullEquals e left right s)"

section \<open>Quick pattern matching\<close>

datatype match_result = MatchFailed | MatchSucceed | MatchUnknown

text \<open>The captures of the elements of a tuple, when its patterns are captures only.\<close>

fun capture_elements :: "(unode \<Rightarrow> ucell) \<Rightarrow> unode list \<Rightarrow> unode list \<Rightarrow> ustate \<Rightarrow> (match_result \<times> ustate) option" where
  "capture_elements st (v # vs) (p # ps) s =
     Option.bind (uderef st v) (\<lambda>v. Option.bind (uderef st p) (\<lambda>p.
       case st p of
         USimple (SCapture index) \<Rightarrow> capture_elements st vs ps (doCapture v index s)
       | _ \<Rightarrow> None))"
| "capture_elements st _ _ s = Some (MatchSucceed, s)"

fun all_captures :: "(unode \<Rightarrow> ucell) \<Rightarrow> unode list \<Rightarrow> bool option" where
  "all_captures st [] = Some True"
| "all_captures st (p # ps) =
     Option.bind (uderef st p) (\<lambda>p. case st p of USimple (SCapture _) \<Rightarrow> all_captures st ps | _ \<Rightarrow> Some False)"

text \<open>\<open>testTuple\<close>: the labels, which are literals, and the widths.\<close>

definition testTuple :: "(unode \<Rightarrow> ucell) \<Rightarrow> unode \<Rightarrow> nat \<Rightarrow> unode \<Rightarrow> nat \<Rightarrow> bool option" where
  "testTuple st l w label width =
     (if w \<noteq> width then Some False
      else Option.bind (uderef st label) (\<lambda>label. map_option (\<lambda>l. literal_equals st l label) (uderef st l)))"

text \<open>\<open>quickPatternMatch\<close> recurses into the head of a list pair, never into another head.\<close>

definition quick_tuples :: "unode \<Rightarrow> unode list \<Rightarrow> unode \<Rightarrow> unode list \<Rightarrow> ustate \<Rightarrow> (match_result \<times> ustate) option" where
  "quick_tuples label vs label' ps s =
     Option.bind (testTuple (cells s) label' (length ps) label (length vs)) (\<lambda>same.
       if \<not> same then Some (MatchFailed, s)
       else Option.bind (all_captures (cells s) ps) (\<lambda>simple.
         if simple then capture_elements (cells s) vs ps s else Some (MatchUnknown, s)))"

definition quick_same_type :: "ucell \<Rightarrow> ucell \<Rightarrow> ustate \<Rightarrow> (match_result \<times> ustate) option" where
  "quick_same_type valueCell patternCell s =
     (case valueCell of
        USimple v \<Rightarrow> (case patternCell of USimple w \<Rightarrow> Some (if value_equals v w then MatchSucceed else MatchFailed, s) | _ \<Rightarrow> None)
      | UToken _ \<Rightarrow> Some (MatchFailed, s)
      | UTuple label vs \<Rightarrow> (case patternCell of UTuple label' ps \<Rightarrow> quick_tuples label vs label' ps s | _ \<Rightarrow> None)
      | URef _ \<Rightarrow> None
      | _ \<Rightarrow> Some (MatchUnknown, s))"

definition quick_flat :: "unode \<Rightarrow> unode \<Rightarrow> ustate \<Rightarrow> (match_result \<times> ustate) option" where
  "quick_flat value pattern s =
     (let valueCell = cells s value; patternCell = cells s pattern;
          typed = (if type_of_cell valueCell \<noteq> type_of_cell patternCell then Some (MatchFailed, s)
                   else quick_same_type valueCell patternCell s);
          determined =
            (if structuralBehavior valueCell = SbVariable \<or> structuralBehavior patternCell = SbVariable then Some (MatchUnknown, s)
             else case patternCell of
                 UConjunction _ \<Rightarrow> Some (MatchUnknown, s)
               | UOpenRecord _ _ \<Rightarrow> Some (MatchUnknown, s)
               | _ \<Rightarrow> typed)
      in if value = pattern then Some (MatchSucceed, s)
         else case patternCell of
             USimple v \<Rightarrow> (case v of SCapture index \<Rightarrow> Some (MatchSucceed, doCapture value index s) | _ \<Rightarrow> determined)
           | _ \<Rightarrow> determined)"

text \<open>A list pair: the tail is a capture, and the head a value, a capture or a tuple.\<close>

definition quick_head :: "unode \<Rightarrow> unode \<Rightarrow> unode \<Rightarrow> nativeint \<Rightarrow> ustate \<Rightarrow> (match_result \<times> ustate) option" where
  "quick_head vh vt ph index s =
     Option.bind (uderef (cells s) ph) (\<lambda>ph.
       if type_of_cell (cells s ph) \<noteq> TyTuple \<and> structuralBehavior (cells s ph) \<noteq> SbValue then Some (MatchUnknown, s)
       else Option.bind (uderef (cells s) vh) (\<lambda>vh.
         Option.bind (quick_flat vh ph s) (\<lambda>(res, s').
           if res = MatchSucceed then map_option (\<lambda>vt. (res, doCapture vt index s')) (uderef (cells s) vt)
           else Some (res, s'))))"

definition quick_cons :: "unode \<Rightarrow> unode \<Rightarrow> unode \<Rightarrow> unode \<Rightarrow> ustate \<Rightarrow> (match_result \<times> ustate) option" where
  "quick_cons vh vt ph pt s =
     Option.bind (uderef (cells s) pt) (\<lambda>pt.
       case cells s pt of
         USimple v \<Rightarrow> (case v of SCapture index \<Rightarrow> quick_head vh vt ph index s | _ \<Rightarrow> Some (MatchUnknown, s))
       | _ \<Rightarrow> Some (MatchUnknown, s))"

definition quickPatternMatch :: "unode \<Rightarrow> unode \<Rightarrow> ustate \<Rightarrow> (match_result \<times> ustate) option" where
  "quickPatternMatch value pattern s =
     (case cells s value of
        UCons vh vt \<Rightarrow>
          (case cells s pattern of
             UCons ph pt \<Rightarrow> if value = pattern then Some (MatchSucceed, s) else quick_cons vh vt ph pt s
           | _ \<Rightarrow> quick_flat value pattern s)
      | _ \<Rightarrow> quick_flat value pattern s)"

definition patternMatch :: "environment \<Rightarrow> unode \<Rightarrow> unode \<Rightarrow> ustate \<Rightarrow> bool outcome" where
  "patternMatch e value pattern s =
     Option.bind (quickPatternMatch value pattern s) (\<lambda>(res, s).
       case res of
         MatchFailed \<Rightarrow> Some (Inr False, s)
       | MatchSucceed \<Rightarrow> Some (Inr True, s)
       | MatchUnknown \<Rightarrow> fullPatternMatch e value pattern s)"

end
