(* ===== verification/UnifyCorrect.thy ===== *)
theory UnifyCorrect
  imports Unify
begin

text \<open>
  What unification and equality compute (\<open>vm/vm/main/unify.cc\<close>). A store is a system of equations
  between its nodes over finite and infinite trees; a valuation that satisfies them is a solution. The
  theorems compare the solutions before and after.
\<close>

section \<open>Trees\<close>

datatype tree_label = LSimple simple | LToken unode | LCons | LTuple | LArity | LRecord | LConjunction

codatatype tree = Tree (tlabel: tree_label) (subtrees: "tree list")

definition float_class :: "u64 \<Rightarrow> u64" where
  "float_class d = (if d AND 0x7FFFFFFFFFFFFFFF = 0 then 0 else d)"

fun simple_class :: "simple \<Rightarrow> simple" where
  "simple_class (SFloat d) = SFloat (float_class d)"
| "simple_class v = v"

text \<open>The label and the subtrees of a determined node.\<close>

fun shape :: "unode \<Rightarrow> ucell \<Rightarrow> (tree_label \<times> unode list) option" where
  "shape n (USimple v) = Some (LSimple (simple_class v), [])"
| "shape n (UToken _) = Some (LToken n, [])"
| "shape n (UOpenRecord _ _) = Some (LToken n, [])"
| "shape n (UCons h t) = Some (LCons, [h, t])"
| "shape n (UTuple l es) = Some (LTuple, l # es)"
| "shape n (UArity l es) = Some (LArity, l # es)"
| "shape n (URecord a es) = Some (LRecord, a # es)"
| "shape n (UConjunction es) = Some (LConjunction, es)"
| "shape n _ = None"

text \<open>A solution of the store: a reference, and the read-only view of a variable, denote what they refer
  to, a determined node denotes the tree of its contents.\<close>

definition solves :: "(unode \<Rightarrow> tree) \<Rightarrow> (unode \<Rightarrow> ucell) \<Rightarrow> bool" where
  "solves \<sigma> st \<longleftrightarrow>
     (\<forall>n. (\<forall>m. st n = URef m \<longrightarrow> \<sigma> n = \<sigma> m) \<and> (\<forall>u. st n = UReadOnly u \<longrightarrow> \<sigma> n = \<sigma> u) \<and>
          (\<forall>l ns. shape n (st n) = Some (l, ns) \<longrightarrow> \<sigma> n = Tree l (map \<sigma> ns)))"

definition unit_tree :: tree where
  "unit_tree = Tree (LSimple SUnit) []"

definition all_unit :: "(unode \<Rightarrow> tree) \<Rightarrow> unode list \<Rightarrow> bool" where
  "all_unit \<sigma> ns \<longleftrightarrow> (\<forall>n \<in> set ns. \<sigma> n = unit_tree)"

lemma solvesD:
  "solves \<sigma> st \<Longrightarrow> st n = URef m \<Longrightarrow> \<sigma> n = \<sigma> m"
  "solves \<sigma> st \<Longrightarrow> st n = UReadOnly u \<Longrightarrow> \<sigma> n = \<sigma> u"
  "solves \<sigma> st \<Longrightarrow> shape n (st n) = Some (l, ns) \<Longrightarrow> \<sigma> n = Tree l (map \<sigma> ns)"
  by (auto simp: solves_def)

lemma shape_determined: "shape n c = Some x \<Longrightarrow> \<not> isTransient c \<and> (\<forall>m. c \<noteq> URef m)"
  by (cases c) (auto simp: isTransient_def)

lemma cell_kinds: "isTransient c \<or> (\<exists>m. c = URef m) \<or> (\<exists>l ns. shape n c = Some (l, ns))"
  by (cases c) (auto simp: isTransient_def)

lemma value_equals_class: "value_equals v w \<Longrightarrow> simple_class v = simple_class w"
  by (cases v; cases w) (auto simp: value_equals_def float_equals_def float_class_def)

lemma class_value_equals: "simple_class v = simple_class w \<Longrightarrow> value_equals v v \<Longrightarrow> value_equals w w \<Longrightarrow> value_equals v w"
  by (cases v; cases w) (auto simp: value_equals_def float_equals_def float_class_def split: if_splits)

lemma uderef_solves: "uderef st n = Some m \<Longrightarrow> solves \<sigma> st \<Longrightarrow> \<sigma> n = \<sigma> m"
proof -
  assume d: "uderef st n = Some m"
  have "solves \<sigma> st \<longrightarrow> \<sigma> n = \<sigma> m"
  proof (rule uderef.raw_induct[OF _ d, where P = "\<lambda>st n m. solves \<sigma> st \<longrightarrow> \<sigma> n = \<sigma> m"], rule impI)
    fix u st n m
    assume IH: "\<And>st n m. u st n = Some m \<Longrightarrow> solves \<sigma> st \<longrightarrow> \<sigma> n = \<sigma> m"
      and turn: "(case st n of URef k \<Rightarrow> u st k | _ \<Rightarrow> Some n) = Some m" and s: "solves \<sigma> st"
    show "\<sigma> n = \<sigma> m" using turn IH[of st _ m] s solvesD(1)[OF s, of n] by (cases "st n") auto
  qed
  then show "solves \<sigma> st \<Longrightarrow> \<sigma> n = \<sigma> m" by blast
qed

section \<open>Links\<close>

text \<open>The nodes that a store makes equal through references and copies of values.\<close>

definition tie :: "(unode \<Rightarrow> ucell) \<Rightarrow> unode \<Rightarrow> unode \<Rightarrow> bool" where
  "tie st a b \<longleftrightarrow> st a = URef b \<or> (\<exists>v w. st a = USimple v \<and> st b = USimple w \<and> simple_class v = simple_class w)"

definition stack_pairs :: "(unode list \<times> unode list) list \<Rightarrow> (unode \<times> unode) set" where
  "stack_pairs stack = (\<Union>(as, bs) \<in> set stack. set (zip as bs))"

text \<open>Those, and the pairs \<open>P\<close> that remain to be compared.\<close>

definition linked :: "(unode \<Rightarrow> ucell) \<Rightarrow> (unode \<times> unode) set \<Rightarrow> unode \<Rightarrow> unode \<Rightarrow> bool" where
  "linked st P = equivclp (\<lambda>a b. tie st a b \<or> (a, b) \<in> P)"

lemma linked_refl [simp, intro]: "linked st P a a"
  by (simp add: linked_def)

lemma linked_sym: "linked st P a b \<Longrightarrow> linked st P b a"
  unfolding linked_def by (rule equivclp_sym)

lemma linked_trans: "linked st P a b \<Longrightarrow> linked st P b c \<Longrightarrow> linked st P a c"
  unfolding linked_def by (rule equivclp_trans)

lemma linked_tie: "tie st a b \<Longrightarrow> linked st P a b"
  unfolding linked_def by blast

lemma linked_pair: "(a, b) \<in> P \<Longrightarrow> linked st P a b"
  unfolding linked_def by blast

lemma linked_mono:
  assumes "linked st P a b" "\<And>x y. tie st x y \<Longrightarrow> linked st' Q x y" "\<And>x y. (x, y) \<in> P \<Longrightarrow> linked st' Q x y"
  shows "linked st' Q a b"
  using assms(1) unfolding linked_def[of st P]
proof (induction rule: equivclp_induct)
  case (step y z)
  then have "linked st' Q y z \<or> linked st' Q z y" using assms(2,3) by blast
  then show ?case using step(3) linked_trans linked_sym by blast
qed simp

lemma linked_deref: "uderef st n = Some m \<Longrightarrow> linked st P n m"
proof -
  assume d: "uderef st n = Some m"
  show ?thesis
  proof (rule uderef.raw_induct[OF _ d, where P = "\<lambda>st n m. linked st P n m"])
    fix u st n m
    assume IH: "\<And>st n m. u st n = Some m \<Longrightarrow> linked st P n m"
      and turn: "(case st n of URef k \<Rightarrow> u st k | _ \<Rightarrow> Some n) = Some m"
    show "linked st P n m"
    proof (cases "st n")
      case (URef k)
      then have "linked st P n k" "u st k = Some m" using turn by (auto intro: linked_tie simp: tie_def)
      then show ?thesis using IH linked_trans by blast
    qed (use turn in auto)
  qed
qed

text \<open>Ties and links survive when only transient nodes change.\<close>

definition stable_cells :: "(unode \<Rightarrow> ucell) \<Rightarrow> (unode \<Rightarrow> ucell) \<Rightarrow> bool" where
  "stable_cells st st' \<longleftrightarrow> (\<forall>n. \<not> isTransient (st n) \<longrightarrow> st' n = st n)"

lemma stable_refl [simp]: "stable_cells st st"
  by (simp add: stable_cells_def)

lemma stable_trans: "stable_cells st st' \<Longrightarrow> stable_cells st' st'' \<Longrightarrow> stable_cells st st''"
  by (simp add: stable_cells_def)

lemma stable_tie: "stable_cells st st' \<Longrightarrow> tie st a b \<Longrightarrow> tie st' a b"
  unfolding stable_cells_def tie_def by (metis behaviour.distinct isTransient_def structuralBehavior.simps(1,2))

lemma stable_linked: "stable_cells st st' \<Longrightarrow> linked st P a b \<Longrightarrow> P \<subseteq> Q \<Longrightarrow> linked st' Q a b"
  by (erule linked_mono) (auto intro: linked_tie linked_pair stable_tie)

section \<open>Waking\<close>

text \<open>What waking does to a walk: it leaves the nodes that are determined and the walk itself, and it binds
  variables to unit only.\<close>

definition no_nan :: "(unode \<Rightarrow> ucell) \<Rightarrow> bool" where
  "no_nan st \<longleftrightarrow> (\<forall>n v. st n = USimple v \<longrightarrow> value_equals v v)"

lemma no_nan_upd: "no_nan st \<Longrightarrow> (\<And>v. c = USimple v \<Longrightarrow> value_equals v v) \<Longrightarrow> no_nan (st(n := c))"
  by (simp add: no_nan_def)

lemma unit_equals [simp]: "value_equals SUnit SUnit"
  by (simp add: value_equals_def)

definition gentle :: "ustate \<Rightarrow> ustate \<Rightarrow> bool" where
  "gentle s s' \<longleftrightarrow>
     stable_cells (cells s) (cells s') \<and>
     (\<forall>n u. cells s n = UReadOnly u \<longrightarrow> cells s' n = UReadOnly u \<or> linked (cells s') {} n u) \<and>
     (\<forall>n x. cells s n = UVariable x \<longrightarrow> cells s' n = UVariable x \<or> cells s' n = USimple SUnit) \<and>
     (no_nan (cells s) \<longrightarrow> no_nan (cells s')) \<and>
     walkStack s' = walkStack s \<and> rebindTrail s' = rebindTrail s \<and> suspendTrail s' = suspendTrail s \<and>
     (\<exists>ns. signalled s' = signalled s @ ns \<and> (\<forall>n \<in> set ns. cells s' n = USimple SUnit)) \<and>
     (\<forall>\<sigma>. solves \<sigma> (cells s) \<longrightarrow> all_unit \<sigma> (signalled s') \<longrightarrow> solves \<sigma> (cells s'))"

lemma gentle_refl [simp, intro]: "gentle s s"
  by (simp add: gentle_def)

lemma gentle_trans:
  assumes "gentle s s'" "gentle s' s''"
  shows "gentle s s''"
proof -
  have st: "stable_cells (cells s) (cells s')" "stable_cells (cells s') (cells s'')" using assms by (simp_all add: gentle_def)
  have "cells s'' n = UReadOnly u \<or> linked (cells s'') {} n u" if "cells s n = UReadOnly u" for n u
  proof -
    have "cells s' n = UReadOnly u \<or> linked (cells s') {} n u" using assms(1) that by (simp add: gentle_def)
    then show ?thesis using assms(2) stable_linked[OF st(2), of "{}" n u "{}"] by (auto simp: gentle_def)
  qed
  moreover have "cells s'' n = UVariable x \<or> cells s'' n = USimple SUnit" if "cells s n = UVariable x" for n x
  proof -
    have "cells s' n = UVariable x \<or> cells s' n = USimple SUnit" using assms(1) that by (simp add: gentle_def)
    then show ?thesis using assms(2) by (auto simp: gentle_def stable_cells_def isTransient_def)
  qed
  moreover obtain ns where ns: "signalled s' = signalled s @ ns" "\<forall>n \<in> set ns. cells s' n = USimple SUnit"
    using assms(1) unfolding gentle_def by blast
  moreover obtain ns' where ns': "signalled s'' = signalled s' @ ns'" "\<forall>n \<in> set ns'. cells s'' n = USimple SUnit"
    using assms(2) unfolding gentle_def by blast
  moreover have "\<forall>n \<in> set ns. cells s'' n = USimple SUnit"
    using ns(2) st(2) by (auto simp: stable_cells_def isTransient_def)
  moreover have "solves \<sigma> (cells s'')" if "solves \<sigma> (cells s)" "all_unit \<sigma> (signalled s'')" for \<sigma>
    using that assms ns'(1) by (auto simp: gentle_def all_unit_def)
  ultimately show ?thesis
    using stable_trans[OF st] assms unfolding gentle_def by (intro conjI exI[of _ "ns @ ns'"]) auto
qed

lemma gentle_frame:
  "cells s' = cells s \<Longrightarrow> walkStack s' = walkStack s \<Longrightarrow> rebindTrail s' = rebindTrail s \<Longrightarrow> suspendTrail s' = suspendTrail s \<Longrightarrow>
   signalled s' = signalled s \<Longrightarrow> gentle s s'"
  by (simp add: gentle_def)

lemma gentle_set_pendings [simp]: "gentle s (set_pendings x ps s)"
  by (rule gentle_frame) (simp_all add: set_pendings_def)

lemma gentle_resume [simp]: "gentle s (resume_suspended t s)"
  by (rule gentle_frame) (simp_all add: resume_suspended_def)

lemma gentle_backup [simp]: "gentle s (makeBackup n s)"
  by (rule gentle_frame) (simp_all add: makeBackup_def)

lemma solves_upd:
  assumes "solves \<sigma> st" "\<forall>m. c = URef m \<longrightarrow> \<sigma> n = \<sigma> m" "\<forall>u. c = UReadOnly u \<longrightarrow> \<sigma> n = \<sigma> u"
    "\<forall>l ns. shape n c = Some (l, ns) \<longrightarrow> \<sigma> n = Tree l (map \<sigma> ns)"
  shows "solves \<sigma> (st(n := c))"
  using assms by (auto simp: solves_def)

lemma gentle_become_variable: "cells s n = UOptVar h \<Longrightarrow> gentle s (become_variable e n b ps s)"
  by (auto simp: gentle_def become_variable_def stable_cells_def isTransient_def intro!: solves_upd no_nan_upd)

lemma gentle_signal:
  assumes "cells s n = UVariable x"
  shows "gentle s (signal e n x s)"
proof -
  define t where "t = (if \<not> onTopLevel e \<and> home (objects s x) \<noteq> currentSpace e then makeBackup n s else s)"
  have t: "gentle s t" by (simp add: t_def)
  have c: "cells t n = UVariable x" using assms by (simp add: t_def makeBackup_def)
  have "gentle t (t\<lparr>cells := (cells t)(n := USimple SUnit), signalled := signalled t @ [n]\<rparr>)"
    using c by (auto simp: gentle_def stable_cells_def isTransient_def all_unit_def unit_tree_def intro!: solves_upd no_nan_upd)
  then have "gentle t (signal e n x s)" unfolding signal_def Let_def t_def[symmetric] by (rule gentle_trans) simp
  then show ?thesis using t gentle_trans by blast
qed

lemma reinit_cells:
  "cells (reinit_node n m s) = (if n = m then cells s else (cells s)(n := if isCopyableCell (cells s m) then cells s m else URef m))"
  by (simp add: reinit_node_def)

text \<open>A transient node becomes what it is bound to.\<close>

lemma reinit_solves:
  assumes "solves \<sigma> (cells s)" "\<sigma> n = \<sigma> m" "\<forall>k. cells s m \<noteq> URef k"
  shows "solves \<sigma> (cells (reinit_node n m s))"
proof (cases "n = m")
  case False
  then show ?thesis
  proof (cases "isCopyableCell (cells s m)")
    case True
    then obtain v where v: "cells s m = USimple v" using assms(3) by (cases "cells s m") auto
    then have "\<sigma> m = Tree (LSimple (simple_class v)) []" using solvesD(3)[OF assms(1), of m] by simp
    then show ?thesis using False True assms v by (auto simp: reinit_cells intro!: solves_upd)
  next
    case copy: False
    show ?thesis using False copy assms by (auto simp: reinit_cells intro!: solves_upd)
  qed
qed (use assms in \<open>simp add: reinit_cells\<close>)

lemma reinit_linked: "\<forall>k. cells s m \<noteq> URef k \<Longrightarrow> linked (cells (reinit_node n m s)) P n m"
proof (cases "n = m")
  case False
  assume m: "\<forall>k. cells s m \<noteq> URef k"
  have "tie (cells (reinit_node n m s)) n m"
    using False m by (cases "cells s m") (auto simp: tie_def reinit_cells)
  then show ?thesis by (rule linked_tie)
qed simp

lemma reinit_stable: "isTransient (cells s n) \<Longrightarrow> stable_cells (cells s) (cells (reinit_node n m s))"
  by (auto simp: stable_cells_def reinit_cells)

lemma reinit_frame [simp]:
  "walkStack (reinit_node n m s) = walkStack s" "rebindTrail (reinit_node n m s) = rebindTrail s"
  "suspendTrail (reinit_node n m s) = suspendTrail s" "signalled (reinit_node n m s) = signalled s"
  by (simp_all add: reinit_node_def)

lemma reinit_no_nan: "no_nan (cells s) \<Longrightarrow> no_nan (cells (reinit_node n m s))"
  by (auto simp: reinit_cells no_nan_def split: if_splits)

lemma gentle_readonly:
  assumes "cells s n = UReadOnly u" "uderef (cells s) u = Some m"
  shows "gentle s (reinit_node n m s)"
proof -
  have m: "\<forall>k. cells s m \<noteq> URef k" using uderef_end[OF assms(2)] by blast
  have t: "isTransient (cells s n)" using assms(1) by (simp add: isTransient_def)
  have l: "linked (cells (reinit_node n m s)) {} n u"
    using reinit_linked[OF m] stable_linked[OF reinit_stable[OF t] linked_deref[OF assms(2), of "{}"]] linked_trans linked_sym by blast
  have "cells (reinit_node n m s) k = cells s k" if "k \<noteq> n" for k using that by (simp add: reinit_cells)
  moreover have "solves \<sigma> (cells (reinit_node n m s))" if "solves \<sigma> (cells s)" for \<sigma>
    using reinit_solves[OF that _ m] uderef_solves[OF assms(2) that] solvesD(2)[OF that assms(1)] by simp
  ultimately have rest: "\<forall>\<sigma>. solves \<sigma> (cells s) \<longrightarrow> all_unit \<sigma> (signalled (reinit_node n m s)) \<longrightarrow> solves \<sigma> (cells (reinit_node n m s))"
    and other: "\<And>k. k \<noteq> n \<Longrightarrow> cells (reinit_node n m s) k = cells s k" by blast+
  have views: "\<forall>k v. cells s k = UReadOnly v \<longrightarrow> cells (reinit_node n m s) k = UReadOnly v \<or> linked (cells (reinit_node n m s)) {} k v"
  proof (intro allI impI)
    fix k v assume "cells s k = UReadOnly v"
    then show "cells (reinit_node n m s) k = UReadOnly v \<or> linked (cells (reinit_node n m s)) {} k v"
      using l assms(1) other[of k] by (cases "k = n") auto
  qed
  have vars: "\<forall>k x. cells s k = UVariable x \<longrightarrow> cells (reinit_node n m s) k = UVariable x \<or> cells (reinit_node n m s) k = USimple SUnit"
  proof (intro allI impI)
    fix k x assume "cells s k = UVariable x"
    then show "cells (reinit_node n m s) k = UVariable x \<or> cells (reinit_node n m s) k = USimple SUnit"
      using assms(1) other[of k] by (cases "k = n") auto
  qed
  have "\<exists>ns. signalled (reinit_node n m s) = signalled s @ ns \<and> (\<forall>k \<in> set ns. cells (reinit_node n m s) k = USimple SUnit)"
    by (rule exI[of _ "[]"]) simp
  then show ?thesis unfolding gentle_def using reinit_stable[OF t] views vars rest reinit_no_nan by simp
qed

lemma addToSuspendList_gentle: "addToSuspendList e n p s = Some s' \<Longrightarrow> gentle s s'"
proof -
  assume a: "addToSuspendList e n p s = Some s'"
  show ?thesis
  proof (rule addToSuspendList.raw_induct[OF _ a, where P = "\<lambda>e n p s s'. gentle s s'"])
    fix add e n p s s'
    assume IH: "\<And>e n p s s'. add e n p s = Some s' \<Longrightarrow> gentle s s'"
      and turn: "(case cells s n of
        UVariable x \<Rightarrow> Some (set_pendings x (pendings (objects s x) @ [p]) s)
      | UReadOnlyVariable x \<Rightarrow> Some (set_pendings x (pendings (objects s x) @ [p]) s)
      | UOptVar _ \<Rightarrow> Some (become_variable e n False [p] s)
      | UReadOnly u \<Rightarrow> Option.bind (uderef (cells s) u) (\<lambda>m. add e m p s)
      | UFailedValue _ \<Rightarrow> None
      | _ \<Rightarrow> Some s) = Some s'"
    show "gentle s s'"
    proof (cases "cells s n")
      case (UReadOnly u)
      then obtain m where "add e m p s = Some s'" using turn by (auto simp: bind_eq_Some_conv)
      then show ?thesis by (rule IH)
    next
      case (UOptVar h)
      then show ?thesis using turn gentle_become_variable[OF UOptVar] by auto
    qed (use turn in auto)
  qed
qed

lemma wake_gentle: "wake e ps s = Some s' \<Longrightarrow> gentle s s'"
proof -
  assume a: "wake e ps s = Some s'"
  show ?thesis
  proof (rule wake.raw_induct[OF _ a, where P = "\<lambda>e ps s s'. gentle s s'"])
    fix wk e qs s s'
    assume IH: "\<And>e ps s s'. wk e ps s = Some s' \<Longrightarrow> gentle s s'"
      and turn: "(case qs of
        [] \<Rightarrow> Some s
      | (ask, p) # ps \<Rightarrow> Option.bind (uderef (cells s) p) (\<lambda>n.
          if ask \<and> \<not> shouldWakeUpUnderSpace e s (cells s n) then wk e ps s
          else case cells s n of
             USimple v \<Rightarrow> wk e ps (case v of SThread t \<Rightarrow> resume_suspended t s | _ \<Rightarrow> s)
           | UVariable x \<Rightarrow> wk e (map (Pair (\<not> onTopLevel e)) (pendings (objects s x)) @ ps) (signal e n x s)
           | UReadOnly u \<Rightarrow>
               Option.bind (uderef (cells s) u) (\<lambda>m.
                 if needsProtection (cells s m) then Option.bind (addToSuspendList e m n s) (wk e ps)
                 else Option.bind (become n m s) (wk e ps))
           | _ \<Rightarrow> wk e ps s)) = Some s'"
    show "gentle s s'"
    proof (cases qs)
      case (Cons q ps)
      obtain ask p where q: "q = (ask, p)" by (cases q)
      obtain n where n: "uderef (cells s) p = Some n" and rest:
        "(if ask \<and> \<not> shouldWakeUpUnderSpace e s (cells s n) then wk e ps s
          else case cells s n of
             USimple v \<Rightarrow> wk e ps (case v of SThread t \<Rightarrow> resume_suspended t s | _ \<Rightarrow> s)
           | UVariable x \<Rightarrow> wk e (map (Pair (\<not> onTopLevel e)) (pendings (objects s x)) @ ps) (signal e n x s)
           | UReadOnly u \<Rightarrow>
               Option.bind (uderef (cells s) u) (\<lambda>m.
                 if needsProtection (cells s m) then Option.bind (addToSuspendList e m n s) (wk e ps)
                 else Option.bind (become n m s) (wk e ps))
           | _ \<Rightarrow> wk e ps s) = Some s'"
        using turn Cons q by (auto simp: bind_eq_Some_conv)
      show ?thesis
      proof (cases "ask \<and> \<not> shouldWakeUpUnderSpace e s (cells s n)")
        case True
        then show ?thesis using rest IH by simp
      next
        case False
        note rest = rest[unfolded if_not_P[OF False]]
        show ?thesis
        proof (cases "cells s n")
          case (USimple v)
          have "gentle s (case v of SThread t \<Rightarrow> resume_suspended t s | _ \<Rightarrow> s)" by (cases v) simp_all
          moreover have "gentle (case v of SThread t \<Rightarrow> resume_suspended t s | _ \<Rightarrow> s) s'"
            using rest USimple IH by simp
          ultimately show ?thesis by (rule gentle_trans)
        next
          case (UVariable x)
          have "gentle (signal e n x s) s'" using rest UVariable IH by simp
          with gentle_signal[OF UVariable] show ?thesis by (rule gentle_trans)
        next
          case (UReadOnly u)
          obtain m where m: "uderef (cells s) u = Some m" and r:
            "(if needsProtection (cells s m) then Option.bind (addToSuspendList e m n s) (wk e ps)
                 else Option.bind (become n m s) (wk e ps)) = Some s'"
            using rest UReadOnly by (auto simp: bind_eq_Some_conv)
          show ?thesis
          proof (cases "needsProtection (cells s m)")
            case True
            then obtain t where "addToSuspendList e m n s = Some t" "wk e ps t = Some s'" using r by (auto simp: bind_eq_Some_conv)
            then show ?thesis using addToSuspendList_gentle IH gentle_trans by blast
          next
            case False
            then have "wk e ps (reinit_node n m s) = Some s'" using r by (auto simp: bind_eq_Some_conv become_def split: if_splits)
            then show ?thesis using gentle_readonly[OF UReadOnly m] IH gentle_trans by blast
          qed
        qed (use rest IH in auto)
      qed
    qed (use turn in simp)
  qed
qed

lemma markNeeded_gentle: "markNeeded e n s = Some s' \<Longrightarrow> gentle s s'"
proof -
  assume a: "markNeeded e n s = Some s'"
  show ?thesis
  proof (rule markNeeded.raw_induct[OF _ a, where P = "\<lambda>e n s s'. gentle s s'"])
    fix mn e n s s'
    let ?mark = "\<lambda>x. if needed (objects s x) then Some s
                      else wake e (map (Pair False) (pendings (objects s x)))
                        (s\<lparr>objects := (objects s)(x := (objects s x)\<lparr>needed := True, pendings := []\<rparr>)\<rparr>)"
    assume IH: "\<And>e n s s'. mn e n s = Some s' \<Longrightarrow> gentle s s'"
      and turn: "(let mark = ?mark
      in case cells s n of
           UVariable x \<Rightarrow> mark x
         | UReadOnlyVariable x \<Rightarrow> mark x
         | UOptVar _ \<Rightarrow> Some (become_variable e n True [] s)
         | UReadOnly u \<Rightarrow> Option.bind (uderef (cells s) u) (\<lambda>m. mn e m s)
         | _ \<Rightarrow> Some s) = Some s'"
    have mark: "gentle s s'" if m: "?mark x = Some s'" for x
    proof (cases "needed (objects s x)")
      case False
      let ?t = "s\<lparr>objects := (objects s)(x := (objects s x)\<lparr>needed := True, pendings := []\<rparr>)\<rparr>"
      have "gentle s ?t" by (rule gentle_frame) simp_all
      moreover have "gentle ?t s'" using m False by (intro wake_gentle) simp
      ultimately show ?thesis by (rule gentle_trans)
    qed (use m in simp)
    show "gentle s s'"
    proof (cases "cells s n")
      case (UVariable x)
      then show ?thesis using turn by (intro mark[of x]) (simp add: Let_def)
    next
      case (UReadOnlyVariable x)
      then show ?thesis using turn by (intro mark[of x]) (simp add: Let_def)
    next
      case (UReadOnly u)
      then show ?thesis using turn IH by (auto simp: bind_eq_Some_conv)
    next
      case (UOptVar h)
      then show ?thesis using turn gentle_become_variable[OF UOptVar] by auto
    qed (use turn in auto)
  qed
qed

section \<open>Binding\<close>

text \<open>A variable is bound to a node: the two are linked from then on, and nothing else is.\<close>

definition binds :: "unode \<Rightarrow> unode \<Rightarrow> ustate \<Rightarrow> ustate \<Rightarrow> bool" where
  "binds n m s s' \<longleftrightarrow>
     stable_cells (cells s) (cells s') \<and> linked (cells s') {} n m \<and>
     (\<forall>k u. cells s k = UReadOnly u \<longrightarrow> cells s' k = UReadOnly u \<or> linked (cells s') {} k u) \<and>
     (no_nan (cells s) \<longrightarrow> no_nan (cells s')) \<and>
     walkStack s' = walkStack s \<and> rebindTrail s' = rebindTrail s \<and> suspendTrail s' = suspendTrail s \<and>
     (\<exists>ns. signalled s' = signalled s @ ns \<and> (\<forall>k \<in> set ns. cells s' k = USimple SUnit)) \<and>
     (\<forall>\<sigma>. solves \<sigma> (cells s) \<longrightarrow> \<sigma> n = \<sigma> m \<longrightarrow> all_unit \<sigma> (signalled s') \<longrightarrow> solves \<sigma> (cells s'))"

lemma gentle_binds:
  assumes "gentle s t" "binds n m t s'"
  shows "binds n m s s'"
proof -
  have st: "stable_cells (cells s) (cells t)" "stable_cells (cells t) (cells s')" using assms by (simp_all add: gentle_def binds_def)
  have "cells s' k = UReadOnly u \<or> linked (cells s') {} k u" if "cells s k = UReadOnly u" for k u
  proof -
    have "cells t k = UReadOnly u \<or> linked (cells t) {} k u" using assms(1) that by (simp add: gentle_def)
    then show ?thesis using assms(2) stable_linked[OF st(2), of "{}" k u "{}"] by (auto simp: binds_def)
  qed
  moreover obtain ns where ns: "signalled t = signalled s @ ns" "\<forall>k \<in> set ns. cells t k = USimple SUnit"
    using assms(1) unfolding gentle_def by blast
  moreover obtain ns' where ns': "signalled s' = signalled t @ ns'" "\<forall>k \<in> set ns'. cells s' k = USimple SUnit"
    using assms(2) unfolding binds_def by blast
  moreover have "\<forall>k \<in> set ns. cells s' k = USimple SUnit" using ns(2) st(2) by (auto simp: stable_cells_def isTransient_def)
  moreover have "solves \<sigma> (cells s')" if "solves \<sigma> (cells s)" "\<sigma> n = \<sigma> m" "all_unit \<sigma> (signalled s')" for \<sigma>
    using that assms ns'(1) by (auto simp: gentle_def binds_def all_unit_def)
  ultimately show ?thesis
    using stable_trans[OF st] assms unfolding gentle_def binds_def by (intro conjI exI[of _ "ns @ ns'"]) auto
qed

lemma binds_gentle:
  assumes "binds n m s t" "gentle t s'"
  shows "binds n m s s'"
proof -
  have st: "stable_cells (cells s) (cells t)" "stable_cells (cells t) (cells s')" using assms by (simp_all add: gentle_def binds_def)
  have "cells s' k = UReadOnly u \<or> linked (cells s') {} k u" if "cells s k = UReadOnly u" for k u
  proof -
    have "cells t k = UReadOnly u \<or> linked (cells t) {} k u" using assms(1) that by (simp add: binds_def)
    then show ?thesis using assms(2) stable_linked[OF st(2), of "{}" k u "{}"] by (auto simp: gentle_def)
  qed
  moreover obtain ns where ns: "signalled t = signalled s @ ns" "\<forall>k \<in> set ns. cells t k = USimple SUnit"
    using assms(1) unfolding binds_def by blast
  moreover obtain ns' where ns': "signalled s' = signalled t @ ns'" "\<forall>k \<in> set ns'. cells s' k = USimple SUnit"
    using assms(2) unfolding gentle_def by blast
  moreover have "\<forall>k \<in> set ns. cells s' k = USimple SUnit" using ns(2) st(2) by (auto simp: stable_cells_def isTransient_def)
  moreover have "linked (cells s') {} n m" using assms(1) stable_linked[OF st(2), of "{}" n m "{}"] by (simp add: binds_def)
  moreover have "solves \<sigma> (cells s')" if "solves \<sigma> (cells s)" "\<sigma> n = \<sigma> m" "all_unit \<sigma> (signalled s')" for \<sigma>
    using that assms ns'(1) by (auto simp: gentle_def binds_def all_unit_def)
  ultimately show ?thesis
    using stable_trans[OF st] assms unfolding gentle_def binds_def by (intro conjI exI[of _ "ns @ ns'"]) auto
qed

lemma become_binds:
  assumes "become n m s = Some s'" "isTransient (cells s n)" "\<forall>u. cells s n \<noteq> UReadOnly u" "\<forall>k. cells s m \<noteq> URef k"
  shows "binds n m s s'"
proof -
  have s': "s' = reinit_node n m s" using assms(1) by (simp add: become_def split: if_splits)
  have "cells s' k = cells s k" if "k \<noteq> n" for k using that by (simp add: s' reinit_cells)
  then have "cells s' k = UReadOnly u" if "cells s k = UReadOnly u" for k u using that assms(3) by metis
  moreover have "signalled s' = signalled s @ []" by (simp add: s')
  ultimately show ?thesis
    unfolding binds_def using reinit_stable[OF assms(2)] reinit_linked[OF assms(4)] reinit_solves[of _ s n m] reinit_no_nan assms(4)
    by (intro conjI exI[of _ "[]"]) (auto simp: s')
qed

lemma become_source_binds:
  assumes "become_source e n x m s = Some s'" "cells s n = UVariable x" "\<forall>k. cells s m \<noteq> URef k"
  shows "binds n m s s'"
proof -
  obtain t where t: "binds n m s t" and w: "wake e (map (Pair (\<not> onTopLevel e)) (pendings (objects t x))) (set_pendings x [] t) = Some s'"
  proof (cases "needed (objects s x)")
    case False
    then obtain t where t: "become n m s = Some t" "wake e (map (Pair (\<not> onTopLevel e)) (pendings (objects t x))) (set_pendings x [] t) = Some s'"
      using assms(1) by (auto simp: become_source_def bind_eq_Some_conv)
    have "binds n m s t" by (rule become_binds[OF t(1) _ _ assms(3)]) (simp_all add: assms(2) isTransient_def)
    then show ?thesis using that t(2) by blast
  next
    case True
    then obtain u m' t where u: "markNeeded e m s = Some u" "uderef (cells u) m = Some m'" "become n m' u = Some t"
      "wake e (map (Pair (\<not> onTopLevel e)) (pendings (objects t x))) (set_pendings x [] t) = Some s'"
      using assms(1) by (auto simp: become_source_def bind_eq_Some_conv)
    have g: "gentle s u" by (rule markNeeded_gentle[OF u(1)])
    have "cells u n = UVariable x \<or> cells u n = USimple SUnit" using g assms(2) by (simp add: gentle_def)
    then have n: "cells u n = UVariable x" using u(3) by (auto simp: become_def)
    have m': "\<forall>k. cells u m' \<noteq> URef k" using uderef_end[OF u(2)] by blast
    have b: "binds n m' u t" by (rule become_binds[OF u(3) _ _ m']) (simp_all add: n isTransient_def)
    then have st: "stable_cells (cells u) (cells t)" by (simp add: binds_def)
    have l: "linked (cells t) {} m m'" by (rule stable_linked[OF st linked_deref[OF u(2)]]) simp
    have "linked (cells t) {} n m" using b linked_trans[OF _ linked_sym[OF l]] by (auto simp: binds_def)
    moreover have "solves \<sigma> (cells t)" if "solves \<sigma> (cells u)" "\<sigma> n = \<sigma> m" "all_unit \<sigma> (signalled t)" for \<sigma>
      using b that uderef_solves[OF u(2) that(1)] by (simp add: binds_def)
    ultimately have "binds n m u t" using b unfolding binds_def by blast
    then show ?thesis using that gentle_binds[OF g] u(4) by blast
  qed
  have "gentle t s'" by (rule gentle_trans[OF gentle_set_pendings wake_gentle[OF w]])
  with t show ?thesis by (rule binds_gentle)
qed

lemma bind_variable_binds:
  assumes "bind_variable e n m s = Some (Inr y, s')" "\<forall>k. cells s m \<noteq> URef k"
  shows "binds n m s s'"
proof (cases "cells s n")
  case (UVariable x)
  then have d: "doBind e n x m s = Some s'" using assms(1) by (auto simp: bind_variable_def)
  show ?thesis
  proof (cases "onTopLevel e")
    case True
    then show ?thesis using d become_source_binds[OF _ UVariable assms(2)] by (simp add: doBind_def)
  next
    case False
    define t where "t = (if home (objects s x) \<noteq> currentSpace e then makeBackup n s else s)"
    have t: "gentle s t" by (simp add: t_def)
    have tc: "cells t = cells s" by (simp add: t_def makeBackup_def)
    have "become_source e n x m t = Some s'" using d False by (simp add: doBind_def bindSubSpace_def t_def)
    then have "binds n m t s'" using UVariable assms(2) by (intro become_source_binds[of e n x m t s']) (simp_all add: tc)
    then show ?thesis by (rule gentle_binds[OF t])
  qed
next
  case (UOptVar h)
  define t where "t = makeBackupForSpeculativeBindingIfNeeded e n h s"
  have t: "gentle s t" by (simp add: t_def makeBackupForSpeculativeBindingIfNeeded_def)
  have tc: "cells t = cells s" by (simp add: t_def makeBackupForSpeculativeBindingIfNeeded_def makeBackup_def)
  have "become n m t = Some s'" using assms(1) UOptVar by (auto simp: bind_variable_def t_def)
  then have "binds n m t s'" using UOptVar assms(2) by (intro become_binds) (simp_all add: tc isTransient_def)
  then show ?thesis by (rule gentle_binds[OF t])
qed (use assms(1) in \<open>auto simp: bind_variable_def bind_eq_Some_conv\<close>)

lemma bind_variable_raises: "bind_variable e n m s = Some (Inl x, s') \<Longrightarrow> s' = s"
  by (auto simp: bind_variable_def bind_eq_Some_conv split: ucell.splits)

section \<open>The invariant of the walk\<close>

definition undone :: "ustate \<Rightarrow> unode \<Rightarrow> ucell" where
  "undone s = restore_cells (rebindTrail s) (cells s)"

lemma restore_other: "n \<notin> fst ` set bs \<Longrightarrow> restore_cells bs st n = st n"
  by (induction bs st rule: restore_cells.induct) auto

lemma restore_saved: "distinct (map fst bs) \<Longrightarrow> (n, c) \<in> set bs \<Longrightarrow> restore_cells bs st n = c"
proof (induction bs st rule: restore_cells.induct)
  case (2 k saved backups st)
  show ?case
  proof (cases "(n, c) = (k, saved)")
    case True
    then show ?thesis using 2(2) restore_other[of k backups "st(k := saved)"] by simp
  next
    case False
    then have "(n, c) \<in> set backups" using 2(3) by auto
    then show ?thesis using 2(1) 2(2) by (simp del: fun_upd_apply)
  qed
qed simp

text \<open>The pairs that remain, those that are kept for later included.\<close>

definition todo :: "ustate \<Rightarrow> (unode \<times> unode) set" where
  "todo s = stack_pairs (walkStack s) \<union> set (suspendTrail s)"

text \<open>A node of the trail refers to one that is later in the trail or not in it.\<close>

definition forward :: "(unode \<times> ucell) list \<Rightarrow> (unode \<Rightarrow> ucell) \<Rightarrow> bool" where
  "forward bs st \<longleftrightarrow> (\<forall>i < length bs. \<exists>m. st (fst (bs ! i)) = URef m \<and> m \<notin> set (take (Suc i) (map fst bs)))"

definition rebound_ok :: "(unode \<times> unode) set \<Rightarrow> ustate \<Rightarrow> bool" where
  "rebound_ok P s \<longleftrightarrow> distinct (map fst (rebindTrail s)) \<and> forward (rebindTrail s) (cells s) \<and>
     (\<forall>(n, c) \<in> set (rebindTrail s). \<exists>m l ns ms. cells s n = URef m \<and> shape n c = Some (l, ns) \<and>
        shape m (undone s m) = Some (l, ms) \<and> list_all2 (linked (cells s) P) ns ms)"

definition walk_inv :: "(unode \<Rightarrow> ucell) \<Rightarrow> unode \<Rightarrow> unode \<Rightarrow> (unode \<times> unode) set \<Rightarrow> ustate \<Rightarrow> bool" where
  "walk_inv st0 l0 r0 P s \<longleftrightarrow>
     (\<forall>n. \<not> isTransient (st0 n) \<longrightarrow> undone s n = st0 n) \<and>
     (\<forall>n u. st0 n = UReadOnly u \<longrightarrow> undone s n = UReadOnly u \<or> linked (cells s) P n u) \<and>
     linked (cells s) P l0 r0 \<and> rebound_ok P s \<and> (no_nan st0 \<longrightarrow> no_nan (cells s)) \<and>
     (\<forall>n \<in> set (signalled s). cells s n = USimple SUnit) \<and>
     (\<forall>\<sigma>. solves \<sigma> st0 \<longrightarrow> \<sigma> l0 = \<sigma> r0 \<longrightarrow> all_unit \<sigma> (signalled s) \<longrightarrow>
        solves \<sigma> (cells s) \<and> solves \<sigma> (undone s) \<and> (\<forall>(a, b) \<in> P. \<sigma> a = \<sigma> b))"

lemma undone_other: "n \<notin> fst ` set (rebindTrail s) \<Longrightarrow> undone s n = cells s n"
  by (simp add: undone_def restore_other)

lemma undone_saved: "rebound_ok P s \<Longrightarrow> (n, c) \<in> set (rebindTrail s) \<Longrightarrow> undone s n = c"
  by (simp add: undone_def restore_saved rebound_ok_def)

lemma rebound_entry:
  assumes "rebound_ok P s" "n \<in> fst ` set (rebindTrail s)"
  obtains m l ns ms where "cells s n = URef m" "shape n (undone s n) = Some (l, ns)" "shape m (undone s m) = Some (l, ms)"
    "list_all2 (linked (cells s) P) ns ms"
proof -
  obtain c where c: "(n, c) \<in> set (rebindTrail s)" using assms(2) by auto
  have "\<exists>m l ns ms. cells s n = URef m \<and> shape n c = Some (l, ns) \<and> shape m (undone s m) = Some (l, ms) \<and> list_all2 (linked (cells s) P) ns ms"
    using assms(1) c unfolding rebound_ok_def by fast
  then show ?thesis using that undone_saved[OF assms(1) c] by blast
qed

text \<open>A solution of the store without the temporary references, which satisfies the remaining pairs, makes
  linked nodes equal: by coinduction, as their labels are equal and their subtrees are linked.\<close>

definition same_top :: "(unode \<Rightarrow> tree) \<Rightarrow> (unode \<Rightarrow> unode \<Rightarrow> bool) \<Rightarrow> unode \<Rightarrow> unode \<Rightarrow> bool" where
  "same_top \<sigma> R a b \<longleftrightarrow> tlabel (\<sigma> a) = tlabel (\<sigma> b) \<and>
     list_all2 (\<lambda>x y. x = y \<or> (\<lambda>x y. \<exists>a b. R a b \<and> x = \<sigma> a \<and> y = \<sigma> b)\<^sup>*\<^sup>* x y) (subtrees (\<sigma> a)) (subtrees (\<sigma> b))"

lemma linked_tops:
  assumes inv: "walk_inv st0 l0 r0 P s" and sol: "solves \<sigma> (undone s)" and pairs: "\<forall>(a, b) \<in> P. \<sigma> a = \<sigma> b"
    and step: "tie (cells s) a b \<or> (a, b) \<in> P"
  shows "\<sigma> a = \<sigma> b \<or> (\<exists>l ns ms. \<sigma> a = Tree l (map \<sigma> ns) \<and> \<sigma> b = Tree l (map \<sigma> ms) \<and> list_all2 (linked (cells s) P) ns ms)"
  using step
proof
  assume "(a, b) \<in> P"
  then show ?thesis using pairs by auto
next
  assume t: "tie (cells s) a b"
  have ok: "rebound_ok P s" using inv by (simp add: walk_inv_def)
  show ?thesis
  proof (cases "a \<in> fst ` set (rebindTrail s)")
    case True
    obtain m l ns ms where m: "cells s a = URef m" "shape a (undone s a) = Some (l, ns)" "shape m (undone s m) = Some (l, ms)"
      "list_all2 (linked (cells s) P) ns ms"
      using rebound_entry[OF ok True] .
    then have "m = b" using t by (auto simp: tie_def)
    then show ?thesis using m(2,3,4) solvesD(3)[OF sol] by blast
  next
    case False
    then have a: "undone s a = cells s a" by (rule undone_other)
    from t consider "cells s a = URef b" | v w where "cells s a = USimple v" "cells s b = USimple w" "simple_class v = simple_class w"
      by (auto simp: tie_def)
    then show ?thesis
    proof cases
      case 1
      then show ?thesis using solvesD(1)[OF sol, of a b] a by simp
    next
      case 2
      have "b \<notin> fst ` set (rebindTrail s)"
      proof
        assume "b \<in> fst ` set (rebindTrail s)"
        from rebound_entry[OF ok this] 2(2) show False by auto
      qed
      then have "undone s b = cells s b" by (rule undone_other)
      then show ?thesis using 2 a solvesD(3)[OF sol, of a "LSimple (simple_class v)" "[]"] solvesD(3)[OF sol, of b "LSimple (simple_class w)" "[]"] by simp
    qed
  qed
qed

lemma linked_equal:
  assumes inv: "walk_inv st0 l0 r0 P s" and sol: "solves \<sigma> (undone s)" and pairs: "\<forall>(a, b) \<in> P. \<sigma> a = \<sigma> b"
    and l: "linked (cells s) P a b"
  shows "\<sigma> a = \<sigma> b"
proof -
  define S where "S = (\<lambda>x y. \<exists>a b. linked (cells s) P a b \<and> x = \<sigma> a \<and> y = \<sigma> b)"
  have S_sym: "S\<^sup>*\<^sup>* y x" if "S\<^sup>*\<^sup>* x y" for x y
  proof -
    have "symp S" unfolding S_def using linked_sym by (blast intro: sympI)
    then show ?thesis using that by (metis symp_rtranclp sympD)
  qed
  define Q where "Q = (\<lambda>x y. tlabel x = tlabel y \<and> list_all2 (S\<^sup>*\<^sup>*) (subtrees x) (subtrees y))"
  have Q_refl: "Q x x" for x by (simp add: Q_def list_all2_refl)
  have Q_trans: "Q x z" if "Q x y" "Q y z" for x y z
    using that unfolding Q_def by (auto intro: list_all2_trans[of "S\<^sup>*\<^sup>*" "S\<^sup>*\<^sup>*" "S\<^sup>*\<^sup>*"] rtranclp_trans)
  have Q_sym: "Q y x" if "Q x y" for x y
    using that S_sym unfolding Q_def by (auto simp: list_all2_conv_all_nth)
  have Q_link: "Q (\<sigma> a) (\<sigma> b)" if "linked (cells s) P a b" for a b
    using that unfolding linked_def
  proof (induction rule: equivclp_induct)
    case (step y z)
    have edge: "Q (\<sigma> y) (\<sigma> z)" if e: "tie (cells s) y z \<or> (y, z) \<in> P" for y z
    proof -
      consider "\<sigma> y = \<sigma> z" | l ns ms where "\<sigma> y = Tree l (map \<sigma> ns)" "\<sigma> z = Tree l (map \<sigma> ms)" "list_all2 (linked (cells s) P) ns ms"
        using linked_tops[OF inv sol pairs e] by blast
      then show ?thesis
      proof cases
        case 2
        have "list_all2 (S\<^sup>*\<^sup>*) (map \<sigma> ns) (map \<sigma> ms)"
          using 2(3) unfolding list_all2_map1 list_all2_map2 by (rule list_all2_mono) (auto simp: S_def)
        then show ?thesis using 2 by (simp add: Q_def)
      qed (simp add: Q_refl)
    qed
    from step(2) have "Q (\<sigma> y) (\<sigma> z)" using edge Q_sym by blast
    then show ?case using step(3) Q_trans by blast
  qed (rule Q_refl)
  have Q_S: "Q x y" if "S\<^sup>*\<^sup>* x y" for x y
    using that
  proof induction
    case (step y z)
    then show ?case using Q_link Q_trans unfolding S_def by blast
  qed (rule Q_refl)
  have "S\<^sup>*\<^sup>* (\<sigma> a) (\<sigma> b)" using l by (auto simp: S_def)
  then show ?thesis
  proof (rule tree.coinduct)
    fix x y assume "S\<^sup>*\<^sup>* x y"
    then show "tlabel x = tlabel y \<and> list_all2 (S\<^sup>*\<^sup>*) (subtrees x) (subtrees y)" using Q_S by (simp add: Q_def)
  qed
qed

lemma walk_sound:
  assumes inv: "walk_inv st0 l0 r0 P s" and sol: "solves \<sigma> (undone s)" and pairs: "\<forall>(a, b) \<in> P. \<sigma> a = \<sigma> b"
  shows "solves \<sigma> st0 \<and> \<sigma> l0 = \<sigma> r0 \<and> all_unit \<sigma> (signalled s)"
proof (intro conjI)
  note eq = linked_equal[OF inv sol pairs]
  show "\<sigma> l0 = \<sigma> r0" using inv by (intro eq) (simp add: walk_inv_def)
  have ok: "rebound_ok P s" and unit: "\<forall>n \<in> set (signalled s). cells s n = USimple SUnit" using inv by (simp_all add: walk_inv_def)
  have "\<sigma> n = unit_tree" if "n \<in> set (signalled s)" for n
  proof -
    have c: "cells s n = USimple SUnit" using unit that by blast
    have "n \<notin> fst ` set (rebindTrail s)"
    proof
      assume "n \<in> fst ` set (rebindTrail s)"
      from rebound_entry[OF ok this] c show False by auto
    qed
    then show ?thesis using solvesD(3)[OF sol, of n "LSimple SUnit" "[]"] undone_other c by (simp add: unit_tree_def)
  qed
  then show "all_unit \<sigma> (signalled s)" by (simp add: all_unit_def)
  have same: "undone s n = st0 n" if "\<not> isTransient (st0 n)" for n using inv that by (simp add: walk_inv_def)
  show "solves \<sigma> st0"
    unfolding solves_def
  proof (intro allI conjI impI)
    fix n m assume "st0 n = URef m"
    then show "\<sigma> n = \<sigma> m" using same[of n] solvesD(1)[OF sol, of n m] by (simp add: isTransient_def)
  next
    fix n u assume "st0 n = UReadOnly u"
    then have "undone s n = UReadOnly u \<or> linked (cells s) P n u" using inv by (simp add: walk_inv_def)
    then show "\<sigma> n = \<sigma> u" using solvesD(2)[OF sol, of n u] eq by blast
  next
    fix n l ns assume sh: "shape n (st0 n) = Some (l, ns)"
    then have "undone s n = st0 n" using same shape_determined by blast
    then show "\<sigma> n = Tree l (map \<sigma> ns)" using solvesD(3)[OF sol, of n l ns] sh by simp
  qed
qed

section \<open>The turns of the walk\<close>

lemma stack_pairs_push: "stack_pairs (push a b stack) = insert (a, b) (stack_pairs stack)"
  by (simp add: stack_pairs_def push_def)

lemma stack_pairs_pushArray: "stack_pairs (pushArray as bs stack) = set (zip as bs) \<union> stack_pairs stack"
  by (simp add: stack_pairs_def pushArray_def)

lemma stack_pairs_pop: "pop_pair stack = Some ((a, b), stack') \<Longrightarrow> stack_pairs stack = insert (a, b) (stack_pairs stack')"
  by (induction stack rule: pop_pair.induct) (auto simp: stack_pairs_def split: if_splits)

lemma structural_equals_spec:
  assumes "structural_equals c d stack = Some (Some stack')"
  shows "\<exists>l ns ms. shape a c = Some (l, ns) \<and> shape b d = Some (l, ms) \<and> length ns = length ms \<and> \<not> isCopyableCell d \<and>
    stack_pairs stack' = set (zip ns ms) \<union> stack_pairs stack"
  using assms
  by (cases c; cases d) (auto simp: structural_equals_def Let_def stack_pairs_push stack_pairs_pushArray split: if_splits)

lemma structural_equals_differ:
  assumes "structural_equals c d stack = Some None"
  shows "\<exists>l ns ms. shape a c = Some (l, ns) \<and> shape b d = Some (l, ms) \<and> length ns \<noteq> length ms"
  using assms by (cases c; cases d) (auto simp: structural_equals_def Let_def split: if_splits)

lemma class_type: "simple_class v = simple_class w \<Longrightarrow> simple_type v = simple_type w"
  by (cases v; cases w) auto

text \<open>Determined nodes of different types, and different tokens, have different labels.\<close>

lemma shape_same_type:
  "shape a c = Some (l, ns) \<Longrightarrow> shape b d = Some (l, ms) \<Longrightarrow> a \<noteq> b \<Longrightarrow>
   type_of_cell c = type_of_cell d \<and> structuralBehavior c \<noteq> SbTokenEq"
  by (cases c; cases d) (auto dest: class_type)

lemma forward_same: "forward bs st \<Longrightarrow> (\<And>n. n \<in> fst ` set bs \<Longrightarrow> st' n = st n) \<Longrightarrow> forward bs st'"
  unfolding forward_def by (metis imageI nth_mem)

lemma forward_snoc:
  assumes "forward bs st" "n \<notin> fst ` set bs" "m \<notin> fst ` set bs" "m \<noteq> n"
  shows "forward (bs @ [(n, c)]) (st(n := URef m))"
  unfolding forward_def
proof (intro allI impI)
  fix i assume i: "i < length (bs @ [(n, c)])"
  show "\<exists>k. (st(n := URef m)) (fst ((bs @ [(n, c)]) ! i)) = URef k \<and> k \<notin> set (take (Suc i) (map fst (bs @ [(n, c)])))"
  proof (cases "i < length bs")
    case True
    then have "fst (bs ! i) \<noteq> n" using assms(2) by (metis imageI nth_mem)
    moreover obtain k where "st (fst (bs ! i)) = URef k" "k \<notin> set (take (Suc i) (map fst bs))"
      using assms(1) True unfolding forward_def by blast
    ultimately show ?thesis using True by (auto simp: nth_append)
  next
    case False
    then have "i = length bs" using i by simp
    then show ?thesis using assms(3,4) by auto
  qed
qed

text \<open>The nodes of the trail of temporary references refer to another node.\<close>

lemma rebound_ref: "rebound_ok P s \<Longrightarrow> n \<in> fst ` set (rebindTrail s) \<Longrightarrow> \<exists>m. cells s n = URef m"
  by (erule (1) rebound_entry) blast

lemma inv_rebound: "walk_inv st0 l0 r0 P s \<Longrightarrow> rebound_ok P s"
  by (simp add: walk_inv_def)

lemma inv_step:
  assumes inv: "walk_inv st0 l0 r0 P s" and st: "stable_cells (cells s) (cells s')"
    and trail: "rebindTrail s' = rebindTrail s"
    and views: "\<forall>k u. cells s k = UReadOnly u \<longrightarrow> cells s' k = UReadOnly u \<or> linked (cells s') Q k u"
    and pairs: "\<forall>(x, y) \<in> P. linked (cells s') Q x y"
    and nan: "no_nan (cells s) \<longrightarrow> no_nan (cells s')"
    and units: "\<exists>ns. signalled s' = signalled s @ ns \<and> (\<forall>k \<in> set ns. cells s' k = USimple SUnit)"
    and sols: "\<And>\<sigma>. solves \<sigma> (cells s) \<Longrightarrow> \<forall>(a, b) \<in> P. \<sigma> a = \<sigma> b \<Longrightarrow> all_unit \<sigma> (signalled s') \<Longrightarrow>
      solves \<sigma> (cells s') \<and> (\<forall>(a, b) \<in> Q. \<sigma> a = \<sigma> b)"
  shows "walk_inv st0 l0 r0 Q s'"
proof -
  note ok = inv_rebound[OF inv]
  have links: "linked (cells s') Q x y" if "linked (cells s) P x y" for x y
    using that by (rule linked_mono) (use st pairs stable_tie linked_tie in blast)+
  have kept: "cells s' n = cells s n" if "n \<in> fst ` set (rebindTrail s)" for n
    using rebound_ref[OF ok that] st by (auto simp: stable_cells_def isTransient_def)
  have out: "undone s' n = cells s' n" if "n \<notin> fst ` set (rebindTrail s)" for n
    using that trail by (simp add: undone_other)
  have inn: "undone s' n = undone s n" if t: "n \<in> fst ` set (rebindTrail s)" for n
  proof -
    obtain c where c: "(n, c) \<in> set (rebindTrail s)" using t by auto
    have d: "distinct (map fst (rebindTrail s))" using ok by (simp add: rebound_ok_def)
    show ?thesis unfolding undone_def trail restore_saved[OF d c] ..
  qed
  have same: "undone s' n = undone s n" if "\<not> isTransient (undone s n)" for n
    using that inn out[of n] undone_other[of n s] st by (cases "n \<in> fst ` set (rebindTrail s)") (auto simp: stable_cells_def)
  have "rebound_ok Q s'"
    unfolding rebound_ok_def
  proof (intro conjI ballI)
    show "distinct (map fst (rebindTrail s'))" using ok trail by (simp add: rebound_ok_def)
    show "forward (rebindTrail s') (cells s')" using ok trail kept by (auto simp: rebound_ok_def intro: forward_same)
    fix x assume x: "x \<in> set (rebindTrail s')"
    obtain n c where nc: "x = (n, c)" by (cases x)
    then have i: "(n, c) \<in> set (rebindTrail s)" using x trail by simp
    then have n: "n \<in> fst ` set (rebindTrail s)" by force
    obtain m l ns ms where m: "cells s n = URef m" "shape n (undone s n) = Some (l, ns)" "shape m (undone s m) = Some (l, ms)"
      "list_all2 (linked (cells s) P) ns ms"
      using rebound_entry[OF ok n] .
    have "shape n c = Some (l, ns)" using m(2) undone_saved[OF ok i] by simp
    moreover have "undone s' m = undone s m" using same[of m] shape_determined[OF m(3)] by blast
    moreover have "list_all2 (linked (cells s') Q) ns ms" using m(4) links by (rule list_all2_mono)
    ultimately show "case x of (n, c) \<Rightarrow> \<exists>m l ns ms. cells s' n = URef m \<and> shape n c = Some (l, ns) \<and>
        shape m (undone s' m) = Some (l, ms) \<and> list_all2 (linked (cells s') Q) ns ms"
      using m kept[OF n] nc by auto
  qed
  moreover have "undone s' n = UReadOnly u \<or> linked (cells s') Q n u" if v: "st0 n = UReadOnly u" for n u
  proof -
    have c: "undone s n = UReadOnly u \<or> linked (cells s) P n u" using inv v by (simp add: walk_inv_def)
    then show ?thesis
    proof
      assume u: "undone s n = UReadOnly u"
      then show ?thesis using inn[of n] out[of n] undone_other[of n s] views by (cases "n \<in> fst ` set (rebindTrail s)") auto
    qed (use links in blast)
  qed
  moreover have "solves \<sigma> (cells s') \<and> solves \<sigma> (undone s') \<and> (\<forall>(a, b) \<in> Q. \<sigma> a = \<sigma> b)"
    if a: "solves \<sigma> st0" "\<sigma> l0 = \<sigma> r0" "all_unit \<sigma> (signalled s')" for \<sigma>
  proof -
    have "all_unit \<sigma> (signalled s)" using a(3) units by (auto simp: all_unit_def)
    then have b: "solves \<sigma> (cells s)" "solves \<sigma> (undone s)" "\<forall>(a, b) \<in> P. \<sigma> a = \<sigma> b" using inv a(1,2) by (auto simp: walk_inv_def)
    then have c: "solves \<sigma> (cells s')" "\<forall>(a, b) \<in> Q. \<sigma> a = \<sigma> b" using sols a(3) by blast+
    moreover have "solves \<sigma> (undone s')"
      unfolding solves_def
    proof (intro allI)
      fix n
      show "(\<forall>m. undone s' n = URef m \<longrightarrow> \<sigma> n = \<sigma> m) \<and> (\<forall>u. undone s' n = UReadOnly u \<longrightarrow> \<sigma> n = \<sigma> u) \<and>
          (\<forall>l ns. shape n (undone s' n) = Some (l, ns) \<longrightarrow> \<sigma> n = Tree l (map \<sigma> ns))"
        using solvesD[OF c(1), of n] solvesD[OF b(2), of n] inn[of n] out[of n] by (cases "n \<in> fst ` set (rebindTrail s)") auto
    qed
    ultimately show ?thesis by blast
  qed
  moreover have "undone s' n = st0 n" if "\<not> isTransient (st0 n)" for n
    using inv same[of n] that by (simp add: walk_inv_def)
  moreover have "linked (cells s') Q l0 r0" using inv links by (simp add: walk_inv_def)
  moreover have "\<forall>n \<in> set (signalled s'). cells s' n = USimple SUnit"
  proof -
    have "\<forall>n \<in> set (signalled s). cells s' n = USimple SUnit" using inv st by (auto simp: walk_inv_def stable_cells_def isTransient_def)
    then show ?thesis using units by auto
  qed
  moreover have "no_nan st0 \<longrightarrow> no_nan (cells s')" using inv nan by (simp add: walk_inv_def)
  ultimately show ?thesis unfolding walk_inv_def by blast
qed

text \<open>The pair of two structures: the left one refers to the right one, their parts remain.\<close>

lemma rebind_fields [simp]:
  "rebindTrail (rebind a b s) = rebindTrail s @ [(a, cells s a)]" "walkStack (rebind a b s) = walkStack s"
  "suspendTrail (rebind a b s) = suspendTrail s" "signalled (rebind a b s) = signalled s"
  by (simp_all add: rebind_def reinit_node_def)

lemma rebind_cells: "a \<noteq> b \<Longrightarrow> \<not> isCopyableCell (cells s b) \<Longrightarrow> cells (rebind a b s) = (cells s)(a := URef b)"
  by (simp add: rebind_def reinit_node_def)

lemma undone_rebind:
  assumes "distinct (map fst (rebindTrail s))" "a \<notin> fst ` set (rebindTrail s)" "a \<noteq> b" "\<not> isCopyableCell (cells s b)"
  shows "undone (rebind a b s) = undone s"
proof
  fix n
  have d: "distinct (map fst (rebindTrail (rebind a b s)))" using assms(1,2) by simp
  consider "n = a" | c where "n \<noteq> a" "(n, c) \<in> set (rebindTrail s)" | "n \<noteq> a" "n \<notin> fst ` set (rebindTrail s)" by force
  then show "undone (rebind a b s) n = undone s n"
  proof cases
    case 1
    then show ?thesis using restore_saved[OF d, of a "cells s a"] undone_other[OF assms(2)] by (simp add: undone_def)
  next
    case 2
    then show ?thesis using restore_saved[OF d, of n c] restore_saved[OF assms(1), of n c] by (simp add: undone_def)
  next
    case 3
    then show ?thesis using undone_other[of n "rebind a b s"] undone_other[of n s] assms(3,4) by (simp add: rebind_cells)
  qed
qed

lemma inv_rebind:
  assumes inv: "walk_inv st0 l0 r0 P s" and ab: "(a, b) \<in> P" "a \<noteq> b"
    and sh: "shape a (cells s a) = Some (l, ns)" "shape b (cells s b) = Some (l, ms)" "length ns = length ms"
    and copy: "\<not> isCopyableCell (cells s b)" "\<forall>v. cells s a \<noteq> USimple v"
    and Q: "P \<subseteq> insert (a, b) Q" "set (zip ns ms) \<subseteq> Q" "Q \<subseteq> P \<union> set (zip ns ms)"
    and s': "cells s' = cells (rebind a b s)" "rebindTrail s' = rebindTrail (rebind a b s)" "signalled s' = signalled s"
  shows "walk_inv st0 l0 r0 Q s'"
proof -
  note ok = inv_rebound[OF inv]
  have c: "cells s' = (cells s)(a := URef b)" using s'(1) rebind_cells[OF ab(2) copy(1)] by simp
  have trail: "rebindTrail s' = rebindTrail s @ [(a, cells s a)]" using s'(2) by simp
  have a: "a \<notin> fst ` set (rebindTrail s)" using rebound_ref[OF ok] shape_determined[OF sh(1)] by metis
  have b: "b \<notin> fst ` set (rebindTrail s)" using rebound_ref[OF ok] shape_determined[OF sh(2)] by metis
  have d: "distinct (map fst (rebindTrail s))" using ok by (simp add: rebound_ok_def)
  have und: "undone s' = undone s"
    using undone_rebind[OF d a ab(2) copy(1)] s'(1,2) by (simp add: undone_def)
  have tie: "tie (cells s') x y" if "tie (cells s) x y" for x y
    using that copy(2) sh(1) by (auto simp: tie_def c)
  have lab: "linked (cells s') Q a b" by (rule linked_tie) (simp add: tie_def c)
  have links: "linked (cells s') Q x y" if "linked (cells s) P x y" for x y
    using that by (rule linked_mono) (use tie linked_tie lab Q(1) linked_pair in blast)+
  have "rebound_ok Q s'"
    unfolding rebound_ok_def und
  proof (intro conjI ballI)
    show "distinct (map fst (rebindTrail s'))" using ok a trail by (simp add: rebound_ok_def)
    show "forward (rebindTrail s') (cells s')"
      unfolding trail c using ok a b ab(2) by (intro forward_snoc) (auto simp: rebound_ok_def)
    fix x assume x: "x \<in> set (rebindTrail s')"
    obtain n d where nd: "x = (n, d)" by (cases x)
    have "\<exists>m l ns ms. cells s' n = URef m \<and> shape n d = Some (l, ns) \<and>
        shape m (undone s m) = Some (l, ms) \<and> list_all2 (linked (cells s') Q) ns ms"
    proof (cases "(n, d) \<in> set (rebindTrail s)")
      case True
      then have n: "n \<in> fst ` set (rebindTrail s)" by force
      obtain m l ns ms where m: "cells s n = URef m" "shape n (undone s n) = Some (l, ns)" "shape m (undone s m) = Some (l, ms)"
        "list_all2 (linked (cells s) P) ns ms"
        using rebound_entry[OF ok n] .
      have "list_all2 (linked (cells s') Q) ns ms" using m(4) links by (rule list_all2_mono)
      moreover have "cells s' n = URef m" using m(1) n a by (auto simp: c)
      ultimately show ?thesis using m(2,3) undone_saved[OF ok True] by auto
    next
      case False
      then have e: "n = a" "d = cells s a" using x nd trail by auto
      have "list_all2 (linked (cells s') Q) ns ms"
        using sh(3) Q(2) linked_pair by (auto simp: list_all2_iff)
      then show ?thesis using e sh(1,2) c undone_other[OF b] by auto
    qed
    then show "case x of (n, d) \<Rightarrow> \<exists>m l ns ms. cells s' n = URef m \<and> shape n d = Some (l, ns) \<and>
        shape m (undone s m) = Some (l, ms) \<and> list_all2 (linked (cells s') Q) ns ms"
      by (simp add: nd)
  qed
  moreover have "solves \<sigma> (cells s') \<and> solves \<sigma> (undone s') \<and> (\<forall>(a, b) \<in> Q. \<sigma> a = \<sigma> b)"
    if h: "solves \<sigma> st0" "\<sigma> l0 = \<sigma> r0" "all_unit \<sigma> (signalled s')" for \<sigma>
  proof -
    have g: "solves \<sigma> (cells s)" "solves \<sigma> (undone s)" "\<forall>(a, b) \<in> P. \<sigma> a = \<sigma> b" using inv h s'(3) by (auto simp: walk_inv_def)
    then have e: "\<sigma> a = \<sigma> b" using ab(1) by auto
    have "map \<sigma> ns = map \<sigma> ms" using e solvesD(3)[OF g(1) sh(1)] solvesD(3)[OF g(1) sh(2)] by simp
    then have "\<forall>(x, y) \<in> set (zip ns ms). \<sigma> x = \<sigma> y"
      using sh(3) by (auto simp: in_set_conv_nth dest: map_eq_imp_length_eq) (metis nth_map)
    then have "\<forall>(x, y) \<in> Q. \<sigma> x = \<sigma> y" using g(3) Q(3) by blast
    moreover have "solves \<sigma> (cells s')" unfolding c using g(1) e by (intro solves_upd) auto
    ultimately show ?thesis using g(2) und by simp
  qed
  moreover have "undone s' n = UReadOnly u \<or> linked (cells s') Q n u" if "st0 n = UReadOnly u" for n u
  proof -
    have "undone s n = UReadOnly u \<or> linked (cells s) P n u" using inv that by (simp add: walk_inv_def)
    then show ?thesis using links und by auto
  qed
  moreover have "linked (cells s') Q l0 r0" using inv links by (simp add: walk_inv_def)
  moreover have "\<forall>n \<in> set (signalled s'). cells s' n = USimple SUnit"
    using inv s'(3) copy(2) c by (auto simp: walk_inv_def)
  moreover have "no_nan st0 \<longrightarrow> no_nan (cells s')" using inv unfolding c by (auto simp: walk_inv_def no_nan_def)
  moreover have "undone s' n = st0 n" if "\<not> isTransient (st0 n)" for n using inv that by (simp add: walk_inv_def und)
  ultimately show ?thesis unfolding walk_inv_def by blast
qed

lemma inv_bind:
  assumes inv: "walk_inv st0 l0 r0 P s" and P: "P \<subseteq> insert (a, b) Q" "Q \<subseteq> P" and ab: "(a, b) \<in> P \<or> (b, a) \<in> P"
    and b: "binds a b s s' \<or> binds b a s s'"
  shows "walk_inv st0 l0 r0 Q s'"
proof -
  obtain x y where xy: "binds x y s s'" "(x, y) = (a, b) \<or> (x, y) = (b, a)" using b by blast
  have l: "linked (cells s') Q x y"
    by (rule stable_linked[of "cells s'" _ "{}"]) (use xy(1) in \<open>auto simp: binds_def\<close>)
  show ?thesis
  proof (rule inv_step[OF inv])
    show "stable_cells (cells s) (cells s')" "rebindTrail s' = rebindTrail s" "no_nan (cells s) \<longrightarrow> no_nan (cells s')"
      "\<exists>ns. signalled s' = signalled s @ ns \<and> (\<forall>k \<in> set ns. cells s' k = USimple SUnit)"
      using xy(1) by (simp_all add: binds_def)
    show "\<forall>k u. cells s k = UReadOnly u \<longrightarrow> cells s' k = UReadOnly u \<or> linked (cells s') Q k u"
      using xy(1) stable_linked[of "cells s'" "cells s'" "{}" _ _ Q] by (auto simp: binds_def)
    show "\<forall>(x, y) \<in> P. linked (cells s') Q x y"
      using P(1) l xy(2) linked_sym linked_pair by blast
    fix \<sigma> assume h: "solves \<sigma> (cells s)" "\<forall>(a, b) \<in> P. \<sigma> a = \<sigma> b" "all_unit \<sigma> (signalled s')"
    have "\<sigma> x = \<sigma> y" using h(2) ab xy(2) by auto
    then show "solves \<sigma> (cells s') \<and> (\<forall>(a, b) \<in> Q. \<sigma> a = \<sigma> b)" using h xy(1) P(2) by (auto simp: binds_def)
  qed
qed

text \<open>The same store with other pairs.\<close>

lemma inv_pairs:
  assumes inv: "walk_inv st0 l0 r0 P s"
    and s': "cells s' = cells s" "rebindTrail s' = rebindTrail s" "signalled s' = signalled s"
    and there: "\<And>x y. (x, y) \<in> P \<Longrightarrow> linked (cells s) Q x y"
    and conv: "\<And>\<sigma> x y. solves \<sigma> (cells s) \<Longrightarrow> \<forall>(a, b) \<in> P. \<sigma> a = \<sigma> b \<Longrightarrow> (x, y) \<in> Q \<Longrightarrow> \<sigma> x = \<sigma> y"
  shows "walk_inv st0 l0 r0 Q s'"
  by (rule inv_step[OF inv]) (use s' there conv in auto)

lemma inv_deref:
  assumes inv: "walk_inv st0 l0 r0 (insert (l, r) P) s" and d: "uderef (cells s) l = Some a" "uderef (cells s) r = Some b"
  shows "walk_inv st0 l0 r0 (insert (a, b) P) s"
proof (rule inv_pairs[OF inv])
  fix x y assume "(x, y) \<in> insert (l, r) P"
  moreover have "linked (cells s) (insert (a, b) P) l r"
    using linked_deref[OF d(1)] linked_deref[OF d(2)] linked_pair[of a b "insert (a, b) P"] linked_trans linked_sym by (metis insertI1)
  ultimately show "linked (cells s) (insert (a, b) P) x y" using linked_pair by blast
next
  fix \<sigma> x y assume h: "solves \<sigma> (cells s)" "\<forall>(a, b) \<in> insert (l, r) P. \<sigma> a = \<sigma> b" "(x, y) \<in> insert (a, b) P"
  have "\<sigma> a = \<sigma> b" using h(2) uderef_solves[OF d(1) h(1)] uderef_solves[OF d(2) h(1)] by simp
  then show "\<sigma> x = \<sigma> y" using h(2,3) by auto
qed simp_all

text \<open>The branches of \<open>processPair\<close> without patterns.\<close>

definition determined_pair :: "unode \<Rightarrow> unode \<Rightarrow> ustate \<Rightarrow> bool \<Rightarrow> ustate \<Rightarrow> bool" where
  "determined_pair a b s r s' \<longleftrightarrow>
     (\<not> r \<and> s' = s \<and> (type_of_cell (cells s a) \<noteq> type_of_cell (cells s b) \<or> structuralBehavior (cells s a) = SbTokenEq)) \<or>
     (\<exists>v w. cells s a = USimple v \<and> cells s b = USimple w \<and> r = value_equals v w \<and> s' = s) \<or>
     (\<not> r \<and> s' = s \<and> structural_equals (cells s a) (cells s b) (walkStack s) = Some None) \<or>
     (\<exists>stack. r \<and> structural_equals (cells s a) (cells s b) (walkStack s) = Some (Some stack) \<and> s' = rebind a b (s\<lparr>walkStack := stack\<rparr>))"

lemma processPair_cases:
  assumes "processPair kind e a b s = Some (r, s')" "kind \<noteq> WkPatternMatch"
  obtains (same) "a = b" "r = Inr True" "s' = s"
  | (bind) x y q where "kind = WkUnify" "(x, y) = (a, b) \<or> (x, y) = (b, a)" "bind_variable e x y s = Some (q, s')"
      "r = map_sum id (\<lambda>_. True) q"
  | (wait) n where "kind = WkEquals" "r = Inl (WaitBefore n)" "s' = s"
  | (det) r' where "a \<noteq> b" "\<not> isTransient (cells s a)" "\<not> isTransient (cells s b)" "r = Inr r'" "determined_pair a b s r' s'"
proof (cases "a = b")
  case True
  then show thesis using assms same by (simp add: processPair_def Let_def)
next
  case False
  let ?v = "\<lambda>n. structuralBehavior (cells s n) = SbVariable"
  show thesis
  proof (cases "?v a \<or> ?v b")
    case True
    show thesis
    proof (cases kind)
      case WkUnify
      define p where "p = (if ?v a \<and> (?v b \<longrightarrow> bindingPriority (cells s a) > bindingPriority (cells s b)) then (a, b) else (b, a))"
      have "map_option (\<lambda>(r, s). (map_sum id (\<lambda>_. True) r, s)) (bind_variable e (fst p) (snd p) s) = Some (r, s')"
        using assms(1) False True WkUnify by (auto simp: processPair_def Let_def p_def split: if_splits)
      then obtain q where "bind_variable e (fst p) (snd p) s = Some (q, s')" "r = map_sum id (\<lambda>_. True) q" by auto
      moreover have "(fst p, snd p) = (a, b) \<or> (fst p, snd p) = (b, a)" by (simp add: p_def)
      ultimately show thesis using bind WkUnify by blast
    next
      case WkEquals
      then show thesis using assms(1) False True wait by (auto simp: processPair_def Let_def split: if_splits)
    qed (use assms(2) in simp)
  next
    case det2: False
    have na: "\<not> isTransient (cells s a)" and nb: "\<not> isTransient (cells s b)" using det2 by (auto simp: isTransient_def)
    have d: "(if type_of_cell (cells s a) \<noteq> type_of_cell (cells s b) then Some (Inr False, s)
             else case structuralBehavior (cells s a) of
                SbValue \<Rightarrow>
                  (case (cells s a, cells s b) of (USimple v, USimple w) \<Rightarrow> Some (Inr (value_equals v w), s) | _ \<Rightarrow> None)
              | SbStructural \<Rightarrow>
                  Option.bind (structural_equals (cells s a) (cells s b) (walkStack s)) (\<lambda>r.
                    case r of
                      None \<Rightarrow> Some (Inr False, s)
                    | Some stack \<Rightarrow> Some (Inr True, rebind a b (s\<lparr>walkStack := stack\<rparr>)))
              | SbTokenEq \<Rightarrow> Some (Inr False, s)
              | SbVariable \<Rightarrow> None) = Some (r, s')"
      using assms False det2 by (cases kind) (simp_all add: processPair_def Let_def cong del: behaviour.case_cong_weak option.case_cong_weak if_weak_cong)
    show thesis
    proof (cases "type_of_cell (cells s a) = type_of_cell (cells s b)")
      case False
      then show thesis using d det[OF \<open>a \<noteq> b\<close> na nb, of False] by (simp add: determined_pair_def)
    next
      case True
      then have nn: "\<not> type_of_cell (cells s a) \<noteq> type_of_cell (cells s b)" by simp
      note d = d[unfolded if_not_P[OF nn]]
      show thesis
      proof (cases "structuralBehavior (cells s a)")
        case SbTokenEq
        then show thesis using d det[OF \<open>a \<noteq> b\<close> na nb, of False] by (simp add: determined_pair_def)
      next
        case SbValue
        then obtain v w where "cells s a = USimple v" "cells s b = USimple w" "r = Inr (value_equals v w)" "s' = s"
          using d by (auto split: ucell.splits)
        then show thesis using det[OF \<open>a \<noteq> b\<close> na nb, of "value_equals v w"] by (simp add: determined_pair_def)
      next
        case SbStructural
        then consider "structural_equals (cells s a) (cells s b) (walkStack s) = Some None" "r = Inr False" "s' = s"
          | stack where "structural_equals (cells s a) (cells s b) (walkStack s) = Some (Some stack)" "r = Inr True"
              "s' = rebind a b (s\<lparr>walkStack := stack\<rparr>)"
          using d by (auto simp: bind_eq_Some_conv split: option.splits)
        then show thesis
        proof cases
          case 1
          then show thesis using det[OF \<open>a \<noteq> b\<close> na nb, of False] by (simp add: determined_pair_def)
        next
          case 2
          then show thesis using det[OF \<open>a \<noteq> b\<close> na nb, of True] by (simp add: determined_pair_def)
        qed
      qed (use det2 in simp)
    qed
  qed
qed

lemma determined_true:
  assumes inv: "walk_inv st0 l0 r0 (insert (a, b) (todo s)) s" and d: "determined_pair a b s True s'" "a \<noteq> b"
  shows "walk_inv st0 l0 r0 (todo s') s'"
proof -
  from d consider v w where "cells s a = USimple v" "cells s b = USimple w" "value_equals v w" "s' = s"
    | stack where "structural_equals (cells s a) (cells s b) (walkStack s) = Some (Some stack)" "s' = rebind a b (s\<lparr>walkStack := stack\<rparr>)"
    by (auto simp: determined_pair_def)
  then show ?thesis
  proof cases
    case 1
    have "linked (cells s) (todo s) a b" using 1 value_equals_class by (intro linked_tie) (auto simp: tie_def)
    then show ?thesis unfolding 1(4) by (intro inv_pairs[OF inv]) (auto intro: linked_pair)
  next
    case 2
    obtain l ns ms where sh: "shape a (cells s a) = Some (l, ns)" "shape b (cells s b) = Some (l, ms)" "length ns = length ms"
      "\<not> isCopyableCell (cells s b)" "stack_pairs stack = set (zip ns ms) \<union> stack_pairs (walkStack s)"
      using structural_equals_spec[OF 2(1), of a b] by blast
    have v: "\<forall>v. cells s a \<noteq> USimple v" using 2(1) by (auto simp: structural_equals_def)
    have t: "todo s' = set (zip ns ms) \<union> todo s" using sh(5) by (auto simp: todo_def 2(2))
    show ?thesis
    proof (rule inv_rebind[OF inv _ d(2) sh(1,2,3,4) v])
      show "insert (a, b) (todo s) \<subseteq> insert (a, b) (todo s')" "set (zip ns ms) \<subseteq> todo s'"
        "todo s' \<subseteq> insert (a, b) (todo s) \<union> set (zip ns ms)"
        unfolding t by blast+
    qed (simp_all add: 2(2) rebind_def reinit_node_def)
  qed
qed

lemma determined_false:
  assumes d: "determined_pair a b s False s'" "a \<noteq> b" "\<not> isTransient (cells s a)" "\<not> isTransient (cells s b)"
    and r: "\<forall>k. cells s a \<noteq> URef k" "\<forall>k. cells s b \<noteq> URef k" and nan: "no_nan (cells s)" and sol: "solves \<sigma> (cells s)"
  shows "s' = s \<and> \<sigma> a \<noteq> \<sigma> b"
proof -
  obtain l ns where a: "shape a (cells s a) = Some (l, ns)" using cell_kinds[of "cells s a" a] d(3) r(1) by blast
  obtain k ms where b: "shape b (cells s b) = Some (k, ms)" using cell_kinds[of "cells s b" b] d(4) r(2) by blast
  have "l \<noteq> k \<or> length ns \<noteq> length ms"
  proof (rule ccontr)
    assume "\<not> (l \<noteq> k \<or> length ns \<noteq> length ms)"
    then have e: "l = k" "length ns = length ms" by simp_all
    have ty: "type_of_cell (cells s a) = type_of_cell (cells s b) \<and> structuralBehavior (cells s a) \<noteq> SbTokenEq"
      using a b e(1) d(2) by (intro shape_same_type[of a _ l ns b _ ms]) simp_all
    then consider v w where "cells s a = USimple v" "cells s b = USimple w" "\<not> value_equals v w"
      | "structural_equals (cells s a) (cells s b) (walkStack s) = Some None"
      using d(1) by (auto simp: determined_pair_def)
    then show False
    proof cases
      case 1
      then have "simple_class v = simple_class w" using a b e(1) by auto
      then show False using 1 nan class_value_equals unfolding no_nan_def by blast
    next
      case 2
      then show False using structural_equals_differ[OF 2, of a b] a b e by auto
    qed
  qed
  then have "\<sigma> a \<noteq> \<sigma> b" using solvesD(3)[OF sol a] solvesD(3)[OF sol b] by (auto dest: map_eq_imp_length_eq)
  moreover have "s' = s" using d(1) by (auto simp: determined_pair_def)
  ultimately show ?thesis by simp
qed

section \<open>The walk\<close>

text \<open>The pairs of a state: the current one, and those that remain.\<close>

definition ready :: "(unode \<Rightarrow> ucell) \<Rightarrow> unode \<Rightarrow> unode \<Rightarrow> unode \<Rightarrow> unode \<Rightarrow> ustate \<Rightarrow> bool" where
  "ready st0 l0 r0 l r s \<longleftrightarrow> walk_inv st0 l0 r0 (insert (l, r) (todo s)) s"

definition finished :: "(unode \<Rightarrow> ucell) \<Rightarrow> unode \<Rightarrow> unode \<Rightarrow> exn + bool \<Rightarrow> ustate \<Rightarrow> bool" where
  "finished st0 l0 r0 res s \<longleftrightarrow>
     (res = Inr True \<longrightarrow> walk_inv st0 l0 r0 (todo s) s \<and> walkStack s = []) \<and>
     (res \<noteq> Inr True \<longrightarrow> rebindTrail s = []) \<and>
     (res = Inr False \<longrightarrow> no_nan st0 \<longrightarrow> (\<forall>\<sigma>. solves \<sigma> st0 \<longrightarrow> \<sigma> l0 = \<sigma> r0 \<longrightarrow> \<not> all_unit \<sigma> (signalled s))) \<and>
     (\<forall>\<sigma>. solves \<sigma> st0 \<longrightarrow> \<sigma> l0 = \<sigma> r0 \<longrightarrow> all_unit \<sigma> (signalled s) \<longrightarrow> solves \<sigma> (cells s))"

lemma cleanup_fields [simp]:
  "cells (cleanupOnFailure s) = undone s" "rebindTrail (cleanupOnFailure s) = []" "signalled (cleanupOnFailure s) = signalled s"
  "undone (cleanupOnFailure s) = undone s"
  by (simp_all add: cleanupOnFailure_def undoBindings_def undone_def)

lemma inv_solutions: "walk_inv st0 l0 r0 P s \<Longrightarrow> solves \<sigma> st0 \<Longrightarrow> \<sigma> l0 = \<sigma> r0 \<Longrightarrow> all_unit \<sigma> (signalled s) \<Longrightarrow>
   solves \<sigma> (cells s) \<and> solves \<sigma> (undone s) \<and> (\<forall>(a, b) \<in> P. \<sigma> a = \<sigma> b)"
  by (simp add: walk_inv_def)

lemma inv_cleanup: "walk_inv st0 l0 r0 P s \<Longrightarrow> finished st0 l0 r0 (Inl x) (cleanupOnFailure s)"
  by (auto simp: finished_def dest: inv_solutions)

lemma next_ready:
  assumes "next_pair s = Some (Inr (l, r, s'))" "walk_inv st0 l0 r0 (todo s) s"
  shows "ready st0 l0 r0 l r s'"
proof -
  obtain stack where p: "pop_pair (walkStack s) = Some ((l, r), stack)" "s' = s\<lparr>walkStack := stack\<rparr>"
    using assms(1) by (auto simp: next_pair_def split: if_splits)
  have "todo s = insert (l, r) (todo s')" using stack_pairs_pop[OF p(1)] by (auto simp: todo_def p(2))
  then show ?thesis unfolding ready_def
    by (intro inv_pairs[OF assms(2)]) (auto simp: p(2) intro: linked_pair)
qed

lemma next_finished:
  assumes "next_pair s = Some (Inl (res, s'))" "walk_inv st0 l0 r0 (todo s) s"
  shows "finished st0 l0 r0 res s'"
  using assms by (auto simp: next_pair_def finished_def dest: inv_solutions split: if_splits)

text \<open>Both outcomes of a turn.\<close>

definition turn_ok :: "(unode \<Rightarrow> ucell) \<Rightarrow> unode \<Rightarrow> unode \<Rightarrow> turn \<Rightarrow> bool" where
  "turn_ok st0 l0 r0 t \<longleftrightarrow>
     (case t of Inl (res, s) \<Rightarrow> finished st0 l0 r0 res s | Inr (l, r, s) \<Rightarrow> ready st0 l0 r0 l r s)"

lemma next_ok: "next_pair s = Some t \<Longrightarrow> walk_inv st0 l0 r0 (todo s) s \<Longrightarrow> turn_ok st0 l0 r0 t"
  using next_ready next_finished by (cases t) (auto simp: turn_ok_def)

lemma raised_ok:
  assumes "after_pair a b (Inl x) s = Some t" "ready st0 l0 r0 a b s"
  shows "turn_ok st0 l0 r0 t"
proof -
  note inv = assms(2)[unfolded ready_def]
  consider "t = Inl (Inl x, cleanupOnFailure s)" | "next_pair (s\<lparr>suspendTrail := suspendTrail s @ [(a, b)]\<rparr>) = Some t"
  proof (cases x)
    case (WaitBefore n)
    then show thesis using assms(1) that by (cases "cells s n") (simp_all add: after_pair_def)
  next
    case (RaiseUnderlying n)
    then show thesis using assms(1) that(1) by (simp add: after_pair_def)
  qed
  then show ?thesis
  proof cases
    case 1
    then show ?thesis using inv_cleanup[OF inv] by (simp add: turn_ok_def)
  next
    case 2
    have "todo (s\<lparr>suspendTrail := suspendTrail s @ [(a, b)]\<rparr>) = insert (a, b) (todo s)" by (auto simp: todo_def)
    then have "walk_inv st0 l0 r0 (todo (s\<lparr>suspendTrail := suspendTrail s @ [(a, b)]\<rparr>)) (s\<lparr>suspendTrail := suspendTrail s @ [(a, b)]\<rparr>)"
      by (intro inv_pairs[OF inv]) (auto intro: linked_pair)
    with 2 show ?thesis by (rule next_ok)
  qed
qed

lemma after_true: "after_pair a b (Inr True) s = next_pair s"
  by (simp add: after_pair_def)

lemma after_false: "after_pair a b (Inr False) s = Some (Inl (Inr False, cleanupOnFailure s))"
  by (simp add: after_pair_def)

lemma pair_ok:
  assumes p: "processPair kind e a b s = Some (res, s1)" and t: "after_pair a b res s1 = Some t" and k: "kind \<noteq> WkPatternMatch"
    and r: "\<forall>k. cells s a \<noteq> URef k" "\<forall>k. cells s b \<noteq> URef k" and ready: "ready st0 l0 r0 a b s"
  shows "turn_ok st0 l0 r0 t"
proof -
  note inv = ready[unfolded ready_def]
  show ?thesis
    using p k
  proof (cases rule: processPair_cases)
    case same
    have "walk_inv st0 l0 r0 (todo s1) s1" by (rule inv_pairs[OF inv]) (auto simp: same intro: linked_pair)
    then show ?thesis using t next_ok by (simp add: same after_true)
  next
    case (bind x y q)
    show ?thesis
    proof (cases q)
      case (Inl ex)
      then have "s1 = s" using bind(3) bind_variable_raises by blast
      then show ?thesis using t ready bind(4) Inl by (auto intro: raised_ok)
    next
      case (Inr u)
      have "binds x y s s1" using bind(2,3) r Inr by (intro bind_variable_binds[of e x y s u]) auto
      moreover from this have "todo s1 = todo s" by (simp add: binds_def todo_def)
      ultimately have "walk_inv st0 l0 r0 (todo s1) s1" using bind(2) by (intro inv_bind[OF inv, of a b]) auto
      then show ?thesis using t next_ok bind(4) Inr by (simp add: after_true)
    qed
  next
    case (wait n)
    then show ?thesis using t ready by (auto intro: raised_ok)
  next
    case (det r')
    show ?thesis
    proof (cases r')
      case True
      then have "walk_inv st0 l0 r0 (todo s1) s1" using det(1,5) by (intro determined_true[OF inv]) simp_all
      then show ?thesis using t next_ok det(4) True by (simp add: after_true)
    next
      case False
      then have d: "determined_pair a b s False s1" using det(5) by simp
      have nan: "no_nan st0 \<longrightarrow> no_nan (cells s)" using inv by (simp add: walk_inv_def)
      have s1: "s1 = s" using d by (auto simp: determined_pair_def)
      have differ: "\<sigma> a \<noteq> \<sigma> b" if "no_nan st0" "solves \<sigma> (cells s)" for \<sigma>
        using determined_false[OF d det(1,2,3) r _ that(2)] nan that(1) by blast
      have "finished st0 l0 r0 (Inr False) (cleanupOnFailure s)"
        unfolding finished_def using inv_solutions[OF inv] differ by auto
      moreover have "t = Inl (Inr False, cleanupOnFailure s)" using t det(4) False s1 by (simp add: after_false)
      ultimately show ?thesis by (simp add: turn_ok_def)
    qed
  qed
qed

lemma turn_ok:
  assumes t: "walk_turn kind e l r s = Some t" and k: "kind \<noteq> WkPatternMatch" and ready: "ready st0 l0 r0 l r s"
  shows "turn_ok st0 l0 r0 t"
proof -
  obtain a b res s1 where d: "uderef (cells s) l = Some a" "uderef (cells s) r = Some b"
    and p: "processPair kind e a b s = Some (res, s1)" and t': "after_pair a b res s1 = Some t"
    using t by (auto simp: walk_turn_def bind_eq_Some_conv)
  have "ready st0 l0 r0 a b s" using ready d unfolding ready_def by (rule inv_deref)
  then show ?thesis using uderef_end[OF d(1)] uderef_end[OF d(2)] pair_ok[OF p t' k] by blast
qed

lemma run_pairs_finished:
  assumes run: "run_pairs kind e l r s = Some (res, s')" and k: "kind \<noteq> WkPatternMatch" and ready: "ready st0 l0 r0 l r s"
  shows "finished st0 l0 r0 res s'"
proof -
  have "kind \<noteq> WkPatternMatch \<longrightarrow> ready st0 l0 r0 l r s \<longrightarrow> finished st0 l0 r0 (fst (res, s')) (snd (res, s'))"
  proof (rule run_pairs.raw_induct[OF _ run, where P = "\<lambda>kind e l r s y. kind \<noteq> WkPatternMatch \<longrightarrow> ready st0 l0 r0 l r s \<longrightarrow>
      finished st0 l0 r0 (fst y) (snd y)"], intro impI)
    fix rp kind e l r s y
    assume IH: "\<And>kind e l r s y. rp kind e l r s = Some y \<Longrightarrow>
        kind \<noteq> WkPatternMatch \<longrightarrow> ready st0 l0 r0 l r s \<longrightarrow> finished st0 l0 r0 (fst y) (snd y)"
      and body: "(case walk_turn kind e l r s of
        None \<Rightarrow> None
      | Some (Inl result) \<Rightarrow> Some result
      | Some (Inr (left, right, s)) \<Rightarrow> rp kind e left right s) = Some y"
      and k: "kind \<noteq> WkPatternMatch" and ready: "ready st0 l0 r0 l r s"
    obtain t where t: "walk_turn kind e l r s = Some t" using body by (auto split: option.splits)
    note ok = turn_ok[OF t k ready]
    show "finished st0 l0 r0 (fst y) (snd y)"
    proof (cases t)
      case (Inl result)
      then show ?thesis using body t ok by (auto simp: turn_ok_def)
    next
      case (Inr p)
      obtain l' r' s1 where "p = (l', r', s1)" by (cases p)
      then show ?thesis using body t ok Inr k IH by (auto simp: turn_ok_def)
    qed
  qed
  then show ?thesis using k ready by simp
qed

text \<open>The start and the end of the walk.\<close>

lemma ready_start:
  assumes "signalled s = []"
  shows "ready (cells s) l r l r (s\<lparr>walkStack := [], rebindTrail := [], suspendTrail := []\<rparr>)"
  by (auto simp: ready_def walk_inv_def todo_def stack_pairs_def undone_def rebound_ok_def forward_def assms intro: linked_pair)

text \<open>With no pairs left, links are equations of the store itself, the temporary references included.\<close>

lemma linked_same: "linked st {} a b \<Longrightarrow> solves \<sigma> st \<Longrightarrow> \<sigma> a = \<sigma> b"
  unfolding linked_def
proof (induction rule: equivclp_induct)
  case (step y z)
  have "\<sigma> y = \<sigma> z" if t: "tie st y z" for y z
    using t solvesD(1)[OF step(4), of y z] solvesD(3)[OF step(4), of y] solvesD(3)[OF step(4), of z] by (auto simp: tie_def)
  then show ?case using step(2,3,4) by auto
qed simp

lemma cells_undone:
  assumes inv: "walk_inv st0 l0 r0 {} s" and sol: "solves \<sigma> (cells s)"
  shows "solves \<sigma> (undone s)"
proof -
  note ok = inv_rebound[OF inv]
  let ?ns = "map fst (rebindTrail s)"
  have links: "list_all2 (linked (cells s) {}) ns ms \<Longrightarrow> map \<sigma> ns = map \<sigma> ms" for ns ms
    using linked_same[OF _ sol] by (auto simp: list_all2_conv_all_nth intro: nth_equalityI)
  have trail: "\<sigma> n = Tree l (map \<sigma> ns)"
    if "i < length ?ns" "?ns ! i = n" "shape n (undone s n) = Some (l, ns)" for i n l ns
    using that
  proof (induction "length ?ns - i" arbitrary: i n l ns rule: less_induct)
    case less
    have n: "n \<in> fst ` set (rebindTrail s)" using less(2,3) by (metis nth_mem set_map)
    obtain m k ks ms where m: "cells s n = URef m" "shape n (undone s n) = Some (k, ks)" "shape m (undone s m) = Some (k, ms)"
      "list_all2 (linked (cells s) {}) ks ms"
      using rebound_entry[OF ok n] .
    have e: "k = l" "ks = ns" using m(2) less(4) by simp_all
    obtain m' where "cells s (fst (rebindTrail s ! i)) = URef m'" "m' \<notin> set (take (Suc i) ?ns)"
      using ok less(2) by (auto simp: rebound_ok_def forward_def)
    then have later: "m \<notin> set (take (Suc i) ?ns)" using m(1) less(2,3) by simp
    have "\<sigma> m = Tree k (map \<sigma> ms)"
    proof (cases "m \<in> set ?ns")
      case True
      then obtain j where j: "j < length ?ns" "?ns ! j = m" by (metis in_set_conv_nth)
      have "\<not> j < Suc i" using later j by (metis in_set_conv_nth length_take min_less_iff_conj nth_take)
      then have "length ?ns - j < length ?ns - i" using j(1) by simp
      then show ?thesis using less(1) j m(3) by blast
    next
      case False
      then have "undone s m = cells s m" by (simp add: undone_other)
      then show ?thesis using m(3) solvesD(3)[OF sol, of m] by simp
    qed
    then show ?case using solvesD(1)[OF sol m(1)] links[OF m(4)] e by simp
  qed
  show ?thesis
    unfolding solves_def
  proof (intro allI)
    fix n
    show "(\<forall>m. undone s n = URef m \<longrightarrow> \<sigma> n = \<sigma> m) \<and> (\<forall>u. undone s n = UReadOnly u \<longrightarrow> \<sigma> n = \<sigma> u) \<and>
        (\<forall>l ns. shape n (undone s n) = Some (l, ns) \<longrightarrow> \<sigma> n = Tree l (map \<sigma> ns))"
    proof (cases "n \<in> fst ` set (rebindTrail s)")
      case True
      then have "n \<in> set ?ns" by simp
      then obtain i where i: "i < length ?ns" "?ns ! i = n" by (metis in_set_conv_nth)
      obtain l ns where "shape n (undone s n) = Some (l, ns)" using rebound_entry[OF ok True] by metis
      then show ?thesis using trail[OF i] shape_determined[of n "undone s n"] by (auto simp: isTransient_def)
    next
      case False
      then show ?thesis using solvesD[OF sol, of n] by (simp add: undone_other)
    qed
  qed
qed

lemma inv_equivalent:
  assumes "walk_inv st0 l0 r0 {} s"
  shows "solves \<sigma> (cells s) \<longleftrightarrow> solves \<sigma> st0 \<and> \<sigma> l0 = \<sigma> r0 \<and> all_unit \<sigma> (signalled s)"
    and "solves \<sigma> (undone s) \<longleftrightarrow> solves \<sigma> st0 \<and> \<sigma> l0 = \<sigma> r0 \<and> all_unit \<sigma> (signalled s)"
proof -
  have up: "solves \<sigma> st0 \<and> \<sigma> l0 = \<sigma> r0 \<and> all_unit \<sigma> (signalled s)" if "solves \<sigma> (undone s)"
    using walk_sound[OF assms that] by simp
  have down: "solves \<sigma> (cells s) \<and> solves \<sigma> (undone s)" if "solves \<sigma> st0 \<and> \<sigma> l0 = \<sigma> r0 \<and> all_unit \<sigma> (signalled s)"
    using inv_solutions[OF assms, of \<sigma>] that by simp
  show "solves \<sigma> (cells s) \<longleftrightarrow> solves \<sigma> st0 \<and> \<sigma> l0 = \<sigma> r0 \<and> all_unit \<sigma> (signalled s)"
    using up down cells_undone[OF assms, of \<sigma>] by blast
  show "solves \<sigma> (undone s) \<longleftrightarrow> solves \<sigma> st0 \<and> \<sigma> l0 = \<sigma> r0 \<and> all_unit \<sigma> (signalled s)"
    using up down by blast
qed

lemma finished_unified:
  assumes "finished st0 l0 r0 (Inr True) s" "suspendTrail s = []"
  shows "solves \<sigma> (cells s) \<longleftrightarrow> solves \<sigma> st0 \<and> \<sigma> l0 = \<sigma> r0 \<and> all_unit \<sigma> (signalled s)"
    and "solves \<sigma> (undone s) \<longleftrightarrow> solves \<sigma> st0 \<and> \<sigma> l0 = \<sigma> r0 \<and> all_unit \<sigma> (signalled s)"
proof -
  have "todo s = {}" using assms by (simp add: finished_def todo_def stack_pairs_def)
  then have "walk_inv st0 l0 r0 {} s" using assms(1) by (simp add: finished_def)
  then show "solves \<sigma> (cells s) \<longleftrightarrow> solves \<sigma> st0 \<and> \<sigma> l0 = \<sigma> r0 \<and> all_unit \<sigma> (signalled s)"
    "solves \<sigma> (undone s) \<longleftrightarrow> solves \<sigma> st0 \<and> \<sigma> l0 = \<sigma> r0 \<and> all_unit \<sigma> (signalled s)"
    using inv_equivalent by blast+
qed

text \<open>The suspension after the walk.\<close>

lemma suspend_on_gentle: "suspend_on e control n s = Some s' \<Longrightarrow> gentle s s'"
  unfolding suspend_on_def using markNeeded_gentle addToSuspendList_gentle gentle_trans
  by (auto simp: bind_eq_Some_conv split: if_splits) blast

lemma suspend_pairs_gentle: "suspend_pairs e control ps s = Some s' \<Longrightarrow> gentle s s'"
proof (induction ps arbitrary: s)
  case (Cons p ps)
  obtain l r where p: "p = (l, r)" by (cases p)
  obtain n t m u where "suspend_on e control n s = Some t" "suspend_on e control m t = Some u" "suspend_pairs e control ps u = Some s'"
    using Cons(2) p by (auto simp: bind_eq_Some_conv)
  then show ?case using Cons(1) suspend_on_gentle gentle_trans by blast
qed simp

lemma suspend_all_gentle:
  assumes "suspend_all e control ps s = Some s'"
  shows "gentle s s'"
proof -
  consider "suspend_pairs e control ps s = Some s'"
    | n m t where "suspend_on e control n s = Some t" "suspend_on e control m t = Some s'"
    using assms by (auto simp: suspend_all_def bind_eq_Some_conv split: list.splits simp del: suspend_pairs.simps)
  then show ?thesis by cases (blast intro: suspend_pairs_gentle suspend_on_gentle gentle_trans)+
qed

lemma gentle_solutions:
  "gentle s s' \<Longrightarrow> solves \<sigma> (cells s) \<Longrightarrow> all_unit \<sigma> (signalled s') \<Longrightarrow> solves \<sigma> (cells s')"
  by (simp add: gentle_def)

lemma gentle_signalled: "gentle s s' \<Longrightarrow> all_unit \<sigma> (signalled s') \<Longrightarrow> all_unit \<sigma> (signalled s)"
  by (auto simp: gentle_def all_unit_def)

lemma undo_fields [simp]:
  "cells (undoBindings s) = undone s" "signalled (undoBindings s) = signalled s" "suspendTrail (undoBindings s) = suspendTrail s"
  "rebindTrail (undoBindings s) = []"
  by (simp_all add: undoBindings_def undone_def)

text \<open>The results of \<open>run\<close>.\<close>

lemma run_cases:
  assumes "run kind e l r s = Some (res, s')" "kind \<noteq> WkPatternMatch" "signalled s = []"
  obtains (unified) t where "res = Inr True" "finished (cells s) l r (Inr True) t" "suspendTrail t = []"
      "s' = (if onTopLevel e then t else undoBindings t)"
  | (ended) "res \<noteq> Inr True" "finished (cells s) l r res s'"
  | (suspended) t u where "res = Inl (WaitBefore (controlNode e))" "finished (cells s) l r (Inr True) t"
      "gentle (become_variable e (controlNode e) False [] (undoBindings t)) u" "s' = u\<lparr>suspendTrail := []\<rparr>"
proof -
  let ?s = "s\<lparr>walkStack := [], rebindTrail := [], suspendTrail := []\<rparr>"
  obtain q t where w: "run_pairs kind e l r ?s = Some (q, t)"
    and rest: "(case q of
         Inr True \<Rightarrow>
           (if suspendTrail t \<noteq> [] then
              (let pairs = suspendTrail t; s = become_variable e (controlNode e) False [] (undoBindings t)
               in map_option (\<lambda>s. (Inl (WaitBefore (controlNode e)), s\<lparr>suspendTrail := []\<rparr>))
                    (suspend_all e (controlNode e) pairs s))
            else Some (Inr True, if \<not> onTopLevel e then undoBindings t else t))
       | _ \<Rightarrow> Some (q, t)) = Some (res, s')"
    using assms(1) unfolding run_def by (fastforce simp only: bind_eq_Some_conv prod.case)
  have f: "finished (cells s) l r q t" by (rule run_pairs_finished[OF w assms(2) ready_start[OF assms(3)]])
  show thesis
  proof (cases "q = Inr True")
    case True
    show thesis
    proof (cases "suspendTrail t = []")
      case none: True
      then show thesis using rest True f unified by auto
    next
      case False
      then obtain u where u: "suspend_all e (controlNode e) (suspendTrail t) (become_variable e (controlNode e) False [] (undoBindings t)) = Some u"
        "res = Inl (WaitBefore (controlNode e))" "s' = u\<lparr>suspendTrail := []\<rparr>"
        using rest True by (auto simp: Let_def)
      show thesis using suspended[OF u(2) _ suspend_all_gentle[OF u(1)] u(3)] f True by simp
    qed
  next
    case False
    then have "res = q \<and> s' = t" using rest by (auto split: sum.splits bool.splits)
    then show thesis using f False ended by simp
  qed
qed

lemma drop_variable:
  "solves \<sigma> (cells s) \<Longrightarrow> solves \<sigma> (cells (become_variable e n b ps s))"
  by (auto simp: become_variable_def intro!: solves_upd)

section \<open>Equality\<close>

text \<open>The walk of an equality binds nothing: without the temporary references the store stays as it is.\<close>

definition quiet :: "ustate \<Rightarrow> ustate \<Rightarrow> bool" where
  "quiet s s' \<longleftrightarrow> undone s' = undone s \<and> signalled s' = signalled s"

definition quiet_turn :: "ustate \<Rightarrow> turn \<Rightarrow> bool" where
  "quiet_turn s t \<longleftrightarrow> (case t of Inl (res, s') \<Rightarrow> quiet s s' | Inr (l, r, s') \<Rightarrow> quiet s s')"

lemma quiet_frame: "cells s' = cells s \<Longrightarrow> rebindTrail s' = rebindTrail s \<Longrightarrow> signalled s' = signalled s \<Longrightarrow> quiet s s'"
  by (simp add: quiet_def undone_def)

lemma quiet_trans: "quiet s s' \<Longrightarrow> quiet s' s'' \<Longrightarrow> quiet s s''"
  by (simp add: quiet_def)

lemma next_quiet: "next_pair s = Some t \<Longrightarrow> quiet_turn s t"
  by (auto simp: next_pair_def quiet_turn_def quiet_def undone_def split: if_splits)

lemma quiet_turn_trans: "quiet s s1 \<Longrightarrow> quiet_turn s1 t \<Longrightarrow> quiet_turn s t"
  by (auto simp: quiet_turn_def quiet_def split: sum.splits prod.splits)

lemma cleanup_quiet: "quiet_turn s (Inl (res, cleanupOnFailure s))"
  by (simp add: quiet_turn_def quiet_def)

lemma after_quiet:
  assumes "after_pair a b res s = Some t"
  shows "quiet_turn s t"
proof -
  consider "next_pair s = Some t" | q where "t = Inl (q, cleanupOnFailure s)"
    | "next_pair (s\<lparr>suspendTrail := suspendTrail s @ [(a, b)]\<rparr>) = Some t"
  proof (cases res)
    case (Inr y)
    then show thesis using assms that(1,2) by (cases y) (auto simp: after_pair_def)
  next
    case (Inl x)
    show thesis
    proof (cases x)
      case (WaitBefore n)
      then show thesis using assms that Inl by (cases "cells s n") (auto simp: after_pair_def)
    next
      case (RaiseUnderlying n)
      then show thesis using assms that(2) Inl by (auto simp: after_pair_def)
    qed
  qed
  then show ?thesis
  proof cases
    case 3
    have "quiet s (s\<lparr>suspendTrail := suspendTrail s @ [(a, b)]\<rparr>)" by (rule quiet_frame) simp_all
    then show ?thesis using next_quiet[OF 3] by (rule quiet_turn_trans)
  qed (simp_all add: next_quiet cleanup_quiet)
qed

lemma turn_quiet:
  assumes t: "walk_turn WkEquals e l r s = Some t" and ready: "ready st0 l0 r0 l r s"
  shows "quiet_turn s t"
proof -
  obtain a b res s1 where d: "uderef (cells s) l = Some a" "uderef (cells s) r = Some b"
    and p: "processPair WkEquals e a b s = Some (res, s1)" and t': "after_pair a b res s1 = Some t"
    using t by (auto simp: walk_turn_def bind_eq_Some_conv)
  have ok: "rebound_ok (insert (l, r) (todo s)) s" using ready inv_rebound by (simp add: ready_def)
  have k: "WkEquals \<noteq> WkPatternMatch" by simp
  have "quiet s s1"
    using p k
  proof (cases rule: processPair_cases)
    case (det r')
    show ?thesis
    proof (cases "s1 = s")
      case False
      then obtain stack where st: "structural_equals (cells s a) (cells s b) (walkStack s) = Some (Some stack)"
        "s1 = rebind a b (s\<lparr>walkStack := stack\<rparr>)"
        using det(5) by (auto simp: determined_pair_def)
      have a: "a \<notin> fst ` set (rebindTrail s)" using rebound_ref[OF ok] uderef_end[OF d(1)] by blast
      have c: "\<not> isCopyableCell (cells s b)" using structural_equals_spec[OF st(1), of a b] by blast
      then have "undone (rebind a b s) = undone s" using ok a det(1) by (intro undone_rebind) (simp_all add: rebound_ok_def)
      then show ?thesis using st(2) det(1) c by (simp add: quiet_def undone_def rebind_cells)
    qed (simp add: quiet_def)
  qed (simp_all add: quiet_def)
  then show ?thesis using after_quiet[OF t'] by (rule quiet_turn_trans)
qed

lemma run_pairs_quiet:
  assumes run: "run_pairs WkEquals e l r s = Some (res, s')" and ready: "ready st0 l0 r0 l r s"
  shows "quiet s s'"
proof -
  have "WkEquals = WkEquals \<longrightarrow> ready st0 l0 r0 l r s \<longrightarrow> quiet s (snd (res, s'))"
  proof (rule run_pairs.raw_induct[OF _ run, where P = "\<lambda>kind e l r s y. kind = WkEquals \<longrightarrow> ready st0 l0 r0 l r s \<longrightarrow>
      quiet s (snd y)"], intro impI)
    fix rp kind e l r s y
    assume IH: "\<And>kind e l r s y. rp kind e l r s = Some y \<Longrightarrow> kind = WkEquals \<longrightarrow> ready st0 l0 r0 l r s \<longrightarrow> quiet s (snd y)"
      and body: "(case walk_turn kind e l r s of
        None \<Rightarrow> None
      | Some (Inl result) \<Rightarrow> Some result
      | Some (Inr (left, right, s)) \<Rightarrow> rp kind e left right s) = Some y"
      and k: "kind = WkEquals" and ready: "ready st0 l0 r0 l r s"
    obtain t where t: "walk_turn WkEquals e l r s = Some t" using body k by (auto split: option.splits)
    have k': "WkEquals \<noteq> WkPatternMatch" by simp
    note q = turn_quiet[OF t ready] and ok = turn_ok[OF t k' ready]
    show "quiet s (snd y)"
    proof (cases t)
      case (Inl result)
      then show ?thesis using body t q k by (auto simp: quiet_turn_def)
    next
      case (Inr p)
      obtain l' r' s1 where p: "p = (l', r', s1)" by (cases p)
      have "rp WkEquals e l' r' s1 = Some y" using body t Inr k p by simp
      then have "quiet s1 (snd y)" using IH ok Inr p by (auto simp: turn_ok_def)
      then show ?thesis using q Inr p quiet_trans by (auto simp: quiet_turn_def)
    qed
  qed
  then show ?thesis using ready by simp
qed

lemma fullUnify_result:
  assumes "fullUnify e l r s = Some (outcome, s')"
  obtains res where "run WkUnify e l r s = Some (res, s')"
    "outcome = (case res of Inr True \<Rightarrow> Unified | Inr False \<Rightarrow> UnifyFailed | Inl x \<Rightarrow> UnifyRaised x)"
proof -
  obtain res where "run WkUnify e l r s = Some (res, s')"
    "outcome = (case res of Inr True \<Rightarrow> Unified | Inr False \<Rightarrow> UnifyFailed | Inl x \<Rightarrow> UnifyRaised x)"
    using assms by (auto simp: fullUnify_def)
  then show thesis by (rule that)
qed


section \<open>Types\<close>






section \<open>Properties\<close>

text \<open>C1. Unification solves the equation of its operands over rational trees, cyclic ones included. When
  it succeeds, the store that it leaves has exactly the solutions of the first store that make the operands
  equal and the variables that were woken unit, on the top level, where the temporary references stay, as in a
  subspace, where they are undone. When it fails there is no such solution. When it suspends or raises, none
  is lost.\<close>

theorem fullUnify_solutions:
  assumes "fullUnify e l r s = Some (outcome, s')" and "signalled s = []" and "no_nan (cells s)"
  shows "case outcome of
      Unified \<Rightarrow> \<forall>\<sigma>. solves \<sigma> (cells s') \<longleftrightarrow> solves \<sigma> (cells s) \<and> \<sigma> l = \<sigma> r \<and> all_unit \<sigma> (signalled s')
    | UnifyFailed \<Rightarrow> \<nexists>\<sigma>. solves \<sigma> (cells s) \<and> \<sigma> l = \<sigma> r \<and> all_unit \<sigma> (signalled s')
    | UnifyRaised _ \<Rightarrow> \<forall>\<sigma>. solves \<sigma> (cells s) \<and> \<sigma> l = \<sigma> r \<and> all_unit \<sigma> (signalled s') \<longrightarrow> solves \<sigma> (cells s')"
proof -
  obtain res where res: "run WkUnify e l r s = Some (res, s')"
    and o: "outcome = (case res of Inr True \<Rightarrow> Unified | Inr False \<Rightarrow> UnifyFailed | Inl x \<Rightarrow> UnifyRaised x)"
    using assms(1) by (rule fullUnify_result)
  from res show ?thesis
  proof (rule run_cases)
    show "WkUnify \<noteq> WkPatternMatch" by simp
    show "signalled s = []" by (rule assms(2))
  next
    fix t assume "res = Inr True" "finished (cells s) l r (Inr True) t" "suspendTrail t = []"
      "s' = (if onTopLevel e then t else undoBindings t)"
    then show ?thesis using finished_unified o by (cases "onTopLevel e") simp_all
  next
    assume "res \<noteq> Inr True" "finished (cells s) l r res s'"
    then show ?thesis using o assms(3) by (auto simp: finished_def split: sum.splits bool.splits)
  next
    fix t u assume h: "res = Inl (WaitBefore (controlNode e))" "finished (cells s) l r (Inr True) t"
      "gentle (become_variable e (controlNode e) False [] (undoBindings t)) u" "s' = u\<lparr>suspendTrail := []\<rparr>"
    have inv: "walk_inv (cells s) l r (todo t) t" using h(2) by (simp add: finished_def)
    have "solves \<sigma> (cells s')" if a: "solves \<sigma> (cells s)" "\<sigma> l = \<sigma> r" "all_unit \<sigma> (signalled s')" for \<sigma>
    proof -
      have u: "all_unit \<sigma> (signalled u)" using a(3) h(4) by simp
      have "all_unit \<sigma> (signalled t)" using gentle_signalled[OF h(3) u] by (simp add: become_variable_def)
      then have "solves \<sigma> (undone t)" using inv_solutions[OF inv a(1,2)] by blast
      then have "solves \<sigma> (cells u)" by (intro gentle_solutions[OF h(3) _ u] drop_variable) simp
      then show ?thesis using h(4) by simp
    qed
    then show ?thesis using o h(1) by simp
  qed
qed

text \<open>C3. The equality test decides entailment. When it answers true, the operands are equal in every solution
  of the store; when it answers false, in none, and the store is the same as before. With either answer the
  store keeps its solutions: the test binds no variable.\<close>

theorem fullEquals_correct:
  assumes "fullEquals e l r s = Some (Inr answer, s')" and "signalled s = []" and "no_nan (cells s)"
  shows "(if answer then \<forall>\<sigma>. solves \<sigma> (cells s) \<longrightarrow> \<sigma> l = \<sigma> r
          else cells s' = cells s \<and> (\<forall>\<sigma>. solves \<sigma> (cells s) \<longrightarrow> \<sigma> l \<noteq> \<sigma> r)) \<and>
    (\<forall>\<sigma>. solves \<sigma> (cells s') \<longleftrightarrow> solves \<sigma> (cells s))"
proof -
  let ?s = "s\<lparr>walkStack := [], rebindTrail := [], suspendTrail := []\<rparr>"
  note start = ready_start[OF assms(2), of l r]
  obtain q t where w: "run_pairs WkEquals e l r ?s = Some (q, t)"
    and rest: "(case q of
         Inr True \<Rightarrow>
           (if suspendTrail t \<noteq> [] then
              (let pairs = suspendTrail t; s = become_variable e (controlNode e) False [] (undoBindings t)
               in map_option (\<lambda>s. (Inl (WaitBefore (controlNode e)), s\<lparr>suspendTrail := []\<rparr>))
                    (suspend_all e (controlNode e) pairs s))
            else Some (Inr True, if \<not> onTopLevel e then undoBindings t else t))
       | _ \<Rightarrow> Some (q, t)) = Some (Inr answer, s')"
    using assms(1) unfolding fullEquals_def run_def by (fastforce simp only: bind_eq_Some_conv prod.case)
  have f: "finished (cells s) l r q t" by (rule run_pairs_finished[OF w _ start]) simp
  have "quiet ?s t" by (rule run_pairs_quiet[OF w start])
  then have und: "undone t = cells s" and sig: "signalled t = []" using assms(2) by (simp_all add: quiet_def undone_def)
  have unit: "all_unit \<sigma> []" for \<sigma> by (simp add: all_unit_def)
  show ?thesis
  proof (cases answer)
    case True
    then have q: "q = Inr True" and s': "s' = (if \<not> onTopLevel e then undoBindings t else t)" and none: "suspendTrail t = []"
      using rest by (auto simp: Let_def split: sum.splits bool.splits if_splits)
    note eqs = finished_unified[OF f[unfolded q] none, unfolded und sig]
    have "solves \<sigma> (cells s) \<Longrightarrow> \<sigma> l = \<sigma> r" for \<sigma> using eqs(2)[of \<sigma>] by blast
    moreover have "solves \<sigma> (cells s') \<longleftrightarrow> solves \<sigma> (cells s)" for \<sigma>
      using eqs[of \<sigma>] s' und by (cases "onTopLevel e") auto
    ultimately show ?thesis using True by simp
  next
    case False
    then have q: "q = Inr False" and s': "s' = t" using rest by (auto simp: Let_def split: sum.splits bool.splits if_splits)
    have "rebindTrail t = []" using f q by (simp add: finished_def)
    then have "cells s' = cells s" using und s' by (simp add: undone_def)
    moreover have "\<sigma> l \<noteq> \<sigma> r" if "solves \<sigma> (cells s)" for \<sigma>
      using f q that unit[of \<sigma>] sig assms(3) unfolding finished_def by auto
    ultimately show ?thesis using False by simp
  qed
qed


section \<open>Witnesses\<close>

text \<open>Two cyclic lists \<open>X = true|X\<close> at node 0 and \<open>Y = Z|Y\<close> at node 1, where node 3 is the variable \<open>Z\<close>; without
  variables in the second state.\<close>

definition top_env :: environment where
  "top_env = \<lparr>onTopLevel = True, currentSpace = 0, ancestorIsCurrent = (\<lambda>_. True), threadSpace = (\<lambda>_. 0), controlNode = 9\<rparr>"

definition cyclic_state :: "ucell \<Rightarrow> ustate" where
  "cyclic_state c =
     \<lparr>cells = (\<lambda>n. if n = 0 then UCons 2 0 else if n = 1 then UCons 3 1 else if n = 3 then c else USimple (SBoolean True)),
      objects = (\<lambda>_. \<lparr>home = 0, needed = False, pendings = []\<rparr>), nextObject = 0, trail = [], running = (\<lambda>_. False),
      resumed = [], signalled = [], walkStack = [], rebindTrail = [], suspendTrail = [], captures = (\<lambda>_. None)\<rparr>"

lemma cyclic_no_nan: "c = UOptVar h \<or> c = USimple (SBoolean b) \<Longrightarrow> no_nan (cells (cyclic_state c))"
  by (auto simp: no_nan_def cyclic_state_def value_equals_def)

lemma cyclic_unified: "map_option fst (fullUnify top_env 0 1 (cyclic_state (UOptVar 0))) = Some Unified"
  by code_simp

theorem fullUnify_solutions_witness:
  "\<exists>s'. fullUnify top_env 0 1 (cyclic_state (UOptVar 0)) = Some (Unified, s') \<and>
     (\<forall>\<sigma>. solves \<sigma> (cells s') \<longleftrightarrow> solves \<sigma> (cells (cyclic_state (UOptVar 0))) \<and> \<sigma> 0 = \<sigma> 1 \<and> all_unit \<sigma> (signalled s'))"
proof -
  obtain s' where s': "fullUnify top_env 0 1 (cyclic_state (UOptVar 0)) = Some (Unified, s')" using cyclic_unified by auto
  have "signalled (cyclic_state (UOptVar 0)) = []" by (simp add: cyclic_state_def)
  from fullUnify_solutions[OF s' this cyclic_no_nan] s' show ?thesis by auto
qed


theorem fullEquals_correct_witness:
  "\<exists>s'. fullEquals top_env 0 1 (cyclic_state (USimple (SBoolean True))) = Some (Inr True, s') \<and>
     (\<forall>\<sigma>. solves \<sigma> (cells (cyclic_state (USimple (SBoolean True)))) \<longrightarrow> \<sigma> 0 = \<sigma> 1) \<and>
   (\<exists>s'. fullEquals top_env 0 1 (cyclic_state (USimple (SBoolean False))) = Some (Inr False, s') \<and>
     (\<forall>\<sigma>. solves \<sigma> (cells (cyclic_state (USimple (SBoolean False)))) \<longrightarrow> \<sigma> 0 \<noteq> \<sigma> 1))"
proof -
  have sig: "signalled (cyclic_state c) = []" for c by (simp add: cyclic_state_def)
  have "map_option fst (fullEquals top_env 0 1 (cyclic_state (USimple (SBoolean True)))) = Some (Inr True)" by code_simp
  then obtain s1 where s1: "fullEquals top_env 0 1 (cyclic_state (USimple (SBoolean True))) = Some (Inr True, s1)" by auto
  have "map_option fst (fullEquals top_env 0 1 (cyclic_state (USimple (SBoolean False)))) = Some (Inr False)" by code_simp
  then obtain s2 where s2: "fullEquals top_env 0 1 (cyclic_state (USimple (SBoolean False))) = Some (Inr False, s2)" by auto
  show ?thesis
    using fullEquals_correct[OF s1 sig cyclic_no_nan[of _ _ True]] fullEquals_correct[OF s2 sig cyclic_no_nan[of _ _ False]] s1 s2
    by simp
qed

end
