(* ===== verification/UnifyEnd.thy ===== *)
theory UnifyEnd
  imports UnifyCorrect
begin

text \<open>
  The walk of two values comes to an end, on cyclic values too (\<open>vm/vm/main/unify.cc\<close>): each pair of
  structures turns one of them into a reference, and each other pair shortens the stack.
\<close>

section \<open>Stores of values\<close>

text \<open>A finite set of determined nodes, closed under parts and references. There is no structure without
  elements, which the stack of the walk does not support, and no conjunction of patterns.\<close>

definition values_in :: "(unode \<Rightarrow> ucell) \<Rightarrow> unode set \<Rightarrow> bool" where
  "values_in st N \<longleftrightarrow> finite N \<and>
     (\<forall>n \<in> N. \<not> isTransient (st n) \<and> (\<forall>es. st n \<noteq> UConjunction es) \<and> (\<exists>m \<in> N. uderef st n = Some m) \<and>
        (\<forall>l ns. shape n (st n) = Some (l, ns) \<longrightarrow> set ns \<subseteq> N \<and> length ns \<noteq> 1))"

definition stack_in :: "unode set \<Rightarrow> (unode list \<times> unode list) list \<Rightarrow> bool" where
  "stack_in N stack \<longleftrightarrow> (\<forall>(as, bs) \<in> set stack. as \<noteq> [] \<and> length as = length bs \<and> set as \<subseteq> N \<and> set bs \<subseteq> N)"

definition structures :: "(unode \<Rightarrow> ucell) \<Rightarrow> unode set \<Rightarrow> unode set" where
  "structures st N = {n \<in> N. structuralBehavior (st n) = SbStructural}"

definition pairs_left :: "(unode list \<times> unode list) list \<Rightarrow> nat" where
  "pairs_left stack = sum_list (map (length \<circ> fst) stack)"

lemma stack_in_push: "a \<in> N \<Longrightarrow> b \<in> N \<Longrightarrow> stack_in N stack \<Longrightarrow> stack_in N (push a b stack)"
  by (simp add: stack_in_def push_def)

lemma stack_in_pushArray:
  "as \<noteq> [] \<Longrightarrow> length as = length bs \<Longrightarrow> set as \<subseteq> N \<Longrightarrow> set bs \<subseteq> N \<Longrightarrow> stack_in N stack \<Longrightarrow> stack_in N (pushArray as bs stack)"
  by (simp add: stack_in_def pushArray_def)

lemma stack_in_pop:
  assumes "stack_in N stack" "stack \<noteq> []"
  obtains a b stack' where "pop_pair stack = Some ((a, b), stack')" "a \<in> N" "b \<in> N" "stack_in N stack'"
    "pairs_left stack' < pairs_left stack"
proof -
  obtain as bs rest where st: "stack = (as, bs) # rest" using assms(2) by (cases stack) auto
  obtain a as' b bs' where e: "as = a # as'" "bs = b # bs'" using assms(1) st
    by (cases as; cases bs) (auto simp: stack_in_def)
  show thesis
    by (rule that[of a b "if as' = [] then rest else (as', bs') # rest"])
      (use assms(1) in \<open>auto simp: st e stack_in_def pairs_left_def\<close>)
qed

lemma structural_stack:
  assumes "structural_equals (st a) (st b) stack = Some (Some stack')" "values_in st N" "a \<in> N" "b \<in> N" "stack_in N stack"
  shows "stack_in N stack'"
proof -
  have sh: "set ns \<subseteq> N \<and> length ns \<noteq> 1" if "shape n (st n) = Some (l, ns)" "n \<in> N" for n l ns
    using assms(2) that unfolding values_in_def by blast
  show ?thesis
    using assms(1,5) sh[of a] sh[of b] assms(3,4)
    by (cases "st a"; cases "st b")
      (auto simp: structural_equals_def Let_def intro!: stack_in_push stack_in_pushArray split: if_splits)
qed

lemma uderef_rebind:
  assumes d: "uderef st n = Some m" and a: "\<forall>k. st a \<noteq> URef k" and b: "\<forall>k. st b \<noteq> URef k" and ab: "a \<noteq> b"
  shows "uderef (st(a := URef b)) n = Some (if m = a then b else m)"
proof -
  have "\<forall>a b. (\<forall>k. st a \<noteq> URef k) \<longrightarrow> (\<forall>k. st b \<noteq> URef k) \<longrightarrow> a \<noteq> b \<longrightarrow> uderef (st(a := URef b)) n = Some (if m = a then b else m)"
  proof (rule uderef.raw_induct[OF _ d, where P = "\<lambda>st n m. \<forall>a b. (\<forall>k. st a \<noteq> URef k) \<longrightarrow> (\<forall>k. st b \<noteq> URef k) \<longrightarrow> a \<noteq> b \<longrightarrow>
      uderef (st(a := URef b)) n = Some (if m = a then b else m)"], intro allI impI)
    fix u and st :: "unode \<Rightarrow> ucell" and n m a b :: nat
    assume IH: "\<And>st n m. u st n = Some m \<Longrightarrow> \<forall>a b. (\<forall>k. st a \<noteq> URef k) \<longrightarrow> (\<forall>k. st b \<noteq> URef k) \<longrightarrow> a \<noteq> b \<longrightarrow>
        uderef (st(a := URef b)) n = Some (if m = a then b else m)"
      and turn: "(case st n of URef k \<Rightarrow> u st k | _ \<Rightarrow> Some n) = Some m"
      and a: "\<forall>k. st a \<noteq> URef k" and b: "\<forall>k. st b \<noteq> URef k" and ab: "a \<noteq> b"
    have u: "uderef (st(a := URef b)) x = (case (st(a := URef b)) x of URef k \<Rightarrow> uderef (st(a := URef b)) k | _ \<Rightarrow> Some x)" for x
      by (rule uderef.simps)
    show "uderef (st(a := URef b)) n = Some (if m = a then b else m)"
    proof (cases "\<exists>k. st n = URef k")
      case True
      then obtain k where k: "st n = URef k" by blast
      then have "u st k = Some m" using turn by simp
      moreover have "n \<noteq> a" using k a by auto
      ultimately show ?thesis using IH a b ab u[of n] k by simp
    next
      case False
      then have "m = n" using turn by (cases "st n") auto
      moreover have "uderef (st(a := URef b)) x = Some x" if "x \<noteq> a" "\<forall>k. st x \<noteq> URef k" for x
        using that u[of x] by (cases "st x") auto
      ultimately show ?thesis using False ab b u[of a] by (cases "n = a") auto
    qed
  qed
  then show ?thesis using a b ab by blast
qed

lemma values_in_rebind:
  assumes v: "values_in st N" and "a \<in> N" "b \<in> N" "\<forall>k. st a \<noteq> URef k" "\<forall>k. st b \<noteq> URef k" "a \<noteq> b"
  shows "values_in (st(a := URef b)) N"
  unfolding values_in_def
proof (intro conjI ballI)
  show "finite N" using v by (simp add: values_in_def)
  fix n assume n: "n \<in> N"
  obtain m where m: "m \<in> N" "uderef st n = Some m" using v n unfolding values_in_def by blast
  show "\<exists>m \<in> N. uderef (st(a := URef b)) n = Some m"
    using uderef_rebind[OF m(2) assms(4,5,6)] m(1) assms(3) by auto
  show "\<not> isTransient ((st(a := URef b)) n)" "\<forall>es. (st(a := URef b)) n \<noteq> UConjunction es"
    "\<forall>l ns. shape n ((st(a := URef b)) n) = Some (l, ns) \<longrightarrow> set ns \<subseteq> N \<and> length ns \<noteq> 1"
    using v n by (auto simp: values_in_def isTransient_def)
qed

section \<open>The walk\<close>

lemma same_type_values:
  assumes "type_of_cell c = type_of_cell d" "\<forall>k. c \<noteq> URef k" "structuralBehavior c = SbValue"
  obtains v w where "c = USimple v" "d = USimple w"
proof -
  obtain v where c: "c = USimple v" using assms(2,3) by (cases c) auto
  show thesis
  proof (cases d)
    case (UToken t)
    then show thesis using assms(1) c by (cases v; cases t) auto
  qed (use assms(1) c that in \<open>cases v; auto\<close>)+
qed

lemma same_type_structures:
  assumes "type_of_cell c = type_of_cell d" "\<forall>es. c \<noteq> UConjunction es" "structuralBehavior c = SbStructural"
  shows "\<exists>r. structural_equals c d stack = Some r"
proof -
  have tok: "token_type t \<noteq> TyCons" "token_type t \<noteq> TyTuple" "token_type t \<noteq> TyArity" "token_type t \<noteq> TyRecord" for t
    by (cases t; simp)+
  have sim: "simple_type v \<noteq> TyCons" "simple_type v \<noteq> TyTuple" "simple_type v \<noteq> TyArity" "simple_type v \<noteq> TyRecord" for v
    by (cases v; simp)+
  show ?thesis using assms tok sim tok[symmetric] sim[symmetric]
    by (cases c; cases d) (auto simp: structural_equals_def Let_def)
qed

lemma processPair_values:
  assumes k: "kind \<noteq> WkPatternMatch" and v: "\<not> isTransient (cells s a)" "\<not> isTransient (cells s b)"
    and r: "\<forall>k. cells s a \<noteq> URef k" and c: "\<forall>es. cells s a \<noteq> UConjunction es"
  shows "processPair kind e a b s = Some (Inr False, s) \<or> processPair kind e a b s = Some (Inr True, s) \<or>
    (\<exists>stack. a \<noteq> b \<and> structuralBehavior (cells s a) = SbStructural \<and>
      structural_equals (cells s a) (cells s b) (walkStack s) = Some (Some stack) \<and>
      processPair kind e a b s = Some (Inr True, rebind a b (s\<lparr>walkStack := stack\<rparr>)))"
proof (cases "a = b")
  case True
  then show ?thesis by (simp add: processPair_def Let_def)
next
  case False
  have nv: "structuralBehavior (cells s a) \<noteq> SbVariable" "structuralBehavior (cells s b) \<noteq> SbVariable"
    using v by (simp_all add: isTransient_def)
  have p: "processPair kind e a b s =
     (if type_of_cell (cells s a) \<noteq> type_of_cell (cells s b) then Some (Inr False, s)
             else case structuralBehavior (cells s a) of
                SbValue \<Rightarrow>
                  (case (cells s a, cells s b) of (USimple v, USimple w) \<Rightarrow> Some (Inr (value_equals v w), s) | _ \<Rightarrow> None)
              | SbStructural \<Rightarrow>
                  Option.bind (structural_equals (cells s a) (cells s b) (walkStack s)) (\<lambda>r.
                    case r of
                      None \<Rightarrow> Some (Inr False, s)
                    | Some stack \<Rightarrow> Some (Inr True, rebind a b (s\<lparr>walkStack := stack\<rparr>)))
              | SbTokenEq \<Rightarrow> Some (Inr False, s)
              | SbVariable \<Rightarrow> None)"
    using k False nv
    by (cases kind) (simp_all add: processPair_def Let_def cong del: behaviour.case_cong_weak option.case_cong_weak if_weak_cong)
  show ?thesis
  proof (cases "type_of_cell (cells s a) = type_of_cell (cells s b)")
    case ty: True
    show ?thesis
    proof (cases "structuralBehavior (cells s a)")
      case SbValue
      obtain x y where "cells s a = USimple x" "cells s b = USimple y" using same_type_values[OF ty r SbValue] .
      then show ?thesis using p ty by (cases "value_equals x y") simp_all
    next
      case SbStructural
      obtain q where "structural_equals (cells s a) (cells s b) (walkStack s) = Some q" using same_type_structures[OF ty c SbStructural] by blast
      then show ?thesis using p ty SbStructural False by (cases q) simp_all
    qed (use p ty nv in simp_all)
  next
    case False
    then have "processPair kind e a b s = Some (Inr False, s)" using p by simp
    then show ?thesis by blast
  qed
qed

definition walkable :: "unode set \<Rightarrow> ustate \<Rightarrow> bool" where
  "walkable N s \<longleftrightarrow> values_in (cells s) N \<and> stack_in N (walkStack s) \<and> suspendTrail s = []"

lemma next_walkable:
  assumes "walkable N s"
  shows "(walkStack s = [] \<and> next_pair s = Some (Inl (Inr True, s))) \<or>
    (\<exists>l r s'. next_pair s = Some (Inr (l, r, s')) \<and> l \<in> N \<and> r \<in> N \<and> walkable N s' \<and>
      cells s' = cells s \<and> pairs_left (walkStack s') < pairs_left (walkStack s))"
proof (cases "walkStack s = []")
  case False
  have "stack_in N (walkStack s)" using assms by (simp add: walkable_def)
  then obtain a b stack where "pop_pair (walkStack s) = Some ((a, b), stack)" "a \<in> N" "b \<in> N" "stack_in N stack"
    "pairs_left stack < pairs_left (walkStack s)"
    using False by (rule stack_in_pop)
  then show ?thesis using False assms by (auto simp: next_pair_def walkable_def)
qed (simp add: next_pair_def)

text \<open>One turn of the walk.\<close>

lemma turn_values:
  assumes k: "kind \<noteq> WkPatternMatch" and w: "walkable N s" and lr: "l \<in> N" "r \<in> N"
  shows "(\<exists>answer s'. walk_turn kind e l r s = Some (Inl (Inr answer, s')) \<and> suspendTrail s' = []) \<or>
    (\<exists>l' r' s'. walk_turn kind e l r s = Some (Inr (l', r', s')) \<and> l' \<in> N \<and> r' \<in> N \<and> walkable N s' \<and>
      (card (structures (cells s') N) < card (structures (cells s) N) \<or>
       cells s' = cells s \<and> pairs_left (walkStack s') < pairs_left (walkStack s)))"
proof -
  have vals: "values_in (cells s) N" and st: "stack_in N (walkStack s)" and none: "suspendTrail s = []"
    using w by (simp_all add: walkable_def)
  obtain a b where d: "uderef (cells s) l = Some a" "uderef (cells s) r = Some b" and ab: "a \<in> N" "b \<in> N"
    using vals lr unfolding values_in_def by blast
  have ref: "\<forall>k. cells s a \<noteq> URef k" "\<forall>k. cells s b \<noteq> URef k" using uderef_end d by blast+
  have det: "\<not> isTransient (cells s a)" "\<not> isTransient (cells s b)" "\<forall>es. cells s a \<noteq> UConjunction es"
    using vals ab by (simp_all add: values_in_def)
  have turn: "walk_turn kind e l r s = Option.bind (processPair kind e a b s) (\<lambda>(q, s). after_pair a b q s)"
    by (simp add: walk_turn_def d)
  from processPair_values[OF k det(1,2) ref(1) det(3), of e]
  consider "processPair kind e a b s = Some (Inr False, s)" | "processPair kind e a b s = Some (Inr True, s)"
    | stack where "a \<noteq> b" "structuralBehavior (cells s a) = SbStructural"
        "structural_equals (cells s a) (cells s b) (walkStack s) = Some (Some stack)"
        "processPair kind e a b s = Some (Inr True, rebind a b (s\<lparr>walkStack := stack\<rparr>))"
    by blast
  then show ?thesis
  proof cases
    case 1
    then have "walk_turn kind e l r s = Some (Inl (Inr False, cleanupOnFailure s))" by (simp add: turn after_false)
    moreover have "suspendTrail (cleanupOnFailure s) = []" by (simp add: cleanupOnFailure_def undoBindings_def)
    ultimately show ?thesis by blast
  next
    case 2
    then have "walk_turn kind e l r s = next_pair s" by (simp add: turn after_true)
    then show ?thesis using next_walkable[OF w] none by auto
  next
    case 3
    let ?t = "rebind a b (s\<lparr>walkStack := stack\<rparr>)"
    have c: "\<not> isCopyableCell (cells s b)" using structural_equals_spec[OF 3(3), of a b] by blast
    have cells: "cells ?t = (cells s)(a := URef b)" using 3(1) c by (simp add: rebind_cells)
    have t: "walkable N ?t"
      using values_in_rebind[OF vals ab ref 3(1)] structural_stack[OF 3(3) vals ab st] none by (simp add: walkable_def cells)
    have sub: "structures (cells ?t) N = structures (cells s) N - {a}" by (auto simp: structures_def cells)
    have "finite (structures (cells s) N)" "a \<in> structures (cells s) N"
      using vals 3(2) ab(1) by (simp_all add: structures_def values_in_def)
    then have less: "card (structures (cells ?t) N) < card (structures (cells s) N)" unfolding sub by (metis card_Diff1_less)
    have "walk_turn kind e l r s = next_pair ?t" using 3(4) by (simp add: turn after_true)
    then show ?thesis using next_walkable[OF t] less t by (auto simp: walkable_def)
  qed
qed

lemma run_pairs_ends:
  assumes k: "kind \<noteq> WkPatternMatch"
  shows "walkable N s \<Longrightarrow> l \<in> N \<Longrightarrow> r \<in> N \<Longrightarrow> \<exists>answer s'. run_pairs kind e l r s = Some (Inr answer, s') \<and> suspendTrail s' = []"
proof (induction "(card (structures (cells s) N), pairs_left (walkStack s))" arbitrary: l r s
    rule: wf_induct_rule[OF wf_lex_prod[OF wf_less wf_less]])
  case 1
  have unfold_run: "run_pairs kind e l r s = (case walk_turn kind e l r s of None \<Rightarrow> None | Some (Inl result) \<Rightarrow> Some result
      | Some (Inr (left, right, s)) \<Rightarrow> run_pairs kind e left right s)"
    by (rule run_pairs.simps)
  from turn_values[OF k 1(2,3,4), of e]
  consider answer s' where "walk_turn kind e l r s = Some (Inl (Inr answer, s'))" "suspendTrail s' = []"
    | l' r' s' where "walk_turn kind e l r s = Some (Inr (l', r', s'))" "l' \<in> N" "r' \<in> N" "walkable N s'"
      "card (structures (cells s') N) < card (structures (cells s) N) \<or>
       cells s' = cells s \<and> pairs_left (walkStack s') < pairs_left (walkStack s)"
    by blast
  then show ?case
  proof cases
    case (2 l' r' s')
    have "\<exists>answer s''. run_pairs kind e l' r' s' = Some (Inr answer, s'') \<and> suspendTrail s'' = []"
      by (rule 1(1)[OF _ 2(4,2,3)]) (use 2(5) in auto)
    then show ?thesis using unfold_run 2(1) by simp
  qed (use unfold_run in auto)
qed

lemma run_ends:
  assumes "values_in (cells s) N" "l \<in> N" "r \<in> N" "kind \<noteq> WkPatternMatch"
  shows "\<exists>answer s'. run kind e l r s = Some (Inr answer, s')"
proof -
  let ?s = "s\<lparr>walkStack := [], rebindTrail := [], suspendTrail := []\<rparr>"
  have "walkable N ?s" using assms(1) by (simp add: walkable_def stack_in_def)
  then obtain answer t where "run_pairs kind e l r ?s = Some (Inr answer, t)" "suspendTrail t = []"
    using run_pairs_ends[OF assms(4) _ assms(2,3)] by blast
  then show ?thesis by (cases answer) (auto simp: run_def)
qed

section \<open>Properties\<close>

text \<open>C8. The equality test of two values ends and answers, also on cyclic values that unfold to infinite
  trees.\<close>

theorem fullEquals_ends:
  assumes "values_in (cells s) N" "l \<in> N" "r \<in> N"
  shows "\<exists>answer s'. fullEquals e l r s = Some (Inr answer, s')"
  unfolding fullEquals_def using run_ends[OF assms] by simp

section \<open>Witnesses\<close>

theorem fullEquals_ends_witness:
  "\<exists>answer s'. fullEquals top_env 0 1 (cyclic_state (USimple SUnit)) = Some (Inr answer, s')"
proof -
  have "values_in (cells (cyclic_state (USimple SUnit))) {0, 1, 2, 3}"
    by (auto simp: values_in_def cyclic_state_def isTransient_def deref_determined split: if_splits)
  from fullEquals_ends[OF this, of 0 1 top_env] show ?thesis by simp
qed

end
