(* ===== verification/QuickMatch.thy ===== *)
theory QuickMatch
  imports Unify
begin

text \<open>
  Pattern matching (\<open>vm/vm/main/unify.cc\<close>, \<open>unify.hh\<close>): \<open>quickPatternMatch\<close>, which decides the common
  patterns without the walk, agrees with \<open>fullPatternMatch\<close>.
\<close>

section \<open>The turns of the walk\<close>

definition resume :: "walk_kind \<Rightarrow> environment \<Rightarrow> ustate \<Rightarrow> bool outcome" where
  "resume kind e s =
     (case next_pair s of None \<Rightarrow> None | Some (Inl result) \<Rightarrow> Some result | Some (Inr (l, r, s)) \<Rightarrow> run_pairs kind e l r s)"

lemma run_pairs_step:
  assumes "uderef (cells s) l = Some a" "uderef (cells s) r = Some b"
  shows "processPair kind e a b s = Some (Inr True, s') \<Longrightarrow> run_pairs kind e l r s = resume kind e s'"
    and "processPair kind e a b s = Some (Inr False, s') \<Longrightarrow> run_pairs kind e l r s = Some (Inr False, cleanupOnFailure s')"
proof -
  have u: "run_pairs kind e l r s = (case walk_turn kind e l r s of None \<Rightarrow> None | Some (Inl result) \<Rightarrow> Some result
      | Some (Inr (left, right, s)) \<Rightarrow> run_pairs kind e left right s)"
    by (rule run_pairs.simps)
  show "processPair kind e a b s = Some (Inr True, s') \<Longrightarrow> run_pairs kind e l r s = resume kind e s'"
    and "processPair kind e a b s = Some (Inr False, s') \<Longrightarrow> run_pairs kind e l r s = Some (Inr False, cleanupOnFailure s')"
    by (simp_all add: u walk_turn_def assms after_pair_def resume_def)
qed

lemma resume_end: "walkStack s = [] \<Longrightarrow> resume kind e s = Some (Inr True, s)"
  by (simp add: resume_def next_pair_def)

lemma resume_pair:
  "walkStack s = (a # as, b # bs) # rest \<Longrightarrow>
   resume kind e s = run_pairs kind e a b (s\<lparr>walkStack := if as = [] then rest else (as, bs) # rest\<rparr>)"
  by (simp add: resume_def next_pair_def)

lemma doCapture_fields [simp]:
  "cells (doCapture n i s) = cells s" "walkStack (doCapture n i s) = walkStack s"
  "rebindTrail (doCapture n i s) = rebindTrail s" "suspendTrail (doCapture n i s) = suspendTrail s"
  "doCapture n i (s\<lparr>walkStack := w\<rparr>) = (doCapture n i s)\<lparr>walkStack := w\<rparr>"
  by (simp_all add: doCapture_def)

lemma cleanup_stack [simp]: "cleanupOnFailure (s\<lparr>walkStack := w\<rparr>) = cleanupOnFailure s"
  by (simp add: cleanupOnFailure_def undoBindings_def)

section \<open>Values and patterns\<close>

definition literal :: "(unode \<Rightarrow> ucell) \<Rightarrow> unode \<Rightarrow> bool" where
  "literal st n \<longleftrightarrow> (\<exists>t. st n = UToken t) \<or> (\<exists>v. st n = USimple v \<and> (\<forall>i. v \<noteq> SCapture i))"

text \<open>A tuple has an element, and its label is a literal.\<close>

definition proper_tuple :: "(unode \<Rightarrow> ucell) \<Rightarrow> unode \<Rightarrow> bool" where
  "proper_tuple st n \<longleftrightarrow> (\<forall>l es. st n = UTuple l es \<longrightarrow> es \<noteq> [] \<and> (\<forall>m. uderef st l = Some m \<longrightarrow> literal st m))"

text \<open>Captures occur in patterns only.\<close>

definition no_captures :: "(unode \<Rightarrow> ucell) \<Rightarrow> unode list \<Rightarrow> bool" where
  "no_captures st ns \<longleftrightarrow> (\<forall>n \<in> set ns. \<forall>m i. uderef st n = Some m \<longrightarrow> st m \<noteq> USimple (SCapture i))"

fun elements :: "ucell \<Rightarrow> unode list" where
  "elements (UCons h t) = [h, t]"
| "elements (UTuple _ es) = es"
| "elements _ = []"

definition proper_store :: "(unode \<Rightarrow> ucell) \<Rightarrow> bool" where
  "proper_store st \<longleftrightarrow> (\<forall>n. proper_tuple st n)"

definition proper_value :: "(unode \<Rightarrow> ucell) \<Rightarrow> unode \<Rightarrow> bool" where
  "proper_value st n \<longleftrightarrow> no_captures st (elements (st n)) \<and>
     (\<forall>h \<in> set (elements (st n)). \<forall>m. uderef st h = Some m \<longrightarrow> no_captures st (elements (st m)))"

lemma value_equals_sym: "value_equals v w \<longleftrightarrow> value_equals w v"
  by (auto simp: value_equals_def float_equals_def split: simple.splits)

lemma literal_equals_sym: "literal_equals st a b \<longleftrightarrow> literal_equals st b a"
  using value_equals_sym by (auto simp: literal_equals_def split: ucell.splits)

lemma literal_pair:
  assumes "literal (cells s) a" "literal (cells s) b"
  shows "processPair WkPatternMatch e a b s = Some (Inr (literal_equals (cells s) a b), s)"
proof (cases "a = b")
  case False
  have tt: "simple_type v \<noteq> token_type t" for v t by (cases v; cases t; simp)
  from assms show ?thesis
    unfolding literal_def
  proof (elim disjE exE conjE)
    fix v w assume v: "cells s a = USimple v" "\<forall>i. v \<noteq> SCapture i" "cells s b = USimple w" "\<forall>i. w \<noteq> SCapture i"
    then show ?thesis using False by (cases w) (simp_all add: processPair_def Let_def literal_equals_def)
  next
    fix t w assume v: "cells s a = UToken t" "cells s b = USimple w" "\<forall>i. w \<noteq> SCapture i"
    then show ?thesis using False tt[of w t] by (cases w) (simp_all add: processPair_def Let_def literal_equals_def)
  next
    fix v t assume "cells s a = USimple v" "cells s b = UToken t"
    then show ?thesis using False tt[of v t] by (simp add: processPair_def Let_def literal_equals_def)
  next
    fix t t' assume "cells s a = UToken t" "cells s b = UToken t'"
    then show ?thesis using False by (simp add: processPair_def Let_def literal_equals_def)
  qed
qed (simp add: processPair_def Let_def literal_equals_def)

section \<open>Captures\<close>

lemma capture_pair:
  "cells s b = USimple (SCapture i) \<Longrightarrow> a \<noteq> b \<Longrightarrow> processPair WkPatternMatch e a b s = Some (Inr True, doCapture a i s)"
  by (simp add: processPair_def Let_def)

lemma capture_elements_Cons:
  assumes "capture_elements st (v # vs) (p # ps) s = Some r"
  obtains a b i where "uderef st v = Some a" "uderef st p = Some b" "st b = USimple (SCapture i)"
    "capture_elements st vs ps (doCapture a i s) = Some r"
proof -
  obtain a b where d: "uderef st v = Some a" "uderef st p = Some b" and c: "(case st b of
       USimple (SCapture index) \<Rightarrow> capture_elements st vs ps (doCapture a index s)
       | _ \<Rightarrow> None) = Some r"
    using assms by (auto simp: bind_eq_Some_conv)
  obtain w where w: "st b = USimple w" using c by (cases "st b") simp_all
  show thesis
  proof (cases w)
    case (SCapture i)
    then show thesis using that[OF d] c w by simp
  qed (use c w in simp_all)
qed

lemma capture_walk:
  assumes "length vs = length ps" "no_captures st vs" "capture_elements st vs ps s = Some (res, s1)" "cells s = st" "vs \<noteq> []"
  shows "res = MatchSucceed \<and> cells s1 = st \<and> walkStack s1 = walkStack s \<and> rebindTrail s1 = rebindTrail s \<and>
    suspendTrail s1 = suspendTrail s \<and> resume WkPatternMatch e (s\<lparr>walkStack := (vs, ps) # rest\<rparr>) =
    resume WkPatternMatch e (s1\<lparr>walkStack := rest\<rparr>)"
  using assms
proof (induction vs ps arbitrary: s rule: list_induct2)
  case (Cons v vs p ps)
  obtain a b i where d: "uderef st v = Some a" "uderef st p = Some b" "st b = USimple (SCapture i)"
    and c: "capture_elements st vs ps (doCapture a i s) = Some (res, s1)"
    using Cons(4) by (rule capture_elements_Cons)
  have ab: "a \<noteq> b" using Cons(3) d by (auto simp: no_captures_def)
  let ?w = "if vs = [] then rest else (vs, ps) # rest"
  have "resume WkPatternMatch e (s\<lparr>walkStack := (v # vs, p # ps) # rest\<rparr>) = run_pairs WkPatternMatch e v p (s\<lparr>walkStack := ?w\<rparr>)"
    by (subst resume_pair) simp_all
  also have "\<dots> = resume WkPatternMatch e (doCapture a i (s\<lparr>walkStack := ?w\<rparr>))"
    by (rule run_pairs_step(1)[of _ _ a _ b]) (use d ab Cons(5) in \<open>simp_all add: capture_pair\<close>)
  finally have step: "resume WkPatternMatch e (s\<lparr>walkStack := (v # vs, p # ps) # rest\<rparr>) =
      resume WkPatternMatch e ((doCapture a i s)\<lparr>walkStack := ?w\<rparr>)" by simp
  show ?case
  proof (cases "vs = []")
    case True
    then show ?thesis using step c Cons(5) by auto
  next
    case False
    have "no_captures st vs" using Cons(3) by (simp add: no_captures_def)
    then have "res = MatchSucceed \<and> cells s1 = st \<and> walkStack s1 = walkStack (doCapture a i s) \<and>
      rebindTrail s1 = rebindTrail (doCapture a i s) \<and> suspendTrail s1 = suspendTrail (doCapture a i s) \<and> resume WkPatternMatch e ((doCapture a i s)\<lparr>walkStack := (vs, ps) # rest\<rparr>) =
      resume WkPatternMatch e (s1\<lparr>walkStack := rest\<rparr>)"
      using c Cons(5) False by (intro Cons(2)) simp_all
    then show ?thesis using step False by simp
  qed
qed simp

text \<open>The pair of two tuples: the labels, then the elements.\<close>

lemma tuple_walk:
  assumes t: "cells s a = UTuple l vs" "cells s b = UTuple l' ps" "a \<noteq> b"
    and d: "uderef (cells s) l = Some x" "uderef (cells s) l' = Some y" "literal (cells s) x" "literal (cells s) y"
  shows "length vs = length ps \<Longrightarrow> literal_equals (cells s) x y \<Longrightarrow>
      run_pairs WkPatternMatch e a b s = resume WkPatternMatch e (s\<lparr>walkStack := (vs, ps) # walkStack s\<rparr>)"
    and "length vs \<noteq> length ps \<or> \<not> literal_equals (cells s) x y \<Longrightarrow>
      run_pairs WkPatternMatch e a b s = Some (Inr False, cleanupOnFailure s)"
proof -
  have ends: "uderef (cells s) a = Some a" "uderef (cells s) b = Some b" using t by (simp_all add: deref_determined)
  note kind = run_pairs_step[OF ends, of WkPatternMatch e]
  show "run_pairs WkPatternMatch e a b s = resume WkPatternMatch e (s\<lparr>walkStack := (vs, ps) # walkStack s\<rparr>)"
    if len: "length vs = length ps" and lab: "literal_equals (cells s) x y"
  proof -
    let ?t = "s\<lparr>walkStack := ([l], [l']) # (vs, ps) # walkStack s\<rparr>"
    have "processPair WkPatternMatch e a b s = Some (Inr True, ?t)"
      using t len by (simp add: processPair_def Let_def structural_equals_def push_def pushArray_def)
    then have "run_pairs WkPatternMatch e a b s = resume WkPatternMatch e ?t" by (rule kind)
    also have "\<dots> = run_pairs WkPatternMatch e l l' (?t\<lparr>walkStack := (vs, ps) # walkStack s\<rparr>)" using resume_pair[of ?t l "[]" l' "[]" "(vs, ps) # walkStack s" WkPatternMatch e] by simp
    also have "\<dots> = resume WkPatternMatch e (s\<lparr>walkStack := (vs, ps) # walkStack s\<rparr>)"
      by (rule run_pairs_step(1)[of _ _ x _ y]) (use d lab literal_pair[of "?t\<lparr>walkStack := (vs, ps) # walkStack s\<rparr>" x y e] in simp_all)
    finally show ?thesis .
  qed
  show "run_pairs WkPatternMatch e a b s = Some (Inr False, cleanupOnFailure s)"
    if differ: "length vs \<noteq> length ps \<or> \<not> literal_equals (cells s) x y"
  proof (cases "length vs = length ps")
    case False
    then have "processPair WkPatternMatch e a b s = Some (Inr False, s)"
      using t by (simp add: processPair_def Let_def structural_equals_def)
    then show ?thesis by (rule kind)
  next
    case True
    let ?t = "s\<lparr>walkStack := ([l], [l']) # (vs, ps) # walkStack s\<rparr>"
    have "processPair WkPatternMatch e a b s = Some (Inr True, ?t)"
      using t True by (simp add: processPair_def Let_def structural_equals_def push_def pushArray_def)
    then have "run_pairs WkPatternMatch e a b s = resume WkPatternMatch e ?t" by (rule kind)
    also have "\<dots> = run_pairs WkPatternMatch e l l' (?t\<lparr>walkStack := (vs, ps) # walkStack s\<rparr>)" using resume_pair[of ?t l "[]" l' "[]" "(vs, ps) # walkStack s" WkPatternMatch e] by simp
    also have "\<dots> = Some (Inr False, cleanupOnFailure (?t\<lparr>walkStack := (vs, ps) # walkStack s\<rparr>))"
      by (rule run_pairs_step(2)[of _ _ x _ y]) (use d True differ literal_pair[of "?t\<lparr>walkStack := (vs, ps) # walkStack s\<rparr>" x y e] in simp_all)
    finally show ?thesis by simp
  qed
qed

section \<open>The quick match\<close>

lemma all_captures_True: "all_captures st ps = Some True \<Longrightarrow> \<forall>p \<in> set ps. \<exists>m i. uderef st p = Some m \<and> st m = USimple (SCapture i)"
proof (induction ps)
  case (Cons p ps)
  obtain m where m: "uderef st p = Some m" "(case st m of USimple (SCapture _) \<Rightarrow> all_captures st ps | _ \<Rightarrow> Some False) = Some True"
    using Cons(2) by (auto simp: bind_eq_Some_conv)
  then obtain v where v: "st m = USimple v" by (cases "st m") simp_all
  then obtain i where "v = SCapture i" using m(2) by (cases v) simp_all
  then show ?case using m v Cons(1) by auto
qed simp

definition plain_pattern :: "ucell \<Rightarrow> bool" where
  "plain_pattern c \<longleftrightarrow> (\<forall>i. c \<noteq> USimple (SCapture i)) \<and> (\<forall>es. c \<noteq> UConjunction es) \<and> (\<forall>a es. c \<noteq> UOpenRecord a es)"

text \<open>The branches of \<open>quick_flat\<close> that decide.\<close>

lemma quick_flat_cases:
  assumes "quick_flat a b s = Some (res, s1)" "res \<noteq> MatchUnknown"
  obtains (same) "a = b" "res = MatchSucceed" "s1 = s"
  | (capture) i where "a \<noteq> b" "cells s b = USimple (SCapture i)" "res = MatchSucceed" "s1 = doCapture a i s"
  | (types) "a \<noteq> b" "plain_pattern (cells s b)" "structuralBehavior (cells s a) \<noteq> SbVariable" "structuralBehavior (cells s b) \<noteq> SbVariable"
      "type_of_cell (cells s a) \<noteq> type_of_cell (cells s b)" "res = MatchFailed" "s1 = s"
  | (vals) v w where "a \<noteq> b" "plain_pattern (cells s b)" "cells s a = USimple v" "cells s b = USimple w"
      "simple_type v = simple_type w" "res = (if value_equals v w then MatchSucceed else MatchFailed)" "s1 = s"
  | (tokens) t where "a \<noteq> b" "plain_pattern (cells s b)" "structuralBehavior (cells s b) \<noteq> SbVariable" "cells s a = UToken t"
      "type_of_cell (cells s a) = type_of_cell (cells s b)" "res = MatchFailed" "s1 = s"
  | (tuples) l vs l' ps same where "a \<noteq> b" "cells s a = UTuple l vs" "cells s b = UTuple l' ps"
      "testTuple (cells s) l' (length ps) l (length vs) = Some same"
      "\<not> same \<and> res = MatchFailed \<and> s1 = s \<or>
       same \<and> all_captures (cells s) ps = Some True \<and> capture_elements (cells s) vs ps s = Some (res, s1)"
proof (cases "a = b \<or> (\<exists>i. cells s b = USimple (SCapture i))")
  case True
  show thesis
  proof (cases "a = b")
    case True
    then have "(res, s1) = (MatchSucceed, s)" using assms(1) by (simp add: quick_flat_def)
    then show thesis using same True by simp
  next
    case False
    then obtain i where i: "cells s b = USimple (SCapture i)" using True by blast
    then have "(res, s1) = (MatchSucceed, doCapture a i s)" using assms(1) False by (simp add: quick_flat_def Let_def)
    then show thesis using capture[OF False i] by simp
  qed
next
  case False
  then have ab: "a \<noteq> b" and nc: "\<forall>i. cells s b \<noteq> USimple (SCapture i)" by blast+
  let ?typed = "if type_of_cell (cells s a) \<noteq> type_of_cell (cells s b) then Some (MatchFailed, s)
     else quick_same_type (cells s a) (cells s b) s"
  have "quick_flat a b s = (if structuralBehavior (cells s a) = SbVariable \<or> structuralBehavior (cells s b) = SbVariable
     then Some (MatchUnknown, s)
     else case cells s b of UConjunction _ \<Rightarrow> Some (MatchUnknown, s) | UOpenRecord _ _ \<Rightarrow> Some (MatchUnknown, s) | _ \<Rightarrow> ?typed)"
  proof (cases "cells s b")
    case (USimple w)
    then show ?thesis using ab nc by (cases w) (simp_all add: quick_flat_def Let_def)
  qed (use ab in \<open>simp_all add: quick_flat_def Let_def\<close>)
  note q = this[unfolded assms(1), symmetric]
  have nv: "structuralBehavior (cells s a) \<noteq> SbVariable" "structuralBehavior (cells s b) \<noteq> SbVariable"
    using q assms(2) by (auto split: if_splits)
  have pl: "plain_pattern (cells s b)" and typed: "?typed = Some (res, s1)"
  proof -
    have r: "(case cells s b of UConjunction _ \<Rightarrow> Some (MatchUnknown, s) | UOpenRecord _ _ \<Rightarrow> Some (MatchUnknown, s) | _ \<Rightarrow> ?typed) = Some (res, s1)"
      using q nv by simp
    show "plain_pattern (cells s b)" using r nc assms(2) by (cases "cells s b") (simp_all add: plain_pattern_def)
    show "?typed = Some (res, s1)" using r assms(2) by (cases "cells s b") (simp_all del: split_paired_All)
  qed
  show thesis
  proof (cases "type_of_cell (cells s a) = type_of_cell (cells s b)")
    case False
    then show thesis using types ab pl nv typed by simp
  next
    case ty: True
    then have q': "quick_same_type (cells s a) (cells s b) s = Some (res, s1)" using typed by simp
    show thesis
    proof (cases "cells s a")
      case (USimple v)
      then obtain w where w: "cells s b = USimple w" "(res, s1) = (if value_equals v w then MatchSucceed else MatchFailed, s)"
        using q' by (cases "cells s b") (auto simp: quick_same_type_def)
      then show thesis using vals[OF ab pl USimple w(1)] ty USimple by simp
    next
      case (UToken t)
      then show thesis using tokens[OF ab pl nv(2) UToken ty] q' by (simp add: quick_same_type_def)
    next
      case (UTuple l vs)
      then obtain l' ps where t: "cells s b = UTuple l' ps" "quick_tuples l vs l' ps s = Some (res, s1)"
        using q' by (cases "cells s b") (auto simp: quick_same_type_def)
      then obtain same where sm: "testTuple (cells s) l' (length ps) l (length vs) = Some same"
        "(if \<not> same then Some (MatchFailed, s)
              else Option.bind (all_captures (cells s) ps) (\<lambda>simple.
                if simple then capture_elements (cells s) vs ps s else Some (MatchUnknown, s))) = Some (res, s1)"
        by (auto simp: bind_eq_Some_conv quick_tuples_def)
      show thesis
        by (rule tuples[OF ab UTuple t(1) sm(1)])
          (use sm(2) assms(2) in \<open>auto simp: bind_eq_Some_conv split: if_splits\<close>)
    qed (use q' assms(2) in \<open>simp_all add: quick_same_type_def\<close>)
  qed
qed

lemma capture_elements_stack:
  "capture_elements st vs ps s = Some (res, s1) \<Longrightarrow>
   res = MatchSucceed \<and> walkStack s1 = walkStack s \<and> capture_elements st vs ps (s\<lparr>walkStack := w\<rparr>) = Some (res, s1\<lparr>walkStack := w\<rparr>)"
proof (induction vs arbitrary: ps s)
  case (Cons v vs)
  show ?case
  proof (cases ps)
    case ps: (Cons p ps')
    obtain a b i where "uderef st v = Some a" "uderef st p = Some b" "st b = USimple (SCapture i)"
      "capture_elements st vs ps' (doCapture a i s) = Some (res, s1)"
      using Cons(2) unfolding ps by (rule capture_elements_Cons)
    then show ?thesis using Cons(1)[of ps' "doCapture a i s"] ps by simp
  qed (use Cons(2) in simp)
qed simp

text \<open>The stack of the walk has no part in the quick match.\<close>

lemma quick_same_type_stack:
  assumes "quick_same_type c d s = Some (res, s1)"
  shows "walkStack s1 = walkStack s \<and> quick_same_type c d (s\<lparr>walkStack := w\<rparr>) = Some (res, s1\<lparr>walkStack := w\<rparr>) \<and>
    (res = MatchUnknown \<longrightarrow> s1 = s)"
proof (cases "\<exists>l vs l' ps. c = UTuple l vs \<and> d = UTuple l' ps")
  case True
  then obtain l vs l' ps where c: "c = UTuple l vs" "d = UTuple l' ps" by blast
  have unknown: "q = MatchSucceed" if "capture_elements st vs ps s = Some (q, t)" for st vs ps s q t
    using capture_elements_stack[OF that] by simp
  obtain same where same: "testTuple (cells s) l' (length ps) l (length vs) = Some same"
    "(if \<not> same then Some (MatchFailed, s)
              else Option.bind (all_captures (cells s) ps) (\<lambda>simple.
                if simple then capture_elements (cells s) vs ps s else Some (MatchUnknown, s))) = Some (res, s1)"
    using assms c by (auto simp: bind_eq_Some_conv quick_tuples_def quick_same_type_def)
  show ?thesis
  proof (cases "same \<and> all_captures (cells s) ps = Some True")
    case True
    then have e: "capture_elements (cells s) vs ps s = Some (res, s1)" using same(2) by simp
    show ?thesis using capture_elements_stack[OF e] unknown[OF e] True same(1) c by (simp add: quick_same_type_def quick_tuples_def)
  next
    case False
    then show ?thesis using same c by (auto simp: quick_same_type_def quick_tuples_def split: if_splits bind_splits)
  qed
next
  case False
  show ?thesis
  proof (cases c)
    case (USimple v)
    then show ?thesis using assms by (cases d) (auto simp: quick_same_type_def split: if_splits)
  next
    case (UTuple l vs)
    then show ?thesis using assms False by (cases d) (auto simp: quick_same_type_def)
  qed (use assms in \<open>auto simp: quick_same_type_def\<close>)
qed

lemma quick_flat_keeps:
  assumes "quick_flat a b s = Some (res, s1)"
  shows "walkStack s1 = walkStack s \<and> quick_flat a b (s\<lparr>walkStack := w\<rparr>) = Some (res, s1\<lparr>walkStack := w\<rparr>) \<and>
    (res = MatchUnknown \<longrightarrow> s1 = s)"
proof -
  define typed where "typed = (\<lambda>s. if type_of_cell (cells s a) \<noteq> type_of_cell (cells s b) then Some (MatchFailed, s)
     else quick_same_type (cells s a) (cells s b) s)"
  define det where "det = (\<lambda>s. if structuralBehavior (cells s a) = SbVariable \<or> structuralBehavior (cells s b) = SbVariable
     then Some (MatchUnknown, s)
     else case cells s b of UConjunction _ \<Rightarrow> Some (MatchUnknown, s) | UOpenRecord _ _ \<Rightarrow> Some (MatchUnknown, s) | _ \<Rightarrow> typed s)"
  have t: "typed s = Some (res, s1) \<Longrightarrow> walkStack s1 = walkStack s \<and> typed (s\<lparr>walkStack := w\<rparr>) = Some (res, s1\<lparr>walkStack := w\<rparr>) \<and>
      (res = MatchUnknown \<longrightarrow> s1 = s)"
    using quick_same_type_stack[of "cells s a" "cells s b" s res s1 w] by (auto simp: typed_def split: if_splits)
  have d: "walkStack s1 = walkStack s \<and> det (s\<lparr>walkStack := w\<rparr>) = Some (res, s1\<lparr>walkStack := w\<rparr>) \<and> (res = MatchUnknown \<longrightarrow> s1 = s)"
    if "det s = Some (res, s1)"
    using that t by (cases "cells s b") (auto simp: det_def split: if_splits)
  have q: "quick_flat a b s' = (if a = b then Some (MatchSucceed, s') else case cells s' b of
             USimple v \<Rightarrow> (case v of SCapture index \<Rightarrow> Some (MatchSucceed, doCapture a index s') | _ \<Rightarrow> det s')
           | _ \<Rightarrow> det s')" for s'
    unfolding quick_flat_def Let_def det_def typed_def ..
  show ?thesis
  proof (cases "a = b \<or> (\<exists>i. cells s b = USimple (SCapture i))")
    case True
    then show ?thesis using assms by (auto simp: q)
  next
    case False
    have "quick_flat a b s' = det s'" if "cells s' = cells s" for s'
    proof (cases "cells s b")
      case (USimple v)
      then show ?thesis using False that by (cases v) (simp_all add: q)
    qed (use False that in \<open>simp_all add: q\<close>)
    then show ?thesis using d assms by simp
  qed
qed

definition undisturbed :: "ustate \<Rightarrow> ustate \<Rightarrow> bool" where
  "undisturbed s s' \<longleftrightarrow> cells s' = cells s \<and> walkStack s' = walkStack s \<and> rebindTrail s' = rebindTrail s \<and>
     suspendTrail s' = suspendTrail s"

lemma processPair_plain:
  assumes "a \<noteq> b" "plain_pattern (cells s b)" "structuralBehavior (cells s a) \<noteq> SbVariable" "structuralBehavior (cells s b) \<noteq> SbVariable"
  shows "type_of_cell (cells s a) \<noteq> type_of_cell (cells s b) \<Longrightarrow> processPair WkPatternMatch e a b s = Some (Inr False, s)"
    and "cells s a = UToken t \<Longrightarrow> processPair WkPatternMatch e a b s = Some (Inr False, s)"
proof -
  show "processPair WkPatternMatch e a b s = Some (Inr False, s)" if "type_of_cell (cells s a) \<noteq> type_of_cell (cells s b)"
  proof (cases "cells s b")
    case (USimple w)
    then show ?thesis using assms that by (cases w) (simp_all add: processPair_def Let_def plain_pattern_def)
  qed (use assms that in \<open>simp_all add: processPair_def Let_def plain_pattern_def\<close>)
  show "processPair WkPatternMatch e a b s = Some (Inr False, s)" if "cells s a = UToken t"
  proof (cases "cells s b")
    case (USimple w)
    then show ?thesis using assms that by (cases w) (simp_all add: processPair_def Let_def plain_pattern_def)
  qed (use assms that in \<open>simp_all add: processPair_def Let_def plain_pattern_def\<close>)
qed

lemma flat_agrees:
  assumes q: "quick_flat a b s = Some (res, s1)" "res \<noteq> MatchUnknown"
    and r: "\<forall>k. cells s a \<noteq> URef k" "\<forall>k. cells s b \<noteq> URef k"
    and st: "proper_store (cells s)" and nc: "no_captures (cells s) (elements (cells s a))"
  shows "res = MatchSucceed \<and> undisturbed s s1 \<and> run_pairs WkPatternMatch e a b s = resume WkPatternMatch e s1 \<or>
    res = MatchFailed \<and> s1 = s \<and> run_pairs WkPatternMatch e a b s = Some (Inr False, cleanupOnFailure s)"
proof -
  note ends = deref_determined[of "cells s" a, OF r(1)] deref_determined[of "cells s" b, OF r(2)]
  note kind = run_pairs_step[OF ends, of WkPatternMatch e]
  show ?thesis
    using q
  proof (cases rule: quick_flat_cases)
    case same
    have "processPair WkPatternMatch e a b s = Some (Inr True, s)" by (simp add: processPair_def same)
    then show ?thesis using kind(1) same by (simp add: undisturbed_def)
  next
    case (capture i)
    then show ?thesis using kind(1)[OF capture_pair[OF capture(2,1)]] by (simp add: undisturbed_def)
  next
    case types
    then show ?thesis using kind(2)[OF processPair_plain(1)[OF types(1,2,3,4,5)]] by simp
  next
    case (tokens t)
    then show ?thesis using kind(2)[OF processPair_plain(2)[OF tokens(1,2) _ tokens(3,4)]] by simp
  next
    case (vals v w)
    have "processPair WkPatternMatch e a b s = Some (Inr (value_equals v w), s)"
      using vals by (cases w) (simp_all add: processPair_def Let_def plain_pattern_def)
    then show ?thesis using kind vals by (cases "value_equals v w") (simp_all add: undisturbed_def)
  next
    case (tuples l vs l' ps same)
    show ?thesis
    proof (cases "length vs = length ps")
      case False
      then have "\<not> same" using tuples(4) by (auto simp: testTuple_def)
      moreover have "processPair WkPatternMatch e a b s = Some (Inr False, s)"
        using tuples False by (simp add: processPair_def Let_def structural_equals_def)
      ultimately show ?thesis using kind(2) tuples(5) by simp
    next
      case True
      then obtain x y where xy: "uderef (cells s) l = Some x" "uderef (cells s) l' = Some y" "same = literal_equals (cells s) x y"
        using tuples(4) literal_equals_sym by (auto simp: testTuple_def bind_eq_Some_conv)
      have "proper_tuple (cells s) a" "proper_tuple (cells s) b" using st by (simp_all add: proper_store_def)
      then have lit: "literal (cells s) x" "literal (cells s) y" and ne: "vs \<noteq> []" using tuples(2,3) xy by (auto simp: proper_tuple_def)
      note walk = tuple_walk[OF tuples(2,3,1) xy(1,2) lit, of e]
      show ?thesis
      proof (cases same)
        case False
        then show ?thesis using walk(2) tuples(5) xy(3) by simp
      next
        case yes: True
        have c: "capture_elements (cells s) vs ps s = Some (res, s1)" using yes tuples(5) by simp
        have "no_captures (cells s) vs" using nc tuples(2) by simp
        note cw = capture_walk[OF True this c refl ne, of e "walkStack s"]
        have same1: "s1\<lparr>walkStack := walkStack s\<rparr> = s1" using cw by (cases s1) simp
        show ?thesis using cw walk(1)[OF True] yes xy(3) unfolding same1 by (simp add: undisturbed_def)
      qed
    qed
  qed
qed

lemma run_pairs_deref:
  assumes "uderef (cells s) l = Some a" "uderef (cells s) r = Some b"
  shows "run_pairs kind e l r s = run_pairs kind e a b s"
proof -
  have "uderef (cells s) a = Some a" "uderef (cells s) b = Some b"
    using uderef_end[OF assms(1)] uderef_end[OF assms(2)] by (simp_all add: deref_determined)
  then have "walk_turn kind e l r s = walk_turn kind e a b s" using assms by (simp add: walk_turn_def)
  then show ?thesis by (subst (1 2) run_pairs.simps) simp
qed

section \<open>The two matchers\<close>

lemma quick_cons_decides:
  assumes "quick_cons vh vt ph pt s = Some (res, s1)" "res \<noteq> MatchUnknown"
  obtains y i where "uderef (cells s) pt = Some y" "cells s y = USimple (SCapture i)" "quick_head vh vt ph i s = Some (res, s1)"
proof -
  obtain y where y: "uderef (cells s) pt = Some y" and c: "(case cells s y of
         USimple v \<Rightarrow> (case v of SCapture index \<Rightarrow> quick_head vh vt ph index s | _ \<Rightarrow> Some (MatchUnknown, s))
       | _ \<Rightarrow> Some (MatchUnknown, s)) = Some (res, s1)"
    using assms(1) unfolding quick_cons_def bind_eq_Some_conv by blast
  obtain v where v: "cells s y = USimple v" using c assms(2) by (cases "cells s y") simp_all
  then obtain i where "v = SCapture i" using c assms(2) by (cases v) simp_all
  then show thesis using that y v c by simp
qed

lemma quick_head_decides:
  assumes "quick_head vh vt ph i s = Some (res, s1)" "res \<noteq> MatchUnknown"
  obtains p h res0 s0 where "uderef (cells s) ph = Some p" "uderef (cells s) vh = Some h" "quick_flat h p s = Some (res0, s0)"
    "(if res0 = MatchSucceed then map_option (\<lambda>vt. (res0, doCapture vt i s0)) (uderef (cells s) vt) else Some (res0, s0)) = Some (res, s1)"
proof -
  obtain p where p: "uderef (cells s) ph = Some p" and r:
    "(if type_of_cell (cells s p) \<noteq> TyTuple \<and> structuralBehavior (cells s p) \<noteq> SbValue then Some (MatchUnknown, s)
       else Option.bind (uderef (cells s) vh) (\<lambda>vh.
         Option.bind (quick_flat vh p s) (\<lambda>(res, s').
           if res = MatchSucceed then map_option (\<lambda>vt. (res, doCapture vt i s')) (uderef (cells s) vt)
           else Some (res, s')))) = Some (res, s1)"
    using assms(1) unfolding quick_head_def bind_eq_Some_conv by blast
  have "\<not> (type_of_cell (cells s p) \<noteq> TyTuple \<and> structuralBehavior (cells s p) \<noteq> SbValue)"
  proof
    assume "type_of_cell (cells s p) \<noteq> TyTuple \<and> structuralBehavior (cells s p) \<noteq> SbValue"
    then show False using r assms(2) by simp
  qed
  note r = r[unfolded if_not_P[OF this]]
  then obtain h res0 s0 where "uderef (cells s) vh = Some h" "quick_flat h p s = Some (res0, s0)"
    "(if res0 = MatchSucceed then map_option (\<lambda>vt. (res0, doCapture vt i s0)) (uderef (cells s) vt)
           else Some (res0, s0)) = Some (res, s1)"
    by (auto simp only: bind_eq_Some_conv prod.case)
  then show thesis by (rule that[OF p])
qed

text \<open>A match that does not decide has captured nothing.\<close>

lemma quick_unknown:
  assumes "quickPatternMatch a b s = Some (MatchUnknown, s1)"
  shows "s1 = s"
proof (cases "a \<noteq> b \<and> (\<exists>vh vt ph pt. cells s a = UCons vh vt \<and> cells s b = UCons ph pt)")
  case True
  then obtain vh vt ph pt where "quick_cons vh vt ph pt s = Some (MatchUnknown, s1)"
    using assms by (auto simp: quickPatternMatch_def)
  then obtain y where c: "(case cells s y of
         USimple v \<Rightarrow> (case v of SCapture index \<Rightarrow> quick_head vh vt ph index s | _ \<Rightarrow> Some (MatchUnknown, s))
       | _ \<Rightarrow> Some (MatchUnknown, s)) = Some (MatchUnknown, s1)"
    unfolding quick_cons_def bind_eq_Some_conv by blast
  have head: "s1 = s" if "quick_head vh vt ph i s = Some (MatchUnknown, s1)" for i
    using that quick_flat_keeps unfolding quick_head_def by (fastforce simp: bind_eq_Some_conv split: if_splits)
  show ?thesis
  proof (cases "cells s y")
    case (USimple v)
    then show ?thesis using c head by (cases v) simp_all
  qed (use c in simp_all)
next
  case False
  show ?thesis
  proof (cases "a = b")
    case True
    then show ?thesis using assms by (cases "cells s b") (simp_all add: quickPatternMatch_def quick_flat_def)
  next
    case ne: False
    have "quick_flat a b s = Some (MatchUnknown, s1)"
    proof (cases "cells s a")
      case (UCons h t)
      then show ?thesis using assms False ne by (cases "cells s b") (simp_all add: quickPatternMatch_def)
    qed (use assms in \<open>simp_all add: quickPatternMatch_def\<close>)
    then show ?thesis using quick_flat_keeps by blast
  qed
qed

lemma quick_pairs:
  assumes q: "quickPatternMatch a b s = Some (res, s1)" "res \<noteq> MatchUnknown"
    and r: "\<forall>k. cells s a \<noteq> URef k" "\<forall>k. cells s b \<noteq> URef k"
    and st: "proper_store (cells s)" and pv: "proper_value (cells s) a" and w: "walkStack s = []"
  shows "res = MatchSucceed \<and> undisturbed s s1 \<and> run_pairs WkPatternMatch e a b s = resume WkPatternMatch e s1 \<or>
    res = MatchFailed \<and> s1 = s \<and> run_pairs WkPatternMatch e a b s = Some (Inr False, cleanupOnFailure s)"
proof (cases "a \<noteq> b \<and> (\<exists>vh vt ph pt. cells s a = UCons vh vt \<and> cells s b = UCons ph pt)")
  case False
  have nc: "no_captures (cells s) (elements (cells s a))" using pv by (simp add: proper_value_def)
  show ?thesis
  proof (cases "a = b")
    case True
    have "processPair WkPatternMatch e a b s = Some (Inr True, s)" by (simp add: processPair_def True)
    moreover have "res = MatchSucceed \<and> s1 = s"
      using q(1) True by (cases "cells s b") (simp_all add: quickPatternMatch_def quick_flat_def Let_def)
    ultimately show ?thesis
      using run_pairs_step(1)[OF deref_determined[of "cells s" a, OF r(1)] deref_determined[of "cells s" b, OF r(2)], of WkPatternMatch e] by (simp add: undisturbed_def)
  next
    case ne: False
    have "quick_flat a b s = Some (res, s1)"
    proof (cases "cells s a")
      case (UCons h t)
      then show ?thesis using q(1) False ne by (cases "cells s b") (simp_all add: quickPatternMatch_def Let_def)
    qed (use q(1) in \<open>simp_all add: quickPatternMatch_def Let_def\<close>)
    then show ?thesis using q(2) r st nc by (rule flat_agrees)
  qed
next
  case True
  then obtain vh vt ph pt where ab: "a \<noteq> b" and c: "cells s a = UCons vh vt" "cells s b = UCons ph pt" by blast
  have "quick_cons vh vt ph pt s = Some (res, s1)" using q(1) ab c by (simp add: quickPatternMatch_def)
  then obtain y i where y: "uderef (cells s) pt = Some y" "cells s y = USimple (SCapture i)"
    and hd: "quick_head vh vt ph i s = Some (res, s1)"
    using q(2) by (rule quick_cons_decides)
  obtain p h res0 s0 where p: "uderef (cells s) ph = Some p" and h: "uderef (cells s) vh = Some h" "quick_flat h p s = Some (res0, s0)"
    "(if res0 = MatchSucceed then map_option (\<lambda>vt. (res0, doCapture vt i s0)) (uderef (cells s) vt) else Some (res0, s0)) = Some (res, s1)"
    using hd q(2) by (rule quick_head_decides)
  have res: "res0 = res" using h(3) by (auto split: if_splits)
  have ends: "uderef (cells s) a = Some a" "uderef (cells s) b = Some b" using c by (simp_all add: deref_determined)
  let ?t = "s\<lparr>walkStack := [([vh], [ph]), ([vt], [pt])]\<rparr>" and ?u = "s\<lparr>walkStack := [([vt], [pt])]\<rparr>"
  have "processPair WkPatternMatch e a b s = Some (Inr True, ?t)"
    using c ab w by (simp add: processPair_def Let_def structural_equals_def push_def)
  then have start: "run_pairs WkPatternMatch e a b s = resume WkPatternMatch e ?t" by (rule run_pairs_step[OF ends])
  also have "\<dots> = run_pairs WkPatternMatch e vh ph ?u" using resume_pair[of ?t vh "[]" ph "[]" "[([vt], [pt])]"] by simp
  also have "\<dots> = run_pairs WkPatternMatch e h p ?u" using h(1) p by (intro run_pairs_deref) simp_all
  finally have head: "run_pairs WkPatternMatch e a b s = run_pairs WkPatternMatch e h p ?u" .
  have flat: "quick_flat h p ?u = Some (res, s0\<lparr>walkStack := [([vt], [pt])]\<rparr>)"
    using quick_flat_keeps[OF h(2), of "[([vt], [pt])]"] res by simp
  have "no_captures (cells s) (elements (cells s h))" using pv c h(1) by (simp add: proper_value_def)
  then have agrees: "res = MatchSucceed \<and> undisturbed ?u (s0\<lparr>walkStack := [([vt], [pt])]\<rparr>) \<and>
      run_pairs WkPatternMatch e h p ?u = resume WkPatternMatch e (s0\<lparr>walkStack := [([vt], [pt])]\<rparr>) \<or>
    res = MatchFailed \<and> s0\<lparr>walkStack := [([vt], [pt])]\<rparr> = ?u \<and> run_pairs WkPatternMatch e h p ?u = Some (Inr False, cleanupOnFailure ?u)"
    using st uderef_end[OF h(1)] uderef_end[OF p] by (intro flat_agrees[OF flat q(2)]) simp_all
  have w0: "walkStack s0 = walkStack s" using quick_flat_keeps[OF h(2)] by blast
  show ?thesis
  proof (cases "res = MatchSucceed")
    case True
    then obtain z where z: "uderef (cells s) vt = Some z" "s1 = doCapture z i s0" using h(3) res by auto
    have u0: "undisturbed ?u (s0\<lparr>walkStack := [([vt], [pt])]\<rparr>)" and r0:
      "run_pairs WkPatternMatch e h p ?u = resume WkPatternMatch e (s0\<lparr>walkStack := [([vt], [pt])]\<rparr>)"
      using agrees True by simp_all
    let ?v = "s0\<lparr>walkStack := []\<rparr>"
    have "?v = s0" using w0 w by (cases s0) simp
    have cz: "cells ?v = cells s" using u0 by (simp add: undisturbed_def)
    have "z \<noteq> y" using pv c z(1) y(2) by (auto simp: proper_value_def no_captures_def)
    have "run_pairs WkPatternMatch e a b s = run_pairs WkPatternMatch e vt pt ?v"
      using head r0 resume_pair[of "s0\<lparr>walkStack := [([vt], [pt])]\<rparr>" vt "[]" pt "[]" "[]"] by simp
    also have "\<dots> = resume WkPatternMatch e (doCapture z i ?v)"
      by (rule run_pairs_step(1)[of _ _ z _ y]) (use z y \<open>z \<noteq> y\<close> cz in \<open>simp_all add: capture_pair\<close>)
    finally have "run_pairs WkPatternMatch e a b s = resume WkPatternMatch e s1" using z(2) \<open>?v = s0\<close> by simp
    moreover have "undisturbed s s1" using u0 w0 z(2) by (simp add: undisturbed_def)
    ultimately show ?thesis using True by simp
  next
    case False
    then have f: "res = MatchFailed" "s0\<lparr>walkStack := [([vt], [pt])]\<rparr> = ?u"
        "run_pairs WkPatternMatch e h p ?u = Some (Inr False, cleanupOnFailure ?u)"
      using agrees by simp_all
    have "s0 = (s0\<lparr>walkStack := [([vt], [pt])]\<rparr>)\<lparr>walkStack := walkStack s\<rparr>" using w0 by (cases s0) simp
    also have "\<dots> = s" unfolding f(2) by (cases s) simp
    finally have "s0 = s" .
    then show ?thesis using f head h(3) res by simp
  qed
qed

text \<open>C9. Whenever the quick matcher decides, the walk gives the same answer, the same captures and the same
  state: \<open>patternMatch\<close> is \<open>fullPatternMatch\<close>. The label of a tuple is a literal, a tuple has an element, and a
  value holds no captures.\<close>

theorem patternMatch_full:
  assumes "quickPatternMatch value pattern s \<noteq> None" and "\<forall>k. cells s value \<noteq> URef k" and "\<forall>k. cells s pattern \<noteq> URef k"
    and "proper_store (cells s)" and "proper_value (cells s) value"
    and "walkStack s = []" and "rebindTrail s = []" and "suspendTrail s = []"
  shows "patternMatch e value pattern s = fullPatternMatch e value pattern s"
proof -
  obtain res s1 where q: "quickPatternMatch value pattern s = Some (res, s1)" using assms(1) by auto
  have fresh: "s\<lparr>walkStack := [], rebindTrail := [], suspendTrail := []\<rparr> = s" using assms(6,7,8) by (cases s) simp
  have clean: "undoBindings t = t" if "rebindTrail t = []" for t
    using that by (cases t) (simp add: undoBindings_def)
  show ?thesis
  proof (cases "res = MatchUnknown")
    case True
    then have "s1 = s" using q quick_unknown by blast
    then show ?thesis using q True by (simp add: patternMatch_def)
  next
    case False
    from quick_pairs[OF q False assms(2,3,4,5,6), of e]
    consider "res = MatchSucceed" "undisturbed s s1" "run_pairs WkPatternMatch e value pattern s = resume WkPatternMatch e s1"
      | "res = MatchFailed" "s1 = s" "run_pairs WkPatternMatch e value pattern s = Some (Inr False, cleanupOnFailure s)"
      by blast
    then show ?thesis
    proof cases
      case 1
      then have "rebindTrail s1 = []" "suspendTrail s1 = []" "walkStack s1 = []" using assms by (simp_all add: undisturbed_def)
      then show ?thesis using q 1 fresh clean by (simp add: patternMatch_def fullPatternMatch_def run_def resume_end)
    next
      case 2
      have "cleanupOnFailure s = s" using fresh assms by (cases s) (simp add: cleanupOnFailure_def undoBindings_def)
      then show ?thesis using q 2 fresh by (simp add: patternMatch_def fullPatternMatch_def run_def)
    qed
  qed
qed

section \<open>Witnesses\<close>

text \<open>The value \<open>true(unit true)\<close> at node 0 and the pattern \<open>true(X Y)\<close> at node 1.\<close>

definition matching_state :: ustate where
  "matching_state =
     \<lparr>cells = (\<lambda>n. if n = 0 then UTuple 2 [3, 2] else if n = 1 then UTuple 2 [4, 5] else if n = 2 then USimple (SBoolean True)
         else if n = 3 then USimple SUnit else if n = 4 then USimple (SCapture 0) else USimple (SCapture 1)),
      objects = (\<lambda>_. \<lparr>home = 0, needed = False, pendings = []\<rparr>), nextObject = 0, trail = [], running = (\<lambda>_. False),
      resumed = [], signalled = [], walkStack = [], rebindTrail = [], suspendTrail = [], captures = (\<lambda>_. None)\<rparr>"

theorem patternMatch_full_witness:
  "\<forall>e. patternMatch e 0 1 matching_state = fullPatternMatch e 0 1 matching_state"
proof (intro allI, rule patternMatch_full)
  have d: "uderef (cells matching_state) n = Some n" for n by (rule deref_determined) (simp add: matching_state_def)
  have "literal (cells matching_state) 2" by (simp add: literal_def matching_state_def)
  then show "proper_store (cells matching_state)"
    by (auto simp: proper_store_def proper_tuple_def d) (auto simp: matching_state_def split: if_splits)
  show "proper_value (cells matching_state) 0"
    by (simp add: proper_value_def no_captures_def d) (simp add: matching_state_def)
  have "map_option fst (quickPatternMatch 0 1 matching_state) = Some MatchSucceed" by code_simp
  then show "quickPatternMatch 0 1 matching_state \<noteq> None" by auto
qed (simp_all add: matching_state_def)

end
