(* ===== verification/UnifyParts.thy ===== *)
theory UnifyParts
  imports Unify
begin

text \<open>
  Two operations that unification and matching rest on: the dichotomic search of \<open>Arity::lookupFeature\<close>
  (\<open>vm/vm/main/records.hh\<close>), and the binding of a variable of a parent space (\<open>variables.hh\<close>).
\<close>

section \<open>Search in an arity\<close>

abbreviation sorted_features :: "feature list \<Rightarrow> bool" where
  "sorted_features \<equiv> sorted_wrt (\<lambda>a b. compareFeatures a b < 0)"

lemma arity_search_spec:
  assumes "sorted_features fs"
  shows "hi \<le> length fs \<Longrightarrow> (\<And>j. j < length fs \<Longrightarrow> fs ! j = f \<Longrightarrow> lo \<le> j \<and> j < hi) \<Longrightarrow>
    arity_search fs f lo hi = Some i \<longleftrightarrow> i < length fs \<and> fs ! i = f"
proof (induction "hi - lo" arbitrary: lo hi rule: less_induct)
  case less
  show ?case
  proof (cases "lo < hi")
    case False
    then show ?thesis using less(3)[of i] by (subst arity_search.simps) auto
  next
    case True
    define m where "m = (lo + hi) div 2"
    have m: "lo \<le> m" "m < hi" "m < length fs" using True less(2) by (auto simp: m_def)
    have order: "compareFeatures (fs ! j) (fs ! k) < 0" if "j < k" "k < length fs" for j k
      using sorted_wrt_nth_less[OF assms that] .
    have turn: "arity_search fs f lo hi =
        (if compareFeatures f (fs ! m) = 0 then Some m
         else if compareFeatures f (fs ! m) < 0 then arity_search fs f lo m else arity_search fs f (m + 1) hi)"
      using True by (subst arity_search.simps) (simp add: m_def Let_def)
    consider "f = fs ! m" | "compareFeatures f (fs ! m) < 0" | "compareFeatures (fs ! m) f < 0"
      using features.cmp_cases by blast
    then show ?thesis
    proof cases
      case 1
      have "i = m" if "i < length fs" "fs ! i = f"
        using order[of i m] order[of m i] m(3) that 1 by (metis features.cmp_irrefl linorder_neqE_nat)
      then show ?thesis using turn 1 m(3) by auto
    next
      case 2
      have "j < m" if "j < length fs" "fs ! j = f" for j
      proof (rule ccontr)
        assume "\<not> j < m"
        then have "fs ! m = f \<or> compareFeatures (fs ! m) f < 0" using order[of m j] that by (cases "m = j") auto
        then show False using 2 features.cmp_asym by auto
      qed
      then have "arity_search fs f lo m = Some i \<longleftrightarrow> i < length fs \<and> fs ! i = f"
        using m less(3) by (intro less(1)) auto
      then show ?thesis using turn 2 by simp
    next
      case 3
      have "m < j" if "j < length fs" "fs ! j = f" for j
      proof (rule ccontr)
        assume "\<not> m < j"
        then have "fs ! m = f \<or> compareFeatures f (fs ! m) < 0" using order[of j m] that m(3) by (cases "m = j") auto
        then show False using 3 features.cmp_asym by auto
      qed
      then have "arity_search fs f (m + 1) hi = Some i \<longleftrightarrow> i < length fs \<and> fs ! i = f"
        using m less(2,3) by (intro less(1)) (auto simp: Suc_le_eq)
      moreover have "compareFeatures f (fs ! m) \<noteq> 0" "\<not> compareFeatures f (fs ! m) < 0"
        using 3 features.cmp_asym features.cmp_eq by auto
      ultimately show ?thesis using turn by simp
    qed
  qed
qed

section \<open>Waiters of a variable of a parent space\<close>

text \<open>Threads that should not wake up are passed over.\<close>

lemma wake_passes:
  assumes "\<forall>p \<in> set ps. \<exists>t. cells s p = USimple (SThread t) \<and> \<not> ancestorIsCurrent e (threadSpace e t)"
  shows "wake e (map (Pair True) ps) s = Some s"
  using assms
proof (induction ps)
  case (Cons p ps)
  obtain t where t: "cells s p = USimple (SThread t)" "\<not> ancestorIsCurrent e (threadSpace e t)" using Cons(2) by auto
  have "uderef (cells s) p = Some p" using t(1) by (intro deref_determined) simp
  then show ?case using Cons t by (subst wake.simps) simp
qed (subst wake.simps, simp)

lemma wake_none: "wake e [] s = Some s"
  by (subst wake.simps) simp

lemma bind_no_waiters:
  assumes "cells s n = UVariable x" "\<not> needed (objects s x)" "pendings (objects s x) = []" "onTopLevel e"
  shows "bind_variable e n src s = Some (Inr (), set_pendings x [] (reinit_node n src s))"
proof -
  have "pendings (objects (reinit_node n src s) x) = []" using assms(3) by (simp add: reinit_node_def)
  then show ?thesis using assms by (simp add: bind_variable_def doBind_def become_source_def become_def wake_none)
qed

section \<open>Properties\<close>

text \<open>C22. The search in an arity finds a feature exactly where it is, when the features are sorted without
  repetition by their order, and nothing otherwise.\<close>

theorem arity_lookup_exact:
  assumes "sorted_features fs"
  shows "arity_lookupFeature fs f = Some i \<longleftrightarrow> i < length fs \<and> fs ! i = f"
  unfolding arity_lookupFeature_def using arity_search_spec[OF assms, of "length fs" f 0] by simp

text \<open>C23. A speculative binding loses the waiters of a variable. Threads of the parent space wait on it; a
  thread of a subspace binds it. The threads are not woken, which is right, but the list of the waiters, which
  the saved node shares, is emptied. When the subspace is undone and the node restored, a binding on the top
  level wakes nobody.\<close>

theorem speculative_binding_loses_waiters:
  assumes "\<not> onTopLevel e" and "home (objects s x) \<noteq> currentSpace e" and "cells s n = UVariable x" and "\<not> needed (objects s x)"
    and "\<forall>p \<in> set (pendings (objects s x)). p \<noteq> n \<and> (\<exists>t. cells s p = USimple (SThread t) \<and> \<not> ancestorIsCurrent e (threadSpace e t))"
    and "cells s src = USimple v" and "onTopLevel e0"
  shows "\<exists>s'. bind_variable e n src s = Some (Inr (), s') \<and> trail s' = trail s @ [(n, UVariable x)] \<and> running s' = running s \<and>
    (\<exists>s''. bind_variable e0 n src (s'\<lparr>cells := (cells s')(n := UVariable x)\<rparr>) = Some (Inr (), s'') \<and>
       running s'' = running s \<and> resumed s'' = resumed s)"
proof -
  have ns: "src \<noteq> n" using assms(3,6) by auto
  let ?s = "set_pendings x [] (reinit_node n src (makeBackup n s))"
  let ?r = "?s\<lparr>cells := (cells ?s)(n := UVariable x)\<rparr>"
  have w: "wake e (map (Pair True) (pendings (objects s x))) ?s = Some ?s"
    using assms(5) by (intro wake_passes) (auto simp: set_pendings_def reinit_node_def makeBackup_def)
  have "home (objects (makeBackup n s) x) \<noteq> currentSpace e" "\<not> needed (objects (makeBackup n s) x)"
    "pendings (objects (reinit_node n src (makeBackup n s)) x) = pendings (objects s x)"
    using assms(2,4) by (simp_all add: makeBackup_def reinit_node_def)
  then have b: "bind_variable e n src s = Some (Inr (), ?s)"
    using assms(1-4) w by (simp add: bind_variable_def doBind_def bindSubSpace_def become_source_def become_def makeBackup_def)
  have f: "objects ?s x = (objects s x)\<lparr>pendings := []\<rparr>" "trail ?s = trail s @ [(n, UVariable x)]" "running ?s = running s"
    "resumed ?s = resumed s"
    using assms(3) by (simp_all add: set_pendings_def reinit_node_def makeBackup_def)
  let ?u = "set_pendings x [] (reinit_node n src ?r)"
  have "bind_variable e0 n src ?r = Some (Inr (), ?u)"
    by (rule bind_no_waiters) (use assms(4,7) f(1) in simp_all)
  moreover have "running ?u = running ?s" "resumed ?u = resumed ?s" by (simp_all add: set_pendings_def reinit_node_def)
  then have "running ?u = running s" "resumed ?u = resumed s" using f(3,4) by simp_all
  ultimately show ?thesis using b f(2,3) by blast
qed

section \<open>Witnesses\<close>

theorem arity_lookup_exact_witness:
  "arity_lookupFeature [FSmallInt (-1), FSmallInt 2, FSmallInt 7] (FSmallInt 2) = Some 1"
proof -
  have "sorted_features [FSmallInt (-1), FSmallInt 2, FSmallInt 7]"
    by (simp add: compareFeatures_def smallint_compareFeatures_sgn)
  from arity_lookup_exact[OF this, of "FSmallInt 2" 1] show ?thesis by simp
qed

text \<open>Thread 7 waits on the variable at node 0 of space 0; a thread of space 1 binds it to the value at node
  2.\<close>

definition sub_env :: environment where
  "sub_env = \<lparr>onTopLevel = False, currentSpace = 1, ancestorIsCurrent = (\<lambda>sp. sp = 1), threadSpace = (\<lambda>_. 0), controlNode = 9\<rparr>"

definition waiting_state :: ustate where
  "waiting_state =
     \<lparr>cells = (\<lambda>n. if n = 0 then UVariable 0 else if n = 1 then USimple (SThread 7) else USimple SUnit),
      objects = (\<lambda>_. \<lparr>home = 0, needed = False, pendings = [1]\<rparr>), nextObject = 1, trail = [], running = (\<lambda>_. False),
      resumed = [], signalled = [], walkStack = [], rebindTrail = [], suspendTrail = [], captures = (\<lambda>_. None)\<rparr>"

theorem speculative_binding_loses_waiters_witness:
  "\<exists>s'. bind_variable sub_env 0 2 waiting_state = Some (Inr (), s') \<and> trail s' = [(0, UVariable 0)] \<and>
    (\<exists>s''. bind_variable (sub_env\<lparr>onTopLevel := True\<rparr>) 0 2 (s'\<lparr>cells := (cells s')(0 := UVariable 0)\<rparr>) = Some (Inr (), s'') \<and>
       \<not> running s'' 7 \<and> resumed s'' = [])"
  using speculative_binding_loses_waiters[of sub_env waiting_state 0 0 2 SUnit "sub_env\<lparr>onTopLevel := True\<rparr>"]
  by (auto simp: sub_env_def waiting_state_def)

end
