(* ===== verification/Spec2Isabelle.thy ===== *)
theory Spec2Isabelle
  imports LString Utf UtfStrings Coders Strings Integers AtomTable Uuid Features Dictionary Scheduling Memory Spaces VirtualStrings Pickler Unpickler PicklePhases PickleRoundtrip Unify UnifyCorrect UnifyEnd QuickMatch UnifyParts
begin

text \<open>
  The Mozart 2 virtual machine (\<open>vm/vm/main\<close>): the run time of the language Oz, in C++. A
  program is a graph of nodes in a store; threads, ordered by a thread pool, run in computation
  spaces, which form a tree; memory is collected when a threshold is passed; values leave the machine
  as text (virtual strings, encodings) and as pickles. The theories model these parts bottom up. Each
  definition is a translation of one function of the source and keeps its name where it can.

  \<^bold>\<open>Text.\<close>
  \<open>LString\<close> (\<open>lstring-decl.hh\<close>, \<open>lstring.hh\<close>): strings with a length or an error.
  \<open>Utf\<close> (\<open>utf.hh\<close>): the coders of one code point for the three unit widths; the locale
  \<open>unicode_codec\<close> states what the algorithms need of them, and all three interpret it.
  \<open>UtfStrings\<close> (\<open>utf.hh\<close>): the algorithms over whole strings: decoding is exact (it accepts the
  encodings of valid code points and nothing else), conversion, slices and the order by code points.
  \<open>Coders\<close> (\<open>coders.cc\<close>): byte strings in Latin-1, UTF-8, UTF-16 and UTF-32; decoding undoes
  encoding for every byte order and mark.
  \<open>Strings\<close> (\<open>string.hh\<close>, \<open>bytestring.hh\<close>): string objects, their search, slices and errors.
  \<open>VirtualStrings\<close> (\<open>utils.hh\<close>, \<open>matchdsl.hh\<close>): what numbers, atoms, lists and tuples print as,
  the size of the buffer, and the conversion of arguments.

  \<^bold>\<open>Values.\<close>
  \<open>Integers\<close> (\<open>smallint.hh\<close>, \<open>bigint.hh\<close>): arithmetic on 64-bit words that falls over into big
  integers, exact on every operation; the library of big integers is the record \<open>BigIntImplem\<close> with
  the laws of the locale \<open>big_integers\<close>.
  \<open>AtomTable\<close> (\<open>atomtable.hh\<close>): the PATRICIA tree that makes atoms unique, and their printing.
  \<open>Uuid\<close> (\<open>uuid-decl.hh\<close>, \<open>store.hh\<close>): identifiers and the search tree of global nodes.
  \<open>Features\<close>: the order of the features (\<open>compareFeatures\<close>), a linear order; the locale
  \<open>feature_order\<close> is what the sorted structures use of it.
  \<open>Dictionary\<close> (\<open>dictionary.hh\<close>): red-black trees with parent pointers, as a zipper; every session
  of requests is answered as by a finite map, errors included, at logarithmic depth.

  \<^bold>\<open>The machine.\<close>
  \<open>Scheduling\<close> (\<open>threadpool.hh\<close>): three queues and the counters that bound the wait of low
  priorities.
  \<open>Memory\<close> (\<open>memmanager.hh\<close>, \<open>properties.cc\<close>, \<open>vm.hh\<close>): free lists and buckets, disjointness of
  the blocks in use, the threshold of the collector and the size of the heap.
  \<open>Spaces\<close> (\<open>space.hh\<close>, \<open>runnable.hh\<close>): the tree of spaces and the counters of runnable threads that
  decide stability; the invariant of the comment in \<open>space-decl.hh\<close> is proved for every session of
  requests, and the operations that break it are shown to.
  \<open>Pickler\<close> (\<open>pickler.cc\<close>, \<open>serializer.hh\<close>): the walk that marks the nodes of the store with their
  indexes, the three phases that merge equal values and arities, and the bytes. \<open>Unpickler\<close>
  (\<open>unpickler.cc\<close>): the readers of each kind of node and the vector of nodes. \<open>PicklePhases\<close>: what
  the phases write, given the entries of the walk. \<open>PickleRoundtrip\<close>: the walk ends, numbers what can
  be reached and leaves the store as it was; what is written is read back; a cut pickle is refused.

  \<^bold>\<open>Unification.\<close>
  \<open>Unify\<close> (\<open>unify.cc\<close>, \<open>unify.hh\<close>, \<open>variables.hh\<close>): the store as a map from nodes to cells; the variables,
  their bindings and wake-ups; the walk over pairs of nodes, which turns each pair of structures into a
  reference until it is done, so that cyclic values are walked once; patterns and the quick matcher.
  \<open>UnifyCorrect\<close>: a store is a system of equations over finite and infinite trees (a \<open>codatatype\<close>). The
  invariant of the walk says that the store without the temporary references, with the pairs that are left,
  has the solutions of the first one; so unification solves the equation of its operands and equality decides
  it. \<open>UnifyEnd\<close>: the walk of two values ends, by the number of structures that are left and the length of
  the stack. \<open>QuickMatch\<close>: the quick matcher agrees with the walk. \<open>UnifyParts\<close>: the search in an arity,
  and the waiters that a speculative binding loses.
  The operands of the walk are stable nodes. A parameter says which threads and spaces are under the current
  space. What unification wakes is recorded in \<open>signalled\<close>.

  \<^bold>\<open>Conventions.\<close> A failed assertion, an abort or an endless loop is a value of its own (\<open>None\<close>, or an
  error constructor). Exceptions of the virtual machine are the left side of a sum. Addresses are
  numbers in the order of creation. Sessions (\<open>dict_session\<close>, \<open>heap_session\<close>, \<open>space_session\<close>,
  \<open>pool_run\<close>) are sequences of requests, so a theorem about sessions speaks of all reachable states.
  Fuel: \<open>forEachLoop\<close> takes the length of the string (\<open>forEachLoop_fuel\<close>), \<open>low_priority_served\<close>
  bounds the rounds of \<open>popNext\<close>, \<open>unpickle_loop\<close> takes the length of the input (\<open>loop_fuel\<close>); loops over pointers are \<open>partial_function (option)\<close>, and that they
  return is proved where it is claimed.

  \<^bold>\<open>Not modelled.\<close> The generator and the files it writes (\<open>vm/generator\<close>, \<open>vm/vm/main/cached\<close>), the
  bindings to the operating system and the network (\<open>vm/boostenv\<close>, \<open>wish\<close>, \<open>opi\<close>), the compiler
  (\<open>bootcompiler\<close>, in Scala) and the libraries (\<open>lib\<close>, in Oz); the printing of values for debugging.
  Further parts that are left out: the emulator and its byte code (\<open>emulate.cc\<close>), whose instructions are
  dispatched through generated code; the construction and printing of records, reflective variables, the
  creation of read-only views; cells, arrays, ports, objects and the arithmetic of floats; the copying of the
  graph (\<open>graphreplicator.hh\<close>, \<open>gcollect.cc\<close>, \<open>sclone.cc\<close>), whose work per type is generated; and the
  builtin modules, which call the operations of the types.
\<close>

end
